(* ===== verification/Prelude.thy ===== *)
theory Prelude
  imports Main "HOL-Library.Word"
begin

text \<open>
  Shared vocabulary of the development: the machine types of the C sources
  (\<^verbatim>\<open>u8\<close>, \<^verbatim>\<open>char32_t\<close>), the small integer helpers of
  \<^verbatim>\<open>src/cutils.h\<close>, and generic facts on lists that every component uses.

  C \<^verbatim>\<open>int\<close> values (offsets, sizes, line and column numbers) are modelled by
  \<^typ>\<open>int\<close> at the interface of a function and by \<^typ>\<open>nat\<close> once a guard has
  established that they are not negative. Signed overflow is undefined in C, so no
  wrap-around is modelled for them; where the width of a value matters (bytes, code
  points, serialised integers) words are used.
\<close>

unbundle bit_operations_syntax

type_synonym byte = "8 word"
type_synonym char32 = "32 word"

named_theorems content_simps \<open>effect of an operation on the flat contents\<close>
named_theorems wf_intros \<open>preservation of the well-formedness invariants\<close>

section \<open>Integer helpers of cutils.h\<close>

definition min_int :: "int \<Rightarrow> int \<Rightarrow> int" where
  "min_int a b = (if a < b then a else b)"

definition max_int :: "int \<Rightarrow> int \<Rightarrow> int" where
  "max_int a b = (if a > b then a else b)"

definition clamp_int :: "int \<Rightarrow> int \<Rightarrow> int \<Rightarrow> int" where
  "clamp_int a b c = (if a < b then b else if a > c then c else a)"

lemma min_int_eq [simp]: "min_int a b = min a b"
  by (simp add: min_int_def)

lemma max_int_eq [simp]: "max_int a b = max a b"
  by (simp add: max_int_def)

lemma clamp_int_bounds: "b \<le> c \<Longrightarrow> b \<le> clamp_int a b c \<and> clamp_int a b c \<le> c"
  by (simp add: clamp_int_def)

section \<open>Comparison functions\<close>

text \<open>The contract of a comparison function: exchanging the arguments reverses the sign, and the
  order is transitive. Sorting relies on nothing else.\<close>

type_synonym 'a compare_fn = "'a \<Rightarrow> 'a \<Rightarrow> int"

locale compare_contract =
  fixes cmp :: "'a compare_fn"
  assumes cmp_flip: "cmp a b > 0 \<longleftrightarrow> cmp b a < 0"
    and cmp_trans: "cmp a b \<le> 0 \<Longrightarrow> cmp b c \<le> 0 \<Longrightarrow> cmp a c \<le> 0"
begin

lemma cmp_connex: "\<not> cmp a b > 0 \<Longrightarrow> cmp a b \<le> 0" "cmp a b > 0 \<Longrightarrow> cmp b a \<le> 0" "cmp b a < 0 \<Longrightarrow> cmp b a \<le> 0"
  using cmp_flip by fastforce+

lemma cmp_zero: "cmp a b = 0 \<longleftrightarrow> cmp b a = 0"
  using cmp_flip [of a b] cmp_flip [of b a] by linarith

lemma reversed: "compare_contract (\<lambda>a b. - cmp a b)"
proof
  show "- cmp a b > 0 \<longleftrightarrow> - cmp b a < 0" for a b using cmp_flip [of b a] by simp
  show "- cmp a b \<le> 0 \<Longrightarrow> - cmp b c \<le> 0 \<Longrightarrow> - cmp a c \<le> 0" for a b c
    using cmp_trans [of c b a] cmp_flip [of a b] cmp_flip [of b c] cmp_flip [of a c] cmp_flip [of b a] cmp_flip [of c b]
      cmp_flip [of c a] by linarith
qed

lemma cmp_trans_less: "cmp a b \<le> 0 \<Longrightarrow> cmp b c \<le> 0 \<Longrightarrow> cmp a b < 0 \<or> cmp b c < 0 \<Longrightarrow> cmp a c < 0"
  using cmp_trans [of a b c] cmp_trans [of c a b] cmp_trans [of b c a] cmp_flip [of a b] cmp_flip [of b c]
    cmp_flip [of c a] cmp_flip [of c b] cmp_flip [of b a] cmp_zero [of a c] by linarith

lemma followed_by:
  assumes "compare_contract cmp'"
  shows "compare_contract (\<lambda>a b. if cmp a b \<noteq> 0 then cmp a b else cmp' a b)"
proof -
  have le: "(if cmp a b \<noteq> 0 then cmp a b else cmp' a b) \<le> 0 \<longleftrightarrow> cmp a b < 0 \<or> cmp a b = 0 \<and> cmp' a b \<le> 0" for a b
    by auto
  show ?thesis
  proof
    show "(if cmp a b \<noteq> 0 then cmp a b else cmp' a b) > 0 \<longleftrightarrow> (if cmp b a \<noteq> 0 then cmp b a else cmp' b a) < 0" for a b
      using cmp_zero [of a b] cmp_flip [of a b] compare_contract.cmp_flip [OF assms, of a b] by auto
    fix a b c
    assume "(if cmp a b \<noteq> 0 then cmp a b else cmp' a b) \<le> 0" "(if cmp b c \<noteq> 0 then cmp b c else cmp' b c) \<le> 0"
    then have "cmp a c < 0 \<or> cmp a b = 0 \<and> cmp b c = 0 \<and> cmp' a b \<le> 0 \<and> cmp' b c \<le> 0"
      unfolding le using cmp_trans_less [of a b c] by auto
    then show "(if cmp a c \<noteq> 0 then cmp a c else cmp' a c) \<le> 0"
      unfolding le using cmp_trans [of a b c] cmp_trans [of c b a] cmp_zero [of a b] cmp_zero [of b c] cmp_flip [of c a]
        compare_contract.cmp_trans [OF assms, of a b c] by auto
  qed
qed

end

text \<open>Differences and comparisons of integer keys satisfy it.\<close>

lemma compare_key: "compare_contract (\<lambda>a b. f a - f b :: int)"
  "compare_contract (\<lambda>a b. if f a \<noteq> (f b :: int) then if f a < f b then -1 else 1 else 0)"
  by unfold_locales (auto split: if_splits)

section \<open>Generic facts on lists\<close>

definition splice_at :: "nat \<Rightarrow> nat \<Rightarrow> 'a list \<Rightarrow> 'a list \<Rightarrow> 'a list" where
  "splice_at off n ys xs = take off xs @ ys @ drop (off + n) xs"

lemma length_splice_at:
  "off + n \<le> length xs \<Longrightarrow> length (splice_at off n ys xs) = length xs - n + length ys"
  by (simp add: splice_at_def)

lemma splice_at_0: "splice_at off 0 ys xs = take off xs @ ys @ drop off xs"
  by (simp add: splice_at_def)

lemma splice_at_nothing [simp]: "splice_at off 0 [] xs = xs"
  by (simp add: splice_at_def)

lemma splice_at_inverse:
  assumes "off + n \<le> length xs"
  shows "splice_at off (length ys) (take n (drop off xs)) (splice_at off n ys xs) = xs"
proof -
  have "drop off xs = take n (drop off xs) @ drop (off + n) xs"
    by (metis append_take_drop_id drop_drop add.commute)
  with assms show ?thesis
    by (simp add: splice_at_def)
qed

lemma splice_at_append_left:
  "off + n \<le> length xs \<Longrightarrow> splice_at off n zs (xs @ ys) = splice_at off n zs xs @ ys"
  by (simp add: splice_at_def)

lemma splice_at_append_right:
  "splice_at (length xs + off) n zs (xs @ ys) = xs @ splice_at off n zs ys"
  by (simp add: splice_at_def add.assoc)

lemma take_drop_split: "take n (drop off xs) @ drop (off + n) xs = drop off xs"
  by (metis append_take_drop_id drop_drop add.commute)

lemma take_drop_append [simp]: "take n xs @ drop n xs @ ys = xs @ ys"
  by (metis append_assoc append_take_drop_id)

lemma take_take_drop: "take off xs @ take n (drop off xs) = take (off + n) xs"
  by (simp add: take_add)

lemma take_less_eq_nth_drop:
  "i < length xs \<Longrightarrow> xs = take i xs @ xs ! i # drop (Suc i) xs"
  by (rule id_take_nth_drop)

end
