(* ===== verification/PageTable.thy ===== *)
theory PageTable
  imports Prelude
begin

text \<open>
  The page table of an edit buffer (\<^verbatim>\<open>src/buffer.c\<close>, first section): the text is a
  sequence of pages of at most \<^verbatim>\<open>MAX_PAGE_SIZE\<close> bytes. The operations below are the
  page-level bodies of \<^verbatim>\<open>find_page\<close>, \<^verbatim>\<open>update_page\<close>, \<^verbatim>\<open>eb_read\<close>,
  \<^verbatim>\<open>eb_write\<close>, \<^verbatim>\<open>eb_insert1\<close>, \<^verbatim>\<open>eb_insert_lowlevel\<close> and
  \<^verbatim>\<open>eb_delete\<close>; theory \<open>Buffer\<close> wraps them with the guards, the callbacks and
  the log. A page's \<^verbatim>\<open>size\<close> field is the length of its data list, every page being
  reallocated to exactly that size. Allocation is assumed to succeed.
\<close>

section \<open>Pages\<close>

definition MAX_PAGE_SIZE :: nat where
  "MAX_PAGE_SIZE = 4096"

record Page =
  data :: "byte list"
  pg_read_only :: bool
  pg_valid_pos :: bool
  pg_valid_char :: bool
  pg_valid_colors :: bool
  nb_lines :: int
  col :: int
  nb_chars :: int

abbreviation psize :: "Page \<Rightarrow> nat" where
  "psize p \<equiv> length (data p)"

definition new_page :: "byte list \<Rightarrow> Page" where
  "new_page bs = \<lparr>data = bs, pg_read_only = False, pg_valid_pos = False,
     pg_valid_char = False, pg_valid_colors = False, nb_lines = 0, col = 0, nb_chars = 0\<rparr>"

definition update_page :: "Page \<Rightarrow> Page" where
  "update_page p = p\<lparr>pg_read_only := False, pg_valid_pos := False,
     pg_valid_char := False, pg_valid_colors := False\<rparr>"

section \<open>Locating a page\<close>

text \<open>
  The pair (cur_page, cur_offset) is the page cache; \<open>None\<close> is a null
  \<^verbatim>\<open>cur_page\<close>. Running past the end of the table is undefined in C and is not
  reached for an offset inside the buffer.
\<close>

type_synonym page_cache = "(nat \<times> nat) option"

fun find_page_from :: "Page list \<Rightarrow> nat \<Rightarrow> nat \<Rightarrow> nat \<times> nat" where
  "find_page_from [] i page_offset = (i, page_offset)"
| "find_page_from (p # ps) i page_offset =
     (if page_offset \<ge> psize p then find_page_from ps (Suc i) (page_offset - psize p)
      else (i, page_offset))"

definition find_page :: "Page list \<Rightarrow> page_cache \<Rightarrow> nat \<Rightarrow> (nat \<times> nat) \<times> page_cache" where
  "find_page pt cache offset =
     (let cached = (case cache of Some (i, o0) \<Rightarrow> offset \<ge> o0 | None \<Rightarrow> False);
          (i0, page_offset) = (case cache of
             Some (i, o0) \<Rightarrow> (if offset \<ge> o0 then (i, offset - o0) else (0, offset))
           | None \<Rightarrow> (0, offset))
      in if cached \<and> page_offset < psize (pt ! i0) then ((i0, page_offset), cache)
         else let (i, po) = find_page_from (drop i0 pt) i0 page_offset
              in ((i, po), Some (i, offset - po)))"

section \<open>Reading and overwriting\<close>

fun read_pages :: "Page list \<Rightarrow> nat \<Rightarrow> nat \<Rightarrow> byte list" where
  "read_pages [] offset remain = []"
| "read_pages (p # ps) offset remain =
     (let len = min (psize p - offset) remain
      in take len (drop offset (data p)) @
         (if remain - len = 0 then [] else read_pages ps 0 (remain - len)))"

fun write_pages :: "Page list \<Rightarrow> nat \<Rightarrow> byte list \<Rightarrow> Page list" where
  "write_pages [] page_offset buf = []"
| "write_pages (p # ps) page_offset buf =
     (let len = min (psize p - page_offset) (length buf);
          p' = (update_page p)\<lparr>data := splice_at page_offset len (take len buf) (data p)\<rparr>
      in if length buf - len = 0 then p' # ps
         else p' # write_pages ps 0 (drop len buf))"

section \<open>Inserting\<close>

function fresh_pages :: "byte list \<Rightarrow> Page list" where
  "fresh_pages buf =
     (if buf = [] then []
      else new_page (take MAX_PAGE_SIZE buf) # fresh_pages (drop MAX_PAGE_SIZE buf))"
  by pat_completeness auto
termination
  by (relation "measure length") (auto simp: MAX_PAGE_SIZE_def)

definition eb_insert1 :: "Page list \<Rightarrow> nat \<Rightarrow> byte list \<Rightarrow> Page list" where
  "eb_insert1 pt page_index buf =
     (let (pt1, rest) =
        (if page_index < length pt then
           let p = pt ! page_index;
               len = min (MAX_PAGE_SIZE - psize p) (length buf)
           in if len > 0
              then (pt[page_index :=
                      (update_page p)\<lparr>data := drop (length buf - len) buf @ data p\<rparr>],
                    take (length buf - len) buf)
              else (pt, buf)
         else (pt, buf))
      in take page_index pt1 @ fresh_pages rest @ drop page_index pt1)"

text \<open>
  The \<^verbatim>\<open>retry:\<close> loop of \<^verbatim>\<open>eb_insert_lowlevel\<close>: while the insertion would
  overflow the current page and the previous page has room, move bytes in front of the
  insertion point to the previous page. The result is the table, the page index and the
  offset at which the loop is left. (The guard \<open>i < length pt\<close> always holds there.)
\<close>

definition shift_needed :: "Page list \<Rightarrow> nat \<Rightarrow> nat \<Rightarrow> nat \<Rightarrow> bool" where
  "shift_needed pt i offset sz \<longleftrightarrow>
     psize (pt ! i) + min (MAX_PAGE_SIZE - offset) sz > MAX_PAGE_SIZE \<and>
     0 < i \<and> i < length pt \<and> psize (pt ! (i - 1)) < MAX_PAGE_SIZE"

function insert_retry :: "Page list \<Rightarrow> nat \<Rightarrow> nat \<Rightarrow> nat \<Rightarrow> Page list \<times> nat \<times> nat" where
  "insert_retry pt i offset sz =
     (if shift_needed pt i offset sz then
        let q = update_page (pt ! (i - 1));
            p = update_page (pt ! i);
            chunk = min (MAX_PAGE_SIZE - psize q) offset;
            q' = q\<lparr>data := data q @ take chunk (data p)\<rparr>
        in if psize p - chunk = 0 then
             insert_retry (take (i - 1) pt @ q' # drop (Suc i) pt) (i - 1) (psize q') sz
           else
             let pt' = pt[i - 1 := q', i := p\<lparr>data := drop chunk (data p)\<rparr>];
                 offset' = offset - chunk
             in if offset' = 0 \<and> psize q' < MAX_PAGE_SIZE
                then insert_retry pt' (i - 1) (psize q') sz
                else insert_retry pt' i offset' sz
      else (pt, i, offset))"
  by pat_completeness auto
termination
  by (relation "measure (\<lambda>(pt, i, offset, sz).
        2 * i + (if psize (pt ! (i - 1)) < MAX_PAGE_SIZE then 1 else 0))")
     (auto simp: shift_needed_def update_page_def, linarith+)

definition insert_at :: "Page list \<Rightarrow> nat \<Rightarrow> nat \<Rightarrow> byte list \<Rightarrow> Page list" where
  "insert_at pt page_index offset buf =
     (let p = pt ! page_index;
          len = min (MAX_PAGE_SIZE - offset) (length buf);
          len_out = psize p + len - MAX_PAGE_SIZE;
          pt1 = (if len_out > 0
                 then eb_insert1 pt (Suc page_index) (drop (psize p - len_out) (data p))
                 else pt);
          pt2 = (if len > 0
                 then pt1[page_index := (update_page p)\<lparr>data :=
                        take offset (data p) @ take len buf @
                        take (psize p + len - len_out - (offset + len)) (drop offset (data p))\<rparr>]
                 else pt1)
      in if length buf - len > 0 then eb_insert1 pt2 (Suc page_index) (drop len buf) else pt2)"

definition eb_insert_lowlevel :: "Page list \<Rightarrow> page_cache \<Rightarrow> nat \<Rightarrow> byte list \<Rightarrow> Page list" where
  "eb_insert_lowlevel pt cache offset buf =
     (if offset > 0 then
        let ((i0, o0), _) = find_page pt cache (offset - 1);
            (pt', i, off) = insert_retry pt i0 (Suc o0) (length buf)
        in insert_at pt' i off buf
      else if length buf > 0 then eb_insert1 pt 0 buf else pt)"

section \<open>Deleting\<close>

text \<open>
  The loop of \<^verbatim>\<open>eb_delete\<close>: pages that are covered entirely are only counted (from
  \<^verbatim>\<open>del_start\<close>), and removed from the table in one move afterwards.
\<close>

function delete_pages ::
  "Page list \<Rightarrow> nat \<Rightarrow> nat \<Rightarrow> nat \<Rightarrow> nat option \<Rightarrow> nat \<Rightarrow> Page list \<times> nat option \<times> nat" where
  "delete_pages [] i offset sz del_start n = ([], del_start, n)"
| "delete_pages (p # ps) i offset sz del_start n =
     (if sz = 0 then (p # ps, del_start, n)
      else
        let len = min (psize p - offset) sz
        in if len = psize p then
             let (ps', ds', n') = delete_pages ps (Suc i) 0 (sz - len)
                   (case del_start of None \<Rightarrow> Some i | Some d \<Rightarrow> Some d) (Suc n)
             in (p # ps', ds', n')
           else
             let p' = (update_page p)\<lparr>data := splice_at offset len [] (data p)\<rparr>
             in if offset + len \<ge> psize p' then
                  let (ps', ds', n') = delete_pages ps (Suc i) 0 (sz - len) del_start n
                  in (p' # ps', ds', n')
                else delete_pages (p' # ps) i (offset + len) (sz - len) del_start n)"
  by pat_completeness auto
termination
  by (relation "measures [\<lambda>(ps, i, offset, sz, ds, n). length ps,
        \<lambda>(ps, i, offset, sz, ds, n). sz]")
     (auto simp: splice_at_def update_page_def)

definition delete_range_pages :: "Page list \<Rightarrow> nat \<Rightarrow> nat \<Rightarrow> nat \<Rightarrow> Page list" where
  "delete_range_pages pt i offset sz =
     (let (ps, ds, n) = delete_pages (drop i pt) i offset sz None 0;
          pt' = take i pt @ ps
      in case ds of None \<Rightarrow> pt' | Some d \<Rightarrow> take d pt' @ drop (d + n) pt')"

section \<open>The abstraction: the flat contents\<close>

definition content :: "Page list \<Rightarrow> byte list" where
  "content pt = concat (map data pt)"

definition pages_ok :: "Page list \<Rightarrow> bool" where
  "pages_ok pt \<longleftrightarrow> list_all (\<lambda>p. 0 < psize p \<and> psize p \<le> MAX_PAGE_SIZE) pt"

definition cache_ok :: "Page list \<Rightarrow> page_cache \<Rightarrow> bool" where
  "cache_ok pt cache = (case cache of None \<Rightarrow> True
     | Some (i, o0) \<Rightarrow> i < length pt \<and> o0 = length (content (take i pt)))"

definition page_stale :: "Page \<Rightarrow> bool" where
  "page_stale p \<longleftrightarrow> \<not> pg_read_only p \<and> \<not> pg_valid_pos p \<and> \<not> pg_valid_char p \<and> \<not> pg_valid_colors p"

definition pages_from :: "Page list \<Rightarrow> Page list \<Rightarrow> bool" where
  "pages_from pt pt' \<longleftrightarrow> list_all (\<lambda>p. p \<in> set pt \<or> page_stale p) pt'"

lemma content_Nil [simp]: "content [] = []"
  by (simp add: content_def)

lemma content_Cons [simp]: "content (p # ps) = data p @ content ps"
  by (simp add: content_def)

lemma content_append [simp]: "content (ps @ qs) = content ps @ content qs"
  by (simp add: content_def)

lemma content_split: "content (take i pt) @ content (drop i pt) = content pt"
  by (metis append_take_drop_id content_append)

lemma update_page_data [simp]: "data (update_page p) = data p"
  by (simp add: update_page_def)

lemma page_stale_intros [simp]:
  "page_stale (update_page p)" "page_stale (new_page bs)"
  "page_stale ((update_page p)\<lparr>data := bs\<rparr>)"
  by (simp_all add: page_stale_def update_page_def new_page_def)

lemma new_page_data [simp]: "data (new_page bs) = bs"
  by (simp add: new_page_def)

lemma pages_ok_simps [simp]:
  "pages_ok []"
  "pages_ok (p # ps) \<longleftrightarrow> 0 < psize p \<and> psize p \<le> MAX_PAGE_SIZE \<and> pages_ok ps"
  "pages_ok (ps @ qs) \<longleftrightarrow> pages_ok ps \<and> pages_ok qs"
  by (auto simp: pages_ok_def)

lemma pages_ok_take_drop [intro]: "pages_ok pt \<Longrightarrow> pages_ok (take n pt)" "pages_ok pt \<Longrightarrow> pages_ok (drop n pt)"
  by (auto simp: pages_ok_def list_all_iff dest: in_set_takeD in_set_dropD)

lemma pages_ok_nth: "pages_ok pt \<Longrightarrow> i < length pt \<Longrightarrow> 0 < psize (pt ! i) \<and> psize (pt ! i) \<le> MAX_PAGE_SIZE"
  by (simp add: pages_ok_def list_all_length)

lemma pages_from_simps [simp]:
  "pages_from pt []"
  "pages_from pt (p # ps) \<longleftrightarrow> (p \<in> set pt \<or> page_stale p) \<and> pages_from pt ps"
  "pages_from pt (ps @ qs) \<longleftrightarrow> pages_from pt ps \<and> pages_from pt qs"
  by (auto simp: pages_from_def)

lemma pages_from_take_drop [simp]: "pages_from pt (take n pt)" "pages_from pt (drop n pt)" "pages_from pt pt"
  by (auto simp: pages_from_def list_all_iff dest: in_set_takeD in_set_dropD)

lemma pages_from_trans: "pages_from pt pt' \<Longrightarrow> pages_from pt' pt'' \<Longrightarrow> pages_from pt pt''"
  by (auto simp: pages_from_def list_all_iff)

lemma pages_from_take: "pages_from pt ps \<Longrightarrow> pages_from pt (take n ps)"
  and pages_from_drop: "pages_from pt ps \<Longrightarrow> pages_from pt (drop n ps)"
  by (auto simp: pages_from_def list_all_iff dest: in_set_takeD in_set_dropD)

lemma pages_from_update:
  "pages_from pt ps \<Longrightarrow> page_stale p \<Longrightarrow> pages_from pt (ps[i := p])"
  by (auto simp: pages_from_def list_all_iff dest: set_update_subset_insert [THEN subsetD])

lemma content_update:
  "i < length pt \<Longrightarrow> content (pt[i := p]) = content (take i pt) @ data p @ content (drop (Suc i) pt)"
  by (simp add: upd_conv_take_nth_drop)

lemma pages_ok_update:
  "pages_ok pt \<Longrightarrow> 0 < psize p \<Longrightarrow> psize p \<le> MAX_PAGE_SIZE \<Longrightarrow> pages_ok (pt[i := p])"
  by (cases "i < length pt") (auto simp: upd_conv_take_nth_drop list_update_beyond)

lemma content_nth_drop:
  "i < length pt \<Longrightarrow> content (drop i pt) = data (pt ! i) @ content (drop (Suc i) pt)"
  by (simp flip: Cons_nth_drop_Suc)

lemma content_take_Suc:
  "i < length pt \<Longrightarrow> content (take (Suc i) pt) = content (take i pt) @ data (pt ! i)"
  by (simp add: take_Suc_conv_app_nth)

lemma length_content_take_le: "length (content (take i pt)) \<le> length (content pt)"
  by (metis content_split length_append le_add1)

section \<open>find_page\<close>

lemma find_page_from_correct:
  assumes "off < length (content ps)"
  shows "\<exists>i po. find_page_from ps i0 off = (i0 + i, po) \<and> i < length ps \<and> po < psize (ps ! i) \<and>
     off = length (content (take i ps)) + po"
  using assms
proof (induction ps i0 off rule: find_page_from.induct)
  case (1 i page_offset)
  then show ?case by simp
next
  case (2 p ps i off)
  show ?case
  proof (cases "psize p \<le> off")
    case True
    with 2 obtain j po where
      "find_page_from ps (Suc i) (off - psize p) = (Suc i + j, po)" "j < length ps" "po < psize (ps ! j)"
      "off - psize p = length (content (take j ps)) + po"
      by fastforce
    with True show ?thesis
      by (intro exI [of _ "Suc j"] exI [of _ po]) auto
  next
    case False
    then show ?thesis by (intro exI [of _ 0] exI [of _ off]) auto
  qed
qed

lemma find_page_correct:
  assumes "cache_ok pt cache" "off < length (content pt)"
  shows "\<exists>i po cache'. find_page pt cache off = ((i, po), cache') \<and> i < length pt \<and> po < psize (pt ! i) \<and>
     off = length (content (take i pt)) + po \<and> cache_ok pt cache'"
proof -
  have from_start: "\<exists>i po. find_page_from (drop i0 pt) i0 (off - length (content (take i0 pt))) = (i, po) \<and>
     i < length pt \<and> po < psize (pt ! i) \<and> off = length (content (take i pt)) + po"
    if "i0 < length pt" "length (content (take i0 pt)) \<le> off" for i0
  proof -
    have "off - length (content (take i0 pt)) < length (content (drop i0 pt))"
      using assms(2) that content_split [of i0 pt] by (metis add_less_imp_less_left le_add_diff_inverse length_append)
    from find_page_from_correct [OF this, of i0] obtain i po where
      "find_page_from (drop i0 pt) i0 (off - length (content (take i0 pt))) = (i0 + i, po)"
      "i < length (drop i0 pt)" "po < psize (drop i0 pt ! i)"
      "off - length (content (take i0 pt)) = length (content (take i (drop i0 pt))) + po"
      by blast
    with that show ?thesis
      by (intro exI [of _ "i0 + i"] exI [of _ po]) (auto simp: take_add)
  qed
  have nonempty: "0 < length pt" using assms(2) by auto
  show ?thesis
  proof (cases cache)
    case None
    with from_start [of 0] nonempty show ?thesis
      by (auto simp: find_page_def cache_ok_def)
  next
    case (Some c)
    obtain ci co where c: "c = (ci, co)" by (cases c)
    with Some assms(1) have ci: "ci < length pt" "co = length (content (take ci pt))"
      by (auto simp: cache_ok_def)
    show ?thesis
    proof (cases "co \<le> off")
      case True
      with ci from_start [of ci] obtain i po where
        "find_page_from (drop ci pt) ci (off - co) = (i, po)" "i < length pt" "po < psize (pt ! i)"
        "off = length (content (take i pt)) + po" by blast
      with True Some c ci show ?thesis
        by (auto simp: find_page_def cache_ok_def)
    next
      case False
      with from_start [of 0] nonempty Some c show ?thesis
        by (auto simp: find_page_def cache_ok_def)
    qed
  qed
qed

section \<open>Reading and writing pages\<close>

lemma read_pages_fit:
  "n \<le> psize p - off \<Longrightarrow> read_pages (p # ps) off n = take n (drop off (data p))"
  by (simp add: Let_def min_absorb2)

lemma read_pages_spill:
  "psize p - off < n \<Longrightarrow>
   read_pages (p # ps) off n = drop off (data p) @ read_pages ps 0 (n - (psize p - off))"
  by (simp add: Let_def min_absorb1)

lemma read_pages_correct:
  "off \<le> (case ps of [] \<Rightarrow> 0 | p # _ \<Rightarrow> psize p) \<Longrightarrow> off + n \<le> length (content ps) \<Longrightarrow>
   read_pages ps off n = take n (drop off (content ps))"
proof (induction ps arbitrary: off n)
  case (Cons p ps)
  show ?case
  proof (cases "n \<le> psize p - off")
    case True
    with Cons.prems show ?thesis by (simp add: read_pages_fit del: read_pages.simps)
  next
    case False
    have "read_pages ps 0 (n - (psize p - off)) = take (n - (psize p - off)) (content ps)"
      using Cons.IH [of 0 "n - (psize p - off)"] Cons.prems by (simp split: list.splits)
    with False Cons.prems show ?thesis by (simp add: read_pages_spill del: read_pages.simps)
  qed
qed simp

lemma write_pages_fit:
  "length buf \<le> psize p - off \<Longrightarrow>
   write_pages (p # ps) off buf =
     (update_page p)\<lparr>data := splice_at off (length buf) buf (data p)\<rparr> # ps"
  by (simp add: Let_def min_absorb2)

lemma write_pages_spill:
  "psize p - off < length buf \<Longrightarrow>
   write_pages (p # ps) off buf =
     (update_page p)\<lparr>data := splice_at off (psize p - off) (take (psize p - off) buf) (data p)\<rparr>
       # write_pages ps 0 (drop (psize p - off) buf)"
  by (simp add: Let_def min_absorb1)

lemma write_pages_correct:
  assumes "off \<le> (case ps of [] \<Rightarrow> 0 | p # _ \<Rightarrow> psize p)" "off + length buf \<le> length (content ps)"
  shows "content (write_pages ps off buf) = splice_at off (length buf) buf (content ps)
     \<and> map psize (write_pages ps off buf) = map psize ps"
  using assms
proof (induction ps arbitrary: off buf)
  case Nil
  then show ?case by (simp add: splice_at_def)
next
  case (Cons p ps)
  then have off: "off \<le> psize p" by simp
  show ?case
  proof (cases "length buf \<le> psize p - off")
    case True
    with off show ?thesis by (simp add: write_pages_fit splice_at_def del: write_pages.simps)
  next
    case False
    define m where "m = psize p - off"
    have m: "off + m = psize p" "m < length buf"
      using False off by (simp_all add: m_def)
    have "length buf - m \<le> length (content ps)"
      using Cons.prems m by simp
    then have IH: "content (write_pages ps 0 (drop m buf)) = splice_at 0 (length buf - m) (drop m buf) (content ps)"
      "map psize (write_pages ps 0 (drop m buf)) = map psize ps"
      using Cons.IH [of 0 "drop m buf"] by (simp_all split: list.splits)
    have "write_pages (p # ps) off buf =
        (update_page p)\<lparr>data := splice_at off m (take m buf) (data p)\<rparr> # write_pages ps 0 (drop m buf)"
      using False write_pages_spill by (simp add: m_def del: write_pages.simps)
    moreover have "off + length buf - psize p = length buf - m"
      using m by simp
    ultimately show ?thesis
      using IH m by (simp add: splice_at_def)
  qed
qed

lemma pages_ok_psize_list: "pages_ok ps \<longleftrightarrow> list_all (\<lambda>n. 0 < n \<and> n \<le> MAX_PAGE_SIZE) (map psize ps)"
  by (induction ps) auto

lemma pages_ok_psizes: "map psize ps = map psize qs \<Longrightarrow> pages_ok ps = pages_ok qs"
  unfolding pages_ok_psize_list by simp

lemma write_pages_from: "pages_from ps (write_pages ps off buf)"
proof (induction ps off buf rule: write_pages.induct)
  case (2 p ps off buf)
  have mono: "pages_from ps qs \<Longrightarrow> pages_from (p # ps) qs" for qs
    by (auto simp: pages_from_def list_all_iff)
  show ?case
    using 2 mono by (auto simp: Let_def)
qed simp


section \<open>Inserting\<close>

declare fresh_pages.simps [simp del]
declare insert_retry.simps [simp del]
declare delete_pages.simps [simp del]

lemma fresh_pages_correct:
  "content (fresh_pages buf) = buf \<and> pages_ok (fresh_pages buf) \<and> pages_from pt (fresh_pages buf)"
proof (induction buf rule: fresh_pages.induct)
  case (1 buf)
  show ?case
  proof (cases "buf = []")
    case True
    then show ?thesis by (simp add: fresh_pages.simps)
  next
    case False
    have "MAX_PAGE_SIZE > 0" by (simp add: MAX_PAGE_SIZE_def)
    with False 1 show ?thesis by (simp add: fresh_pages.simps [of buf])
  qed
qed

lemma eb_insert1_correct:
  assumes "i \<le> length pt" "pages_ok pt"
  shows "content (eb_insert1 pt i buf) = content (take i pt) @ buf @ content (drop i pt)"
    and "pages_ok (eb_insert1 pt i buf)"
    and "pages_from pt (eb_insert1 pt i buf)"
    and "take i (eb_insert1 pt i buf) = take i pt"
    and "length pt \<le> length (eb_insert1 pt i buf)"
proof -
  note fp = fresh_pages_correct
  show "content (eb_insert1 pt i buf) = content (take i pt) @ buf @ content (drop i pt)"
    "pages_ok (eb_insert1 pt i buf)" "pages_from pt (eb_insert1 pt i buf)"
    "take i (eb_insert1 pt i buf) = take i pt"
    "length pt \<le> length (eb_insert1 pt i buf)"
    using assms pages_ok_nth [OF assms(2), of i]
    by (auto simp: eb_insert1_def Let_def fp content_nth_drop drop_update_cancel
          list_update_beyond pages_from_update pages_from_drop min_def
        intro!: pages_ok_take_drop pages_ok_update)
qed


definition at_pos :: "Page list \<Rightarrow> nat \<Rightarrow> nat \<Rightarrow> nat \<Rightarrow> bool" where
  "at_pos pt i offset k \<longleftrightarrow>
     i < length pt \<and> offset \<le> psize (pt ! i) \<and> length (content (take i pt)) + offset = k"

definition same_text :: "Page list \<Rightarrow> Page list \<Rightarrow> bool" where
  "same_text pt pt' \<longleftrightarrow> content pt' = content pt \<and> pages_ok pt' \<and> pages_from pt pt'"

lemma same_text_trans: "same_text pt pt' \<Longrightarrow> same_text pt' pt'' \<Longrightarrow> same_text pt pt''"
  by (auto simp: same_text_def intro: pages_from_trans)

lemma split_pages:
  assumes "0 < i" "i < length pt"
  obtains A q p B where "pt = A @ q # p # B" "length A = i - 1" "pt ! (i - 1) = q" "pt ! i = p"
proof -
  have "pt = take (i - 1) pt @ pt ! (i - 1) # drop i pt"
    using assms id_take_nth_drop [of "i - 1" pt] by simp
  also have "drop i pt = pt ! i # drop (Suc i) pt"
    using assms by (simp add: Cons_nth_drop_Suc)
  finally show thesis
    using assms by (intro that [of "take (i - 1) pt" "pt ! (i - 1)" "pt ! i" "drop (Suc i) pt"]) auto
qed

lemma retry_merge:
  assumes "pt = A @ q # p # B" "chunk \<le> offset" "psize p \<le> chunk" "offset \<le> psize p"
    "psize q + chunk \<le> MAX_PAGE_SIZE" "pages_ok pt"
    "length A + 1 = i" "length (content (take i pt)) + offset = k"
    "q' = (update_page q)\<lparr>data := data q @ take chunk (data p)\<rparr>"
  shows "same_text pt (A @ q' # B)" "at_pos (A @ q' # B) (i - 1) (psize q') k"
  using assms by (auto simp: same_text_def at_pos_def take_Cons' pages_from_def list_all_iff)

lemma retry_shift:
  assumes "pt = A @ q # p # B" "chunk \<le> offset" "chunk < psize p" "offset \<le> psize p"
    "psize q + chunk \<le> MAX_PAGE_SIZE" "pages_ok pt"
    "length A + 1 = i" "length (content (take i pt)) + offset = k"
    "q' = (update_page q)\<lparr>data := data q @ take chunk (data p)\<rparr>"
    "p' = (update_page p)\<lparr>data := drop chunk (data p)\<rparr>"
  shows "same_text pt (A @ q' # p' # B)" "at_pos (A @ q' # p' # B) i (offset - chunk) k"
    "offset = chunk \<Longrightarrow> at_pos (A @ q' # p' # B) (i - 1) (psize q') k"
  using assms by (auto simp: same_text_def at_pos_def take_Cons' pages_from_def list_all_iff nth_append)

lemma insert_retry_correct:
  assumes "at_pos pt i offset k" "pages_ok pt"
    "insert_retry pt i offset sz = (pt', i', offset')"
  shows "same_text pt pt' \<and> at_pos pt' i' offset' k"
  using assms
proof (induction pt i offset sz rule: insert_retry.induct)
  case (1 pt i offset sz)
  show ?case
  proof (cases "shift_needed pt i offset sz")
    case False
    with 1 show ?thesis
      by (simp add: insert_retry.simps same_text_def)
  next
    case True
    then have i: "0 < i" "i < length pt" and room: "psize (pt ! (i - 1)) < MAX_PAGE_SIZE"
      by (auto simp: shift_needed_def)
    obtain A q p B where pt: "pt = A @ q # p # B" "length A = i - 1" "pt ! (i - 1) = q" "pt ! i = p"
      using split_pages [OF i] by metis
    define chunk where "chunk = min (MAX_PAGE_SIZE - psize q) offset"
    define q' where "q' = (update_page q)\<lparr>data := data q @ take chunk (data p)\<rparr>"
    define p' where "p' = (update_page p)\<lparr>data := drop chunk (data p)\<rparr>"
    have off: "offset \<le> psize p" "length (content (take i pt)) + offset = k"
      using "1.prems"(1) pt(4) by (auto simp: at_pos_def)
    have chunk: "chunk \<le> offset" "psize q + chunk \<le> MAX_PAGE_SIZE" "length A + 1 = i"
      using room pt i by (auto simp: chunk_def)
    have upd: "pt[i - 1 := q', i := p'] = A @ q' # p' # B"
      using pt(1,2) i by (auto simp: list_update_append)
    have del: "take (i - 1) pt @ q' # drop (Suc i) pt = A @ q' # B"
      using pt(1,2) i by (simp add: Suc_diff_le)
    note unf = insert_retry.simps [of pt i offset sz]
    have eq: "insert_retry pt i offset sz =
       (if psize p - chunk = 0 then insert_retry (A @ q' # B) (i - 1) (psize q') sz
        else if offset - chunk = 0 \<and> psize q' < MAX_PAGE_SIZE
          then insert_retry (A @ q' # p' # B) (i - 1) (psize q') sz
          else insert_retry (A @ q' # p' # B) i (offset - chunk) sz)"
      unfolding unf Let_def pt(3,4) update_page_data if_P [OF True]
      by (simp only: upd del flip: chunk_def q'_def p'_def)
    note IH = "1.IH" [OF True refl refl refl refl, unfolded pt(3,4) update_page_data,
        folded chunk_def, folded q'_def p'_def, unfolded upd del]
    have ok: "same_text pt pt1 \<Longrightarrow> pages_ok pt1" for pt1
      by (simp add: same_text_def)
    consider (merge) "psize p - chunk = 0"
      | (prev) "psize p - chunk \<noteq> 0" "offset - chunk = 0 \<and> psize q' < MAX_PAGE_SIZE"
      | (here) "psize p - chunk \<noteq> 0" "\<not> (offset - chunk = 0 \<and> psize q' < MAX_PAGE_SIZE)"
      by blast
    then show ?thesis
    proof cases
      case merge
      note m = retry_merge [OF pt(1) chunk(1) _ off(1) chunk(2) "1.prems"(2) chunk(3) off(2) q'_def]
      have "same_text (A @ q' # B) pt' \<and> at_pos pt' i' offset' k"
        using IH(1) merge "1.prems"(3) eq m ok by (simp del: pages_ok_simps)
      with m merge show ?thesis by (auto intro: same_text_trans)
    next
      case prev
      note m = retry_shift [OF pt(1) chunk(1) _ off(1) chunk(2) "1.prems"(2) chunk(3) off(2) q'_def p'_def]
      have "same_text (A @ q' # p' # B) pt' \<and> at_pos pt' i' offset' k"
        using IH(2) [OF _ refl refl] prev "1.prems"(3) eq m ok chunk(1) by (simp del: pages_ok_simps)
      with m prev show ?thesis by (auto intro: same_text_trans)
    next
      case here
      note m = retry_shift [OF pt(1) chunk(1) _ off(1) chunk(2) "1.prems"(2) chunk(3) off(2) q'_def p'_def]
      from here have "insert_retry pt i offset sz = insert_retry (A @ q' # p' # B) i (offset - chunk) sz"
        unfolding eq by (simp only: if_False)
      then have "same_text (A @ q' # p' # B) pt' \<and> at_pos pt' i' offset' k"
        using IH(3) [OF _ refl refl] here "1.prems"(3) m ok by (simp del: pages_ok_simps)
      with m here show ?thesis by (auto intro: same_text_trans)
    qed
  qed
qed


lemma insert1_after:
  assumes "pages_ok (A @ p # B)"
  obtains B1 where "eb_insert1 (A @ p # B) (Suc (length A)) bs = A @ p # B1"
    "content B1 = bs @ content B" "pages_ok B1" "pages_from (A @ p # B) B1"
proof -
  let ?r = "eb_insert1 (A @ p # B) (Suc (length A)) bs"
  note c = eb_insert1_correct [OF _ assms, of "Suc (length A)" bs]
  have tk: "take (Suc (length A)) ?r = A @ [p]"
    using c(4) by simp
  have "?r = A @ p # drop (Suc (length A)) ?r"
    using append_take_drop_id [of "Suc (length A)" ?r] tk by simp
  then obtain B1 where r: "?r = A @ p # B1" by blast
  then show thesis
    using that [OF r] c by simp
qed

lemma insert_at_correct:
  assumes "at_pos pt i offset k" "pages_ok pt"
  shows "content (insert_at pt i offset buf) = splice_at k 0 buf (content pt)"
    and "pages_ok (insert_at pt i offset buf)"
    and "pages_from pt (insert_at pt i offset buf)"
proof -
  define p where "p = pt ! i"
  have i: "i < length pt" and off: "offset \<le> psize p"
    using assms(1) by (auto simp: at_pos_def p_def)
  define A B where "A = take i pt" and "B = drop (Suc i) pt"
  have pt: "pt = A @ p # B" and A: "length A = i"
    using i id_take_nth_drop [OF i] by (auto simp: A_def B_def p_def)
  have k: "k = length (content A) + offset"
    using assms(1) by (simp add: at_pos_def A_def)
  have p: "0 < psize p" "psize p \<le> MAX_PAGE_SIZE" "pages_ok A" "pages_ok B"
    using assms(2) pt by auto
  define len where "len = min (MAX_PAGE_SIZE - offset) (length buf)"
  define len_out where "len_out = psize p + len - MAX_PAGE_SIZE"
  define out where "out = drop (psize p - len_out) (data p)"
  define p' where "p' = (if len > 0 then (update_page p)\<lparr>data :=
      take offset (data p) @ take len buf @
      take (psize p + len - len_out - (offset + len)) (drop offset (data p))\<rparr> else p)"
  define pt1 where "pt1 = (if len_out > 0 then eb_insert1 pt (Suc i) out else pt)"
  obtain B1 where B1: "pt1 = A @ p # B1" "content B1 = out @ content B" "pages_ok B1" "pages_from pt B1"
  proof (cases "len_out > 0")
    case True
    with insert1_after [of A p B out] assms(2) pt A that show thesis
      by (auto simp: pt1_def)
  next
    case False
    with pt p that [of B] show thesis
      by (auto simp: pt1_def out_def pages_from_def list_all_iff)
  qed
  define pt2 where "pt2 = A @ p' # B1"
  have length_pt2: "i < length pt2"
    using A by (simp add: pt2_def)
  have p'_size: "0 < psize p'" "psize p' \<le> MAX_PAGE_SIZE"
    using p off by (auto simp: p'_def len_def len_out_def)
  have pt2: "pages_ok pt2" "pages_from pt pt2" "content pt2 = content A @ data p' @ out @ content B"
    using p'_size p B1 pt by (auto simp: pt2_def p'_def pages_from_def list_all_iff)
  have res: "insert_at pt i offset buf =
      (if length buf - len > 0 then eb_insert1 pt2 (Suc i) (drop len buf) else pt2)"
    unfolding insert_at_def Let_def p_def [symmetric] len_def [symmetric] len_out_def [symmetric]
      out_def [symmetric] pt1_def [symmetric] B1(1)
    using A by (simp add: pt2_def p'_def list_update_append)
  have text_p': "data p' @ drop len buf @ out = take offset (data p) @ buf @ drop offset (data p)"
  proof -
    define m where "m = psize p - len_out - offset"
    have m: "offset + m = psize p - len_out"
      using off p by (auto simp: m_def len_out_def len_def)
    have rest: "drop len buf = [] \<or> m = 0"
      using p off by (auto simp: m_def len_out_def len_def)
    have p'_data: "data p' = take offset (data p) @ take len buf @ take m (drop offset (data p))"
      using off p m by (auto simp: p'_def m_def len_def len_out_def)
    have "take m (drop offset (data p)) @ out = drop offset (data p)"
      using take_drop_split [of m offset "data p"] by (simp add: out_def m)
    with rest show ?thesis
      by (auto simp: p'_data)
  qed
  show "content (insert_at pt i offset buf) = splice_at k 0 buf (content pt)"
  proof -
    have "content (insert_at pt i offset buf) = content A @ (data p' @ drop len buf @ out) @ content B"
      using eb_insert1_correct(1) [of "Suc i" pt2] pt2 A
      by (simp add: res) (simp add: pt2_def B1)
    then show ?thesis
      using off by (simp add: text_p' splice_at_def k pt)
  qed
  show "pages_ok (insert_at pt i offset buf)" "pages_from pt (insert_at pt i offset buf)"
    using pt2 eb_insert1_correct(2,3) [of "Suc i" pt2 "drop len buf"] length_pt2
    by (auto simp: res intro: pages_from_trans)
qed


lemma eb_insert_lowlevel_correct:
  assumes "pages_ok pt" "cache_ok pt cache" "k \<le> length (content pt)"
  shows "content (eb_insert_lowlevel pt cache k buf) = splice_at k 0 buf (content pt)"
    and "pages_ok (eb_insert_lowlevel pt cache k buf)"
    and "pages_from pt (eb_insert_lowlevel pt cache k buf)"
proof -
  have "content (eb_insert_lowlevel pt cache k buf) = splice_at k 0 buf (content pt) \<and>
    pages_ok (eb_insert_lowlevel pt cache k buf) \<and> pages_from pt (eb_insert_lowlevel pt cache k buf)"
  proof (cases "k > 0")
    case True
    with assms(3) have "k - 1 < length (content pt)" by simp
    from find_page_correct [OF assms(2) this] obtain i0 o0 c where
      f: "find_page pt cache (k - 1) = ((i0, o0), c)" "i0 < length pt" "o0 < psize (pt ! i0)"
        "k - 1 = length (content (take i0 pt)) + o0"
      by blast
    obtain pt' i off where r: "insert_retry pt i0 (Suc o0) (length buf) = (pt', i, off)"
      by (metis prod_cases3)
    have "at_pos pt i0 (Suc o0) k"
      using f True by (simp add: at_pos_def)
    from insert_retry_correct [OF this assms(1) r]
    have st: "same_text pt pt'" "at_pos pt' i off k" by auto
    have eq: "eb_insert_lowlevel pt cache k buf = insert_at pt' i off buf"
      using True f(1) r by (simp add: eb_insert_lowlevel_def)
    show ?thesis
      using insert_at_correct [OF st(2)] st(1)
      by (auto simp: eq same_text_def intro: pages_from_trans)
  next
    case False
    then show ?thesis
      using eb_insert1_correct [OF _ assms(1), of 0 buf] assms(1)
      by (auto simp: eb_insert_lowlevel_def splice_at_def)
  qed
  then show "content (eb_insert_lowlevel pt cache k buf) = splice_at k 0 buf (content pt)"
    "pages_ok (eb_insert_lowlevel pt cache k buf)" "pages_from pt (eb_insert_lowlevel pt cache k buf)"
    by auto
qed

section \<open>Deleting\<close>

lemma delete_pages_skip:
  "delete_pages ps i offset 0 ds n = (ps, ds, n)"
  by (cases ps) (auto simp: delete_pages.simps)

lemma delete_pages_part:
  assumes "0 < sz" "offset + sz \<le> psize p" "sz \<noteq> psize p"
  shows "delete_pages (p # ps) i offset sz ds n =
     ((update_page p)\<lparr>data := splice_at offset sz [] (data p)\<rparr> # ps, ds, n)"
proof -
  have "min (psize p - offset) sz = sz" using assms by simp
  with assms show ?thesis
    by (simp add: delete_pages.simps(2) [of p] Let_def delete_pages_skip)
qed

lemma delete_pages_tail:
  assumes "0 < offset" "offset < psize p" "psize p - offset \<le> sz"
    "delete_pages ps (Suc i) 0 (sz - (psize p - offset)) ds n = (qs, ds', n')"
  shows "delete_pages (p # ps) i offset sz ds n =
     ((update_page p)\<lparr>data := take offset (data p)\<rparr> # qs, ds', n')"
proof -
  have "min (psize p - offset) sz = psize p - offset" "sz \<noteq> 0" "psize p - offset \<noteq> psize p"
    using assms by auto
  with assms show ?thesis
    by (simp add: delete_pages.simps(2) [of p] Let_def splice_at_def)
qed

lemma delete_pages_full:
  assumes "0 < psize p" "psize p \<le> sz"
    "delete_pages ps (Suc i) 0 (sz - psize p) (Some (case ds of None \<Rightarrow> i | Some d \<Rightarrow> d)) (Suc n) = (qs, ds', n')"
  shows "delete_pages (p # ps) i 0 sz ds n = (p # qs, ds', n')"
proof -
  have "0 < sz" using assms(1,2) by linarith
  with assms show ?thesis
    by (cases ds) (simp_all add: delete_pages.simps(2) [of p] Let_def)
qed

lemma delete_pages_counted:
  assumes "sz \<le> length (content ps)" "pages_ok ps"
    "delete_pages ps i 0 sz (Some d) n = (ps', ds', n')"
  shows "ds' = Some d \<and> n \<le> n' \<and> content (drop (n' - n) ps') = drop sz (content ps)
     \<and> pages_ok (drop (n' - n) ps') \<and> pages_from ps ps'"
  using assms
proof (induction ps arbitrary: i sz n ps' ds' n')
  case Nil
  then show ?case by (simp add: delete_pages.simps)
next
  case (Cons p ps)
  have mono: "pages_from ps qs \<Longrightarrow> pages_from (p # ps) qs" for qs
    by (auto simp: pages_from_def list_all_iff)
  consider (none) "sz = 0" | (part) "0 < sz" "sz < psize p" | (full) "psize p \<le> sz" by linarith
  then show ?case
  proof cases
    case none
    with Cons.prems show ?thesis by (auto simp: delete_pages_skip mono)
  next
    case part
    with Cons.prems show ?thesis
      by (auto simp: delete_pages_part splice_at_def mono)
  next
    case full
    obtain qs ds2 n2 where r: "delete_pages ps (Suc i) 0 (sz - psize p) (Some d) (Suc n) = (qs, ds2, n2)"
      by (metis prod_cases3)
    from delete_pages_full [of p sz ps i "Some d" n] full Cons.prems r
    have res: "ps' = p # qs" "ds' = ds2" "n' = n2" by auto
    have "sz - psize p \<le> length (content ps)"
      using Cons.prems(1) full by simp
    from Cons.IH [OF this _ r] Cons.prems full res mono show ?thesis
      by (auto simp: Suc_diff_le drop_Cons')
  qed
qed

lemma delete_pages_suffix:
  assumes "sz \<le> length (content ps)" "pages_ok ps"
    "delete_pages ps i 0 sz None 0 = (ps', ds, n)"
  shows "ds = None \<and> content ps' = drop sz (content ps) \<and> pages_ok ps' \<and> pages_from ps ps'
    \<or> ds = Some i \<and> content (drop n ps') = drop sz (content ps) \<and> pages_ok (drop n ps') \<and> pages_from ps ps'"
proof (cases ps)
  case Nil
  with assms show ?thesis by (auto simp: delete_pages.simps)
next
  case (Cons p qs)
  have mono: "pages_from qs rs \<Longrightarrow> pages_from (p # qs) rs" for rs
    by (auto simp: pages_from_def list_all_iff)
  consider (none) "sz = 0" | (part) "0 < sz" "sz < psize p" | (full) "psize p \<le> sz" by linarith
  then show ?thesis
  proof cases
    case none
    with assms show ?thesis by (auto simp: delete_pages_skip)
  next
    case part
    with assms Cons show ?thesis
      by (auto simp: delete_pages_part splice_at_def mono)
  next
    case full
    obtain rs ds2 n2 where r: "delete_pages qs (Suc i) 0 (sz - psize p) (Some i) (Suc 0) = (rs, ds2, n2)"
      by (metis prod_cases3)
    from delete_pages_full [of p sz qs i None 0] full assms Cons r
    have res: "ps' = p # rs" "ds = ds2" "n = n2" by auto
    have "sz - psize p \<le> length (content qs)"
      using assms(1) Cons full by simp
    from delete_pages_counted [OF this _ r] assms Cons full res mono show ?thesis
      by (auto simp: drop_Cons')
  qed
qed

lemma delete_range_pages_correct:
  assumes "pages_ok pt" "i < length pt" "po < psize (pt ! i)" "k = length (content (take i pt)) + po"
    "0 < sz" "k + sz \<le> length (content pt)"
  shows "content (delete_range_pages pt i po sz) = splice_at k sz [] (content pt)"
    and "pages_ok (delete_range_pages pt i po sz)"
    and "pages_from pt (delete_range_pages pt i po sz)"
proof -
  define p A B where "p = pt ! i" and "A = take i pt" and "B = drop (Suc i) pt"
  have pt: "pt = A @ p # B" and A: "length A = i" and dr: "drop i pt = p # B"
    using assms(2) id_take_nth_drop [OF assms(2)] by (auto simp: A_def B_def p_def Cons_nth_drop_Suc)
  have k: "k = length (content A) + po" and po: "po < psize p"
    using assms(3,4) by (simp_all add: A_def p_def)
  have ok: "pages_ok A" "pages_ok B" "psize p \<le> MAX_PAGE_SIZE"
    using assms(1) pt by auto
  have sz: "po + sz \<le> psize p + length (content B)"
    using assms(6) k pt by simp
  have fromB: "pages_from B rs \<Longrightarrow> pages_from pt rs" "pages_from (p # B) rs \<Longrightarrow> pages_from pt rs" for rs
    by (auto simp: pt pages_from_def list_all_iff)
  have fromA: "pages_from pt A" "p \<in> set pt"
    by (auto simp: pt pages_from_def list_all_iff)
  let ?R = "delete_range_pages pt i po sz"
  have "content ?R = content A @ splice_at po sz [] (data p @ content B) \<and> pages_ok ?R \<and> pages_from pt ?R"
  proof (cases "po = 0")
    case True
    obtain ps' ds n where r: "delete_pages (p # B) i 0 sz None 0 = (ps', ds, n)"
      by (metis prod_cases3)
    from delete_pages_suffix [OF _ _ r] sz True ok assms(1) pt show ?thesis
      using fromA fromB(2) pages_from_drop [of pt ps' n] r A
      by (auto simp: delete_range_pages_def dr splice_at_def simp flip: A_def)
  next
    case False
    then show ?thesis
    proof (cases "po + sz \<le> psize p")
      case True
      with delete_pages_part [of sz po p B i None 0] assms(5) False ok po fromA show ?thesis
        by (auto simp: delete_range_pages_def dr splice_at_def fromB simp flip: A_def)
    next
      case more: False
      obtain ps' ds n where r: "delete_pages B (Suc i) 0 (sz - (psize p - po)) None 0 = (ps', ds, n)"
        by (metis prod_cases3)
      have rp: "delete_pages (p # B) i po sz None 0 =
          ((update_page p)\<lparr>data := take po (data p)\<rparr> # ps', ds, n)"
        using delete_pages_tail [OF _ po _ r] False more by simp
      have "sz - (psize p - po) \<le> length (content B)"
        using sz by simp
      from delete_pages_suffix [OF this ok(2) r] show ?thesis
        using fromA fromB(1) pages_from_drop [of pt ps' n] rp A ok po False more
        by (auto simp: delete_range_pages_def dr splice_at_def Let_def add.commute simp flip: A_def)
    qed
  qed
  then show "content ?R = splice_at k sz [] (content pt)" "pages_ok ?R" "pages_from pt ?R"
    by (auto simp: k pt splice_at_def)
qed

end
