(* ===== verification/Buffer.thy ===== *)
theory Buffer
  imports PageTable
begin

text \<open>
  Edit buffers (\<^verbatim>\<open>src/buffer.c\<close>, \<^verbatim>\<open>src/qe.h\<close>): the record of the fields the
  buffer layer keeps, the change callbacks, and the five primitive operations
  \<^verbatim>\<open>eb_read\<close>, \<^verbatim>\<open>eb_write\<close>, \<^verbatim>\<open>eb_insert\<close>, \<^verbatim>\<open>eb_delete\<close>,
  \<^verbatim>\<open>eb_insert_buffer\<close>.

  In C every mutation first calls \<^verbatim>\<open>eb_addlog\<close>, which in turn edits two other
  buffers, the log buffer and the style buffer, with the same primitives. Those two are
  created without \<^verbatim>\<open>BF_SAVELOG\<close> and have neither a log nor styles of their own, so
  this recursion is one level deep. The model has two strata: a record
  \<open>EditBuffer0\<close> for a buffer without log and styles, and in theory \<open>UndoLog\<close> the
  record \<open>EditBuffer\<close> that extends it by the pointers \<^verbatim>\<open>log_buffer\<close> and
  \<^verbatim>\<open>b_styles\<close>. The primitives are written once, over both, with
  \<^verbatim>\<open>eb_addlog\<close> as their first argument.
\<close>

section \<open>Data\<close>

datatype LogOperation = LOGOP_FREE | LOGOP_WRITE | LOGOP_INSERT | LOGOP_DELETE

text \<open>
  A callback is a function with an opaque pointer and an argument. The pointers that the
  buffer layer registers are the address of the buffer's mark, the address of its point
  (\<^verbatim>\<open>b->offset\<close>), the null pointer, or the address of an \<^verbatim>\<open>int\<close> outside
  the buffer (a window's offset, a shell's cursor), numbered here.
\<close>

datatype callback_fn = OffsetCallback | StyleCallback | PlistCallback
datatype opaque_ptr = NullPtr | PtrMark | PtrOffset | PtrExt nat

record EditBufferCallbackList =
  cb_callback :: callback_fn
  cb_opaque :: opaque_ptr
  cb_arg :: int

record QEProperty =
  prop_offset :: int
  prop_type :: int
  prop_data :: string

text \<open>
  \<^verbatim>\<open>save_log\<close> is a two-bit mask in C; its bits 1 and 2 are the fields
  \<open>save_log\<close> and \<open>composite\<close>.
\<close>

record EditBuffer0 =
  page_table :: "Page list"
  total_size :: int
  cur_page :: page_cache
  flags :: "32 word"
  mark :: int
  point :: int
  ext_offsets :: "nat \<Rightarrow> int"
  modified :: bool
  save_log :: bool
  composite :: bool
  log_new_index :: int
  log_current :: int
  last_log :: LogOperation
  last_log_char :: int
  nb_logs :: int
  cur_style :: "64 word"
  style_shift :: nat
  style_bytes :: nat
  char_shift :: nat
  first_callback :: "EditBufferCallbackList list"
  property_list :: "QEProperty list"

definition BF_SAVELOG :: "32 word" where "BF_SAVELOG = 0x0001"
definition BF_SYSTEM :: "32 word" where "BF_SYSTEM = 0x0002"
definition BF_READONLY :: "32 word" where "BF_READONLY = 0x0004"
definition BF_UTF8 :: "32 word" where "BF_UTF8 = 0x0200"
definition BF_RAW :: "32 word" where "BF_RAW = 0x0400"
definition BF_STYLES :: "32 word" where "BF_STYLES = 0x7000"
definition BF_STYLE1 :: "32 word" where "BF_STYLE1 = 0x1000"
definition BF_IS_STYLE :: "32 word" where "BF_IS_STYLE = 0x8000"
definition BF_IS_LOG :: "32 word" where "BF_IS_LOG = 0x10000"

abbreviation readonly :: "'a EditBuffer0_scheme \<Rightarrow> bool" where
  "readonly b \<equiv> flags b AND BF_READONLY \<noteq> 0"

section \<open>Callbacks\<close>

definition eb_add_callback ::
  "'a EditBuffer0_scheme \<Rightarrow> callback_fn \<Rightarrow> opaque_ptr \<Rightarrow> int \<Rightarrow> 'a EditBuffer0_scheme" where
  "eb_add_callback b cb opaque arg =
     b\<lparr>first_callback := \<lparr>cb_callback = cb, cb_opaque = opaque, cb_arg = arg\<rparr> # first_callback b\<rparr>"

fun remove_callback ::
  "callback_fn \<Rightarrow> opaque_ptr \<Rightarrow> EditBufferCallbackList list \<Rightarrow> EditBufferCallbackList list" where
  "remove_callback cb opaque [] = []"
| "remove_callback cb opaque (l # ls) =
     (if cb_callback l = cb \<and> cb_opaque l = opaque then ls else l # remove_callback cb opaque ls)"

definition eb_free_callback ::
  "'a EditBuffer0_scheme \<Rightarrow> callback_fn \<Rightarrow> opaque_ptr \<Rightarrow> 'a EditBuffer0_scheme" where
  "eb_free_callback b cb opaque = b\<lparr>first_callback := remove_callback cb opaque (first_callback b)\<rparr>"

text \<open>The body of \<^verbatim>\<open>eb_offset_callback\<close>, on the integer its pointer designates.\<close>

definition eb_offset_callback :: "int \<Rightarrow> int \<Rightarrow> LogOperation \<Rightarrow> int \<Rightarrow> int \<Rightarrow> int" where
  "eb_offset_callback ptr edge op offset sz =
     (case op of
        LOGOP_INSERT \<Rightarrow>
          (let ptr1 = (if ptr > offset then ptr + sz else ptr)
           in if ptr1 = offset \<and> edge \<noteq> 0 then ptr1 + sz else ptr1)
      | LOGOP_DELETE \<Rightarrow>
          (if ptr > offset
           then let ptr1 = ptr - sz in if ptr1 < offset then offset else ptr1
           else ptr)
      | _ \<Rightarrow> ptr)"

fun update_offset ::
  "opaque_ptr \<Rightarrow> (int \<Rightarrow> int) \<Rightarrow> 'a EditBuffer0_scheme \<Rightarrow> 'a EditBuffer0_scheme" where
  "update_offset NullPtr f b = b"
| "update_offset PtrMark f b = b\<lparr>mark := f (mark b)\<rparr>"
| "update_offset PtrOffset f b = b\<lparr>point := f (point b)\<rparr>"
| "update_offset (PtrExt k) f b = b\<lparr>ext_offsets := (ext_offsets b)(k := f (ext_offsets b k))\<rparr>"

fun plist_delete :: "int \<Rightarrow> int \<Rightarrow> QEProperty list \<Rightarrow> QEProperty list" where
  "plist_delete offset sz [] = []"
| "plist_delete offset sz (p # ps) =
     (if prop_offset p \<ge> offset then
        (if prop_offset p < offset + sz then plist_delete offset sz ps
         else p\<lparr>prop_offset := prop_offset p - sz\<rparr> # plist_delete offset sz ps)
      else p # plist_delete offset sz ps)"

definition eb_plist_callback ::
  "QEProperty list \<Rightarrow> LogOperation \<Rightarrow> int \<Rightarrow> int \<Rightarrow> QEProperty list" where
  "eb_plist_callback ps op offset sz =
     (case op of
        LOGOP_INSERT \<Rightarrow>
          map (\<lambda>p. if prop_offset p \<ge> offset then p\<lparr>prop_offset := prop_offset p + sz\<rparr> else p) ps
      | LOGOP_DELETE \<Rightarrow> plist_delete offset sz ps
      | _ \<Rightarrow> ps)"

text \<open>
  One callback, and the loop of \<^verbatim>\<open>eb_addlog\<close> over the callback list. The body of
  \<^verbatim>\<open>eb_style_callback\<close> is an argument: it does nothing on a buffer without styles.
\<close>

type_synonym 'b change_fn = "'b \<Rightarrow> LogOperation \<Rightarrow> int \<Rightarrow> int \<Rightarrow> 'b"

fun call_callback ::
  "'a EditBuffer0_scheme change_fn \<Rightarrow> EditBufferCallbackList \<Rightarrow> 'a EditBuffer0_scheme change_fn" where
  "call_callback style_cb l b op offset sz =
     (case cb_callback l of
        OffsetCallback \<Rightarrow>
          update_offset (cb_opaque l) (\<lambda>p. eb_offset_callback p (cb_arg l) op offset sz) b
      | StyleCallback \<Rightarrow> style_cb b op offset sz
      | PlistCallback \<Rightarrow> b\<lparr>property_list := eb_plist_callback (property_list b) op offset sz\<rparr>)"

fun call_callbacks ::
  "'a EditBuffer0_scheme change_fn \<Rightarrow> EditBufferCallbackList list \<Rightarrow> 'a EditBuffer0_scheme change_fn" where
  "call_callbacks style_cb [] b op offset sz = b"
| "call_callbacks style_cb (l # ls) b op offset sz =
     call_callbacks style_cb ls (call_callback style_cb l b op offset sz) op offset sz"

section \<open>Primitive operations\<close>

definition eb_read_one_byte :: "'a EditBuffer0_scheme \<Rightarrow> int \<Rightarrow> int \<times> 'a EditBuffer0_scheme" where
  "eb_read_one_byte b offset =
     (if offset < 0 \<or> offset \<ge> total_size b then (-1, b)
      else let ((i, po), c) = find_page (page_table b) (cur_page b) (nat offset)
           in (uint (data (page_table b ! i) ! po), b\<lparr>cur_page := c\<rparr>))"

definition eb_read :: "'a EditBuffer0_scheme \<Rightarrow> int \<Rightarrow> int \<Rightarrow> byte list \<times> 'a EditBuffer0_scheme" where
  "eb_read b offset sz =
     (if offset < 0 \<or> sz \<le> 0 \<or> offset \<ge> total_size b then ([], b)
      else let len = total_size b - offset;
               sz' = (if sz > len then len else sz);
               ((i, po), c) = find_page (page_table b) (cur_page b) (nat offset)
           in (read_pages (drop i (page_table b)) po (nat sz'), b\<lparr>cur_page := c\<rparr>))"

definition insert_lowlevel :: "'a EditBuffer0_scheme \<Rightarrow> nat \<Rightarrow> byte list \<Rightarrow> 'a EditBuffer0_scheme" where
  "insert_lowlevel b offset buf =
     b\<lparr>total_size := total_size b + int (length buf),
       page_table := eb_insert_lowlevel (page_table b) (cur_page b) offset buf,
       cur_page := None\<rparr>"

definition eb_insert_with ::
  "'a EditBuffer0_scheme change_fn \<Rightarrow> 'a EditBuffer0_scheme \<Rightarrow> int \<Rightarrow> byte list \<Rightarrow>
   'a EditBuffer0_scheme \<times> int" where
  "eb_insert_with addlog b offset buf =
     (if readonly b then (b, 0)
      else let offset' = (if offset > total_size b then total_size b else offset)
           in if offset' < 0 \<or> buf = [] then (b, 0)
              else let b1 = addlog b LOGOP_INSERT offset' (int (length buf));
                       b2 = insert_lowlevel b1 (nat offset') buf
                   in (b2\<lparr>cur_page := None\<rparr>, int (length buf)))"

definition overwrite :: "'a EditBuffer0_scheme \<Rightarrow> int \<Rightarrow> byte list \<Rightarrow> 'a EditBuffer0_scheme" where
  "overwrite b offset buf =
     (let ((i, po), c) = find_page (page_table b) (cur_page b) (nat offset)
      in b\<lparr>cur_page := c,
           page_table := take i (page_table b) @ write_pages (drop i (page_table b)) po buf\<rparr>)"

definition eb_write_with ::
  "'a EditBuffer0_scheme change_fn \<Rightarrow> 'a EditBuffer0_scheme \<Rightarrow> int \<Rightarrow> byte list \<Rightarrow>
   'a EditBuffer0_scheme \<times> int" where
  "eb_write_with addlog b offset buf =
     (if readonly b then (b, 0)
      else if offset < 0 \<or> buf = [] \<or> offset > total_size b then (b, 0)
      else let sz = int (length buf);
               len = total_size b - offset;
               write_size = (if sz > len then len else sz);
               b1 = (if write_size > 0
                     then overwrite (addlog b LOGOP_WRITE offset write_size) offset
                            (take (nat write_size) buf)
                     else b);
               b2 = (if sz > write_size
                     then fst (eb_insert_with addlog b1 (offset + write_size)
                                 (drop (nat write_size) buf))
                     else b1)
           in (b2, sz))"

definition eb_delete_with ::
  "'a EditBuffer0_scheme change_fn \<Rightarrow> 'a EditBuffer0_scheme \<Rightarrow> int \<Rightarrow> int \<Rightarrow>
   'a EditBuffer0_scheme \<times> int" where
  "eb_delete_with addlog b offset sz =
     (if readonly b then (b, 0)
      else if offset < 0 \<or> offset \<ge> total_size b \<or> sz \<le> 0 then (b, 0)
      else let sz' = (if sz > total_size b - offset then total_size b - offset else sz);
               b1 = addlog b LOGOP_DELETE offset sz';
               ((i, po), c) = find_page (page_table b1) (cur_page b1) (nat offset)
           in (b1\<lparr>total_size := total_size b1 - sz',
                  page_table := delete_range_pages (page_table b1) i po (nat sz'),
                  cur_page := None\<rparr>, sz'))"

fun insert_pages :: "'a EditBuffer0_scheme \<Rightarrow> nat \<Rightarrow> Page list \<Rightarrow> nat \<Rightarrow> nat \<Rightarrow> 'a EditBuffer0_scheme" where
  "insert_pages dest dest_offset [] src_offset sz = dest"
| "insert_pages dest dest_offset (p # ps) src_offset sz =
     (if sz = 0 then dest
      else let len = min (psize p - src_offset) sz
           in insert_pages (insert_lowlevel dest dest_offset (take len (drop src_offset (data p))))
                (dest_offset + len) ps 0 (sz - len))"

definition eb_insert_buffer_with ::
  "'a EditBuffer0_scheme change_fn \<Rightarrow> 'a EditBuffer0_scheme \<Rightarrow> int \<Rightarrow>
   'b EditBuffer0_scheme \<Rightarrow> int \<Rightarrow> int \<Rightarrow>
   'a EditBuffer0_scheme \<times> 'b EditBuffer0_scheme \<times> int" where
  "eb_insert_buffer_with addlog dest dest_offset src src_offset sz =
     (if readonly dest then (dest, src, 0)
      else if dest_offset < 0 \<or> src_offset < 0 \<or> src_offset \<ge> total_size src then (dest, src, 0)
      else let sz' = (if src_offset + sz > total_size src then total_size src - src_offset else sz);
               dest_offset' = (if dest_offset > total_size dest then total_size dest else dest_offset)
           in if sz' \<le> 0 then (dest, src, 0)
              else let dest1 = addlog dest LOGOP_INSERT dest_offset' sz';
                       ((i, po), c) = find_page (page_table src) (cur_page src) (nat src_offset)
                   in (insert_pages dest1 (nat dest_offset') (drop i (page_table src)) po (nat sz'),
                       src\<lparr>cur_page := c\<rparr>, sz'))"

definition eb_replace_with ::
  "'a EditBuffer0_scheme change_fn \<Rightarrow> 'a EditBuffer0_scheme \<Rightarrow> int \<Rightarrow> int \<Rightarrow> byte list \<Rightarrow>
   'a EditBuffer0_scheme \<times> int" where
  "eb_replace_with addlog b offset sz buf =
     (if sz = int (length buf) then eb_write_with addlog b offset buf
      else eb_insert_with addlog (fst (eb_delete_with addlog b offset sz)) offset buf)"

definition eb_delete_range_with ::
  "'a EditBuffer0_scheme change_fn \<Rightarrow> 'a EditBuffer0_scheme \<Rightarrow> int \<Rightarrow> int \<Rightarrow>
   'a EditBuffer0_scheme \<times> int" where
  "eb_delete_range_with addlog b p1 p2 =
     (if p1 > p2 then eb_delete_with addlog b p2 (p1 - p2)
      else eb_delete_with addlog b p1 (p2 - p1))"

section \<open>Buffers without log and styles\<close>

text \<open>
  \<^verbatim>\<open>eb_addlog\<close> on a buffer whose \<^verbatim>\<open>save_log\<close> is 0 and that has no styles.
\<close>

definition eb_addlog0 :: "EditBuffer0 change_fn" where
  "eb_addlog0 b op offset sz =
     (if composite b then b
      else (call_callbacks (\<lambda>b _ _ _. b) (first_callback b) b op offset sz)\<lparr>modified := True\<rparr>)"

definition eb_insert0 :: "EditBuffer0 \<Rightarrow> int \<Rightarrow> byte list \<Rightarrow> EditBuffer0 \<times> int" where
  "eb_insert0 = eb_insert_with eb_addlog0"

definition eb_write0 :: "EditBuffer0 \<Rightarrow> int \<Rightarrow> byte list \<Rightarrow> EditBuffer0 \<times> int" where
  "eb_write0 = eb_write_with eb_addlog0"

definition eb_delete0 :: "EditBuffer0 \<Rightarrow> int \<Rightarrow> int \<Rightarrow> EditBuffer0 \<times> int" where
  "eb_delete0 = eb_delete_with eb_addlog0"

text \<open>The fields \<^verbatim>\<open>eb_new\<close> sets in a system buffer with the raw charset.\<close>

definition eb_new0 :: "32 word \<Rightarrow> EditBuffer0" where
  "eb_new0 fl =
     eb_add_callback (eb_add_callback
       \<lparr>page_table = [], total_size = 0, cur_page = None,
        flags = fl AND NOT BF_STYLES AND NOT BF_UTF8, mark = 0, point = 0, ext_offsets = (\<lambda>_. 0),
        modified = False, save_log = (fl AND BF_SAVELOG \<noteq> 0), composite = False,
        log_new_index = 0, log_current = 0, last_log = LOGOP_FREE, last_log_char = 0, nb_logs = 0,
        cur_style = 0, style_shift = 0, style_bytes = 0, char_shift = 0,
        first_callback = [], property_list = []\<rparr>
       OffsetCallback PtrMark 0) OffsetCallback PtrOffset 1"

section \<open>Invariant and correctness of the primitives\<close>

abbreviation btext :: "'a EditBuffer0_scheme \<Rightarrow> byte list" where
  "btext b \<equiv> content (page_table b)"

definition buf_wf :: "'a EditBuffer0_scheme \<Rightarrow> bool" where
  "buf_wf b \<longleftrightarrow> pages_ok (page_table b) \<and> total_size b = int (length (btext b)) \<and>
     cache_ok (page_table b) (cur_page b)"

lemma buf_wfD:
  "buf_wf b \<Longrightarrow> pages_ok (page_table b)"
  "buf_wf b \<Longrightarrow> total_size b = int (length (btext b))"
  "buf_wf b \<Longrightarrow> cache_ok (page_table b) (cur_page b)"
  by (auto simp: buf_wf_def)

lemma cache_ok_None [simp]: "cache_ok pt None"
  by (simp add: cache_ok_def)

lemma read_find:
  assumes "buf_wf b" "0 \<le> off" "off < total_size b"
  obtains i po c where "find_page (page_table b) (cur_page b) (nat off) = ((i, po), c)"
    "i < length (page_table b)" "po < psize (page_table b ! i)"
    "nat off = length (content (take i (page_table b))) + po" "cache_ok (page_table b) c"
proof -
  have "nat off < length (btext b)"
    using assms by (auto simp: buf_wf_def)
  from find_page_correct [OF buf_wfD(3) [OF assms(1)] this] that show thesis by blast
qed

lemma drop_content:
  assumes "i < length pt" "po \<le> psize (pt ! i)"
  shows "drop (length (content (take i pt)) + po) (content pt) = drop po (content (drop i pt))"
  by (metis content_split drop_drop append_eq_conv_conj add.commute)

lemma eb_read_text:
  assumes "buf_wf b"
  shows "fst (eb_read b off sz) = (if off < 0 then [] else take (nat sz) (drop (nat off) (btext b)))"
proof (cases "off < 0 \<or> sz \<le> 0 \<or> off \<ge> total_size b")
  case True
  with assms show ?thesis by (auto simp: eb_read_def buf_wf_def)
next
  case False
  then obtain i po c where f: "find_page (page_table b) (cur_page b) (nat off) = ((i, po), c)"
    "i < length (page_table b)" "po < psize (page_table b ! i)"
    "nat off = length (content (take i (page_table b))) + po"
    using read_find [OF assms, of off] by (metis not_le)
  define n where "n = nat (if sz > total_size b - off then total_size b - off else sz)"
  have n: "nat off + n \<le> length (btext b)" "n = nat sz \<or> nat off + n = length (btext b)" "n \<le> nat sz"
    using False buf_wfD(2) [OF assms] by (auto simp: n_def)
  have d: "drop (nat off) (btext b) = drop po (content (drop i (page_table b)))"
    using drop_content [OF f(2), of po] f(3,4) by simp
  have "read_pages (drop i (page_table b)) po n = take n (drop po (content (drop i (page_table b))))"
  proof (rule read_pages_correct)
    show "po \<le> (case drop i (page_table b) of [] \<Rightarrow> 0 | p # _ \<Rightarrow> psize p)"
      using f(2,3) by (simp flip: Cons_nth_drop_Suc)
    have "po + n \<le> length (content (drop i (page_table b)))"
      using n(1) f(4) content_split [of i "page_table b"] by (metis add.assoc add_le_cancel_left length_append)
    then show "po + n \<le> length (content (drop i (page_table b)))" .
  qed
  then have "read_pages (drop i (page_table b)) po n = take n (drop (nat off) (btext b))"
    by (simp add: d)
  also have "\<dots> = take (nat sz) (drop (nat off) (btext b))"
    using n(2,3) by auto
  finally show ?thesis
    using False f(1) by (simp add: eb_read_def Let_def n_def)
qed

lemma eb_read_state: "snd (eb_read b off sz) = b\<lparr>cur_page := cur_page (snd (eb_read b off sz))\<rparr>"
  by (simp add: eb_read_def Let_def split: prod.split)

lemma buf_wf_cache: "buf_wf b \<Longrightarrow> cache_ok (page_table b) c \<Longrightarrow> buf_wf (b\<lparr>cur_page := c\<rparr>)"
  by (simp add: buf_wf_def)

lemma eb_read_wf [wf_intros]: "buf_wf b \<Longrightarrow> buf_wf (snd (eb_read b off sz))"
proof (cases "off < 0 \<or> sz \<le> 0 \<or> off \<ge> total_size b")
  case True
  assume "buf_wf b"
  with True show ?thesis by (simp add: eb_read_def)
next
  case False
  assume wf: "buf_wf b"
  with False obtain i po c where "find_page (page_table b) (cur_page b) (nat off) = ((i, po), c)"
    "cache_ok (page_table b) c"
    using read_find [OF wf, of off] by (metis not_le)
  with False wf show ?thesis by (simp add: eb_read_def Let_def buf_wf_cache)
qed

lemma eb_read_one_byte_value:
  assumes "buf_wf b"
  shows "fst (eb_read_one_byte b off) =
     (if off < 0 \<or> off \<ge> total_size b then -1 else uint (btext b ! nat off))"
proof (cases "off < 0 \<or> off \<ge> total_size b")
  case False
  then obtain i po c where f: "find_page (page_table b) (cur_page b) (nat off) = ((i, po), c)"
    "i < length (page_table b)" "po < psize (page_table b ! i)"
    "nat off = length (content (take i (page_table b))) + po"
    using read_find [OF assms, of off] by (metis not_le)
  have "btext b = content (take i (page_table b)) @ data (page_table b ! i) @ content (drop (Suc i) (page_table b))"
    using content_split [of i "page_table b"] content_nth_drop [OF f(2)] by simp
  with f(3,4) have "btext b ! nat off = data (page_table b ! i) ! po"
    by (simp add: nth_append)
  with False f(1) show ?thesis by (simp add: eb_read_one_byte_def)
qed (auto simp: eb_read_one_byte_def)

section \<open>The contract of the change log\<close>

text \<open>The pages of a buffer replaced by others that are well formed.\<close>

definition repaged :: "'a EditBuffer0_scheme \<Rightarrow> 'a EditBuffer0_scheme \<Rightarrow> bool" where
  "repaged b b' \<longleftrightarrow> buf_wf b' \<and>
     b' = b\<lparr>page_table := page_table b', total_size := total_size b', cur_page := cur_page b'\<rparr>"

definition op_in_range :: "'a EditBuffer0_scheme \<Rightarrow> LogOperation \<Rightarrow> int \<Rightarrow> int \<Rightarrow> bool" where
  "op_in_range b op offset sz \<longleftrightarrow> 0 \<le> offset \<and> 0 < sz \<and>
     (if op = LOGOP_INSERT then offset \<le> total_size b else offset + sz \<le> total_size b)"

lemma repaged_insert_lowlevel:
  assumes "buf_wf b" "k \<le> length (btext b)"
  shows "repaged b (insert_lowlevel b k buf)"
    "btext (insert_lowlevel b k buf) = splice_at k 0 buf (btext b)"
    "pages_from (page_table b) (page_table (insert_lowlevel b k buf))"
    "flags (insert_lowlevel b k buf) = flags b"
proof -
  note c = eb_insert_lowlevel_correct [OF buf_wfD(1,3) [OF assms(1)] assms(2)]
  show t: "btext (insert_lowlevel b k buf) = splice_at k 0 buf (btext b)"
    by (simp add: insert_lowlevel_def c)
  have "buf_wf (insert_lowlevel b k buf)"
    using c(2) buf_wfD(2) [OF assms(1)] length_splice_at [of k 0 "btext b" buf] assms(2) c(1) [of buf]
    by (simp add: buf_wf_def insert_lowlevel_def)
  then show "repaged b (insert_lowlevel b k buf)"
    by (auto simp: repaged_def insert_lowlevel_def)
  show "pages_from (page_table b) (page_table (insert_lowlevel b k buf))"
    "flags (insert_lowlevel b k buf) = flags b"
    using c(3) by (simp_all add: insert_lowlevel_def)
qed

lemma repaged_trans: "repaged b b' \<Longrightarrow> repaged b' b'' \<Longrightarrow> repaged b b''"
  by (cases b rule: EditBuffer0.cases_scheme; cases b' rule: EditBuffer0.cases_scheme;
      cases b'' rule: EditBuffer0.cases_scheme) (simp add: repaged_def)

lemma repaged_refl: "buf_wf b \<Longrightarrow> repaged b b"
  by (simp add: repaged_def)

lemma repaged_None: "repaged b b' \<Longrightarrow> repaged b (b'\<lparr>cur_page := None\<rparr>)"
  by (cases b rule: EditBuffer0.cases_scheme; cases b' rule: EditBuffer0.cases_scheme)
     (simp add: repaged_def buf_wf_def)

lemma repaged_fields:
  assumes "repaged b b'"
  shows "buf_wf b'" "flags b' = flags b" "mark b' = mark b" "point b' = point b"
    "ext_offsets b' = ext_offsets b" "modified b' = modified b" "save_log b' = save_log b"
    "composite b' = composite b" "log_new_index b' = log_new_index b" "log_current b' = log_current b"
    "last_log b' = last_log b" "nb_logs b' = nb_logs b" "cur_style b' = cur_style b"
    "style_shift b' = style_shift b" "style_bytes b' = style_bytes b" "char_shift b' = char_shift b"
    "first_callback b' = first_callback b" "property_list b' = property_list b"
    "EditBuffer0.more b' = EditBuffer0.more b"
  using assms
  by (cases b rule: EditBuffer0.cases_scheme; cases b' rule: EditBuffer0.cases_scheme;
      simp add: repaged_def)+

lemma length_content: "length (content pt) = sum_list (map psize pt)"
  by (induction pt) auto

lemma cache_ok_psizes:
  assumes "map psize pt = map psize pt'"
  shows "cache_ok pt c = cache_ok pt' c"
proof -
  have "length pt = length pt'" using assms by (metis length_map)
  moreover have "length (content (take i pt)) = length (content (take i pt'))" for i
    using assms by (simp add: length_content flip: take_map)
  ultimately show ?thesis by (simp add: cache_ok_def split: option.split)
qed

lemma repaged_overwrite:
  assumes "buf_wf b" "0 \<le> off" "off + int (length buf) \<le> total_size b" "buf \<noteq> []"
  shows "repaged b (overwrite b off buf)"
    "btext (overwrite b off buf) = splice_at (nat off) (length buf) buf (btext b)"
    "pages_from (page_table b) (page_table (overwrite b off buf))"
    "flags (overwrite b off buf) = flags b"
proof -
  have "off < total_size b" using assms(3,4) by (cases buf) auto
  then obtain i po c where f: "find_page (page_table b) (cur_page b) (nat off) = ((i, po), c)"
    "i < length (page_table b)" "po < psize (page_table b ! i)"
    "nat off = length (content (take i (page_table b))) + po" "cache_ok (page_table b) c"
    using read_find [OF assms(1,2)] by metis
  define A B where "A = take i (page_table b)" and "B = drop i (page_table b)"
  have AB: "page_table b = A @ B" "length A = i"
    using f(2) by (simp_all add: A_def B_def)
  have "po \<le> (case B of [] \<Rightarrow> 0 | p # _ \<Rightarrow> psize p)"
    using f(2,3) by (simp add: B_def flip: Cons_nth_drop_Suc)
  moreover have "po + length buf \<le> length (content B)"
    using assms(2,3) f(4) AB buf_wfD(2) [OF assms(1)] by (simp flip: A_def)
  ultimately have w: "content (write_pages B po buf) = splice_at po (length buf) buf (content B)"
    "map psize (write_pages B po buf) = map psize B"
    using write_pages_correct by blast+
  have eq: "overwrite b off buf = b\<lparr>cur_page := c, page_table := A @ write_pages B po buf\<rparr>"
    using f(1) by (simp add: overwrite_def A_def B_def)
  show t: "btext (overwrite b off buf) = splice_at (nat off) (length buf) buf (btext b)"
    using f(4) by (simp add: eq w(1) AB splice_at_append_right flip: A_def)
  show "flags (overwrite b off buf) = flags b" by (simp add: eq)
  have sizes: "map psize (A @ write_pages B po buf) = map psize (page_table b)"
    by (simp add: w(2) AB)
  have "length (btext (overwrite b off buf)) = length (btext b)"
    using arg_cong [OF sizes, of sum_list] by (simp add: length_content eq)
  then have "buf_wf (overwrite b off buf)"
    using assms(1) f(5) pages_ok_psizes [OF sizes] cache_ok_psizes [OF sizes]
    by (simp add: buf_wf_def eq)
  then show "repaged b (overwrite b off buf)"
    by (simp add: repaged_def eq)
  show "pages_from (page_table b) (page_table (overwrite b off buf))"
    using write_pages_from [of B po buf] AB
    by (auto simp: eq pages_from_def list_all_iff)
qed


lemma repaged_delete:
  assumes "buf_wf b" "0 \<le> off" "0 < sz" "off + sz \<le> total_size b"
    "find_page (page_table b) (cur_page b) (nat off) = ((i, po), c)"
    "b' = b\<lparr>total_size := total_size b - sz,
        page_table := delete_range_pages (page_table b) i po (nat sz), cur_page := None\<rparr>"
  shows "repaged b b'" "btext b' = splice_at (nat off) (nat sz) [] (btext b)"
    "pages_from (page_table b) (page_table b')" "flags b' = flags b"
proof -
  have "off < total_size b" using assms(3,4) by simp
  then have f: "i < length (page_table b)" "po < psize (page_table b ! i)"
    "nat off = length (content (take i (page_table b))) + po"
    using read_find [OF assms(1,2)] assms(5) by (metis Pair_inject)+
  have rng: "0 < nat sz" "nat off + nat sz \<le> length (btext b)"
    using assms(2-4) buf_wfD(2) [OF assms(1)] by auto
  note d = delete_range_pages_correct [OF buf_wfD(1) [OF assms(1)] f rng]
  show t: "btext b' = splice_at (nat off) (nat sz) [] (btext b)"
    "pages_from (page_table b) (page_table b')" "flags b' = flags b"
    using d by (simp_all add: assms(6))
  have "length (btext b') = length (btext b) - nat sz"
    using rng by (simp add: t(1) length_splice_at)
  then have "buf_wf b'"
    using d(2) rng assms(3) buf_wfD(2) [OF assms(1)] by (simp add: assms(6) buf_wf_def)
  then show "repaged b b'"
    by (simp add: repaged_def assms(6))
qed

lemma insert_pages_correct:
  assumes "buf_wf dest" "k \<le> length (btext dest)"
    "so \<le> (case ps of [] \<Rightarrow> 0 | p # _ \<Rightarrow> psize p)" "so + n \<le> length (content ps)"
  shows "repaged dest (insert_pages dest k ps so n)"
    "btext (insert_pages dest k ps so n) = splice_at k 0 (take n (drop so (content ps))) (btext dest)"
    "flags (insert_pages dest k ps so n) = flags dest"
    "pages_from (page_table dest) (page_table (insert_pages dest k ps so n))"
proof -
  have "repaged dest (insert_pages dest k ps so n) \<and>
    btext (insert_pages dest k ps so n) = splice_at k 0 (take n (drop so (content ps))) (btext dest) \<and>
    flags (insert_pages dest k ps so n) = flags dest \<and>
    pages_from (page_table dest) (page_table (insert_pages dest k ps so n))"
    using assms
  proof (induction ps arbitrary: dest k so n)
    case Nil
    then show ?case by (simp add: repaged_refl)
  next
    case (Cons p ps)
    show ?case
    proof (cases "n = 0")
      case True
      with Cons.prems show ?thesis by (simp add: repaged_refl)
    next
      case False
      define m where "m = min (psize p - so) n"
      define d1 where "d1 = insert_lowlevel dest k (take m (drop so (data p)))"
      have m: "m \<le> psize p - so" "m \<le> n" "m = n \<or> m = psize p - so"
        by (auto simp: m_def)
      note l = repaged_insert_lowlevel [OF Cons.prems(1,2), of "take m (drop so (data p))", folded d1_def]
      have wf: "buf_wf d1" using l(1) by (simp add: repaged_def)
      have len: "length (take m (drop so (data p))) = m" using m Cons.prems(3) by simp
      have k: "k + m \<le> length (btext d1)"
        using l(2) Cons.prems(2) len by (simp add: splice_at_def)
      have "0 + (n - m) \<le> length (content ps)"
        using Cons.prems(3,4) m(3) by auto
      with Cons.IH [OF wf k, of 0 "n - m"] have IH:
        "repaged d1 (insert_pages d1 (k + m) ps 0 (n - m))"
        "btext (insert_pages d1 (k + m) ps 0 (n - m)) = splice_at (k + m) 0 (take (n - m) (content ps)) (btext d1)"
        "flags (insert_pages d1 (k + m) ps 0 (n - m)) = flags d1"
        "pages_from (page_table d1) (page_table (insert_pages d1 (k + m) ps 0 (n - m)))"
        by (simp_all split: list.splits)
      have eq: "insert_pages dest k (p # ps) so n = insert_pages d1 (k + m) ps 0 (n - m)"
        using False by (simp add: d1_def m_def Let_def)
      have "take m (drop so (data p)) @ take (n - m) (content ps) = take n (drop so (content (p # ps)))"
        using m Cons.prems(3) by (auto simp: diff_diff_left)
      then have "btext (insert_pages d1 (k + m) ps 0 (n - m)) =
          splice_at k 0 (take n (drop so (content (p # ps)))) (btext dest)"
        using len Cons.prems(2) by (simp add: IH(2) l(2) splice_at_def)
      then show ?thesis
        unfolding eq using IH l by (auto intro: repaged_trans pages_from_trans)
    qed
  qed
  then show "repaged dest (insert_pages dest k ps so n)"
    "btext (insert_pages dest k ps so n) = splice_at k 0 (take n (drop so (content ps))) (btext dest)"
    "flags (insert_pages dest k ps so n) = flags dest"
    "pages_from (page_table dest) (page_table (insert_pages dest k ps so n))"
    by auto
qed


text \<open>
  What the primitives rely on: the log leaves the pages, the size and the flags of the
  buffer alone and keeps an invariant, which holds again when the pages are replaced.
\<close>

locale change_log =
  fixes addlog :: "'a EditBuffer0_scheme change_fn"
    and inv :: "'a EditBuffer0_scheme \<Rightarrow> bool"
  assumes inv_wf: "inv b \<Longrightarrow> buf_wf b"
    and addlog_pages: "inv b \<Longrightarrow> page_table (addlog b op off sz) = page_table b"
    and addlog_size: "inv b \<Longrightarrow> total_size (addlog b op off sz) = total_size b"
    and addlog_flags: "inv b \<Longrightarrow> flags (addlog b op off sz) = flags b"
    and addlog_inv: "inv b \<Longrightarrow> op_in_range b op off sz \<Longrightarrow> inv (addlog b op off sz)"
    and inv_repaged: "inv b \<Longrightarrow> repaged b b' \<Longrightarrow> inv b'"
begin

lemma insert_repaged:
  assumes "inv b" "\<not> readonly b" "0 \<le> off" "buf \<noteq> []"
  defines "off' \<equiv> min off (total_size b)"
  shows "repaged (addlog b LOGOP_INSERT off' (int (length buf))) (fst (eb_insert_with addlog b off buf))"
    "op_in_range b LOGOP_INSERT off' (int (length buf))"
    "btext (fst (eb_insert_with addlog b off buf)) = splice_at (nat off') 0 buf (btext b)"
    "pages_from (page_table b) (page_table (fst (eb_insert_with addlog b off buf)))"
proof -
  define b1 where "b1 = addlog b LOGOP_INSERT off' (int (length buf))"
  note total = buf_wfD(2) [OF inv_wf [OF assms(1)]]
  show rng: "op_in_range b LOGOP_INSERT off' (int (length buf))"
    using assms total by (auto simp: op_in_range_def)
  have b1: "inv b1" "page_table b1 = page_table b"
    using assms(1) rng by (simp_all add: b1_def addlog_inv addlog_pages)
  have k: "nat off' \<le> length (btext b1)"
    using total b1(2) by (auto simp: off'_def)
  have "(if off > total_size b then total_size b else off) = off'" "\<not> off' < 0"
    using assms(3) total by (auto simp: off'_def)
  then have eq: "fst (eb_insert_with addlog b off buf) = (insert_lowlevel b1 (nat off') buf)\<lparr>cur_page := None\<rparr>"
    using assms(2,4) by (simp add: eb_insert_with_def b1_def)
  note l = repaged_insert_lowlevel [OF inv_wf [OF b1(1)] k, of buf]
  show "repaged (addlog b LOGOP_INSERT off' (int (length buf))) (fst (eb_insert_with addlog b off buf))"
    "btext (fst (eb_insert_with addlog b off buf)) = splice_at (nat off') 0 buf (btext b)"
    "pages_from (page_table b) (page_table (fst (eb_insert_with addlog b off buf)))"
    using repaged_None [OF l(1)] l(2,3) b1(2) unfolding eq by (simp_all add: b1_def)
qed

lemma delete_repaged:
  assumes "inv b" "\<not> readonly b" "0 \<le> off" "off < total_size b" "0 < sz"
  defines "sz' \<equiv> min sz (total_size b - off)"
  shows "repaged (addlog b LOGOP_DELETE off sz') (fst (eb_delete_with addlog b off sz))"
    "op_in_range b LOGOP_DELETE off sz'"
    "btext (fst (eb_delete_with addlog b off sz)) = splice_at (nat off) (nat sz') [] (btext b)"
    "pages_from (page_table b) (page_table (fst (eb_delete_with addlog b off sz)))"
proof -
  have s: "(if sz > total_size b - off then total_size b - off else sz) = sz'" "0 < sz'" "off + sz' \<le> total_size b"
    using assms(4,5) by (auto simp: sz'_def)
  define b1 where "b1 = addlog b LOGOP_DELETE off sz'"
  show rng: "op_in_range b LOGOP_DELETE off sz'"
    using assms(3) s(2,3) by (simp add: op_in_range_def)
  have b1: "inv b1" "page_table b1 = page_table b" "off + sz' \<le> total_size b1"
    using assms(1) rng s(3) by (simp_all add: b1_def addlog_inv addlog_pages addlog_size)
  obtain i po c where f: "find_page (page_table b1) (cur_page b1) (nat off) = ((i, po), c)"
    by (metis surj_pair)
  define b2 where "b2 = b1\<lparr>total_size := total_size b1 - sz',
      page_table := delete_range_pages (page_table b1) i po (nat sz'), cur_page := None\<rparr>"
  have eq: "fst (eb_delete_with addlog b off sz) = b2"
    using assms(2-5) f s(1) by (simp add: eb_delete_with_def Let_def b1_def b2_def)
  note d = repaged_delete [OF inv_wf [OF b1(1)] assms(3) s(2) b1(3) f b2_def]
  show "repaged (addlog b LOGOP_DELETE off sz') (fst (eb_delete_with addlog b off sz))"
    "btext (fst (eb_delete_with addlog b off sz)) = splice_at (nat off) (nat sz') [] (btext b)"
    "pages_from (page_table b) (page_table (fst (eb_delete_with addlog b off sz)))"
    using d(1-3) b1(2) unfolding eq by (simp_all add: b1_def)
qed

lemma write_repaged:
  assumes "inv b" "\<not> readonly b" "0 \<le> off" "buf \<noteq> []" "off + int (length buf) \<le> total_size b"
  shows "repaged (addlog b LOGOP_WRITE off (int (length buf))) (fst (eb_write_with addlog b off buf))"
    "op_in_range b LOGOP_WRITE off (int (length buf))"
    "btext (fst (eb_write_with addlog b off buf)) = splice_at (nat off) (length buf) buf (btext b)"
    "pages_from (page_table b) (page_table (fst (eb_write_with addlog b off buf)))"
proof -
  show rng: "op_in_range b LOGOP_WRITE off (int (length buf))"
    using assms by (simp add: op_in_range_def)
  define b1 where "b1 = addlog b LOGOP_WRITE off (int (length buf))"
  have b1: "inv b1" "page_table b1 = page_table b" "off + int (length buf) \<le> total_size b1"
    using assms(1,5) rng by (simp_all add: b1_def addlog_inv addlog_pages addlog_size)
  have eq: "fst (eb_write_with addlog b off buf) = overwrite b1 off buf"
    using assms by (auto simp: eb_write_with_def Let_def b1_def)
  note o = repaged_overwrite [OF inv_wf [OF b1(1)] assms(3) b1(3) assms(4)]
  show "repaged (addlog b LOGOP_WRITE off (int (length buf))) (fst (eb_write_with addlog b off buf))"
    "btext (fst (eb_write_with addlog b off buf)) = splice_at (nat off) (length buf) buf (btext b)"
    "pages_from (page_table b) (page_table (fst (eb_write_with addlog b off buf)))"
    using o(1-3) b1(2) unfolding eq by (simp_all add: b1_def)
qed

text \<open>A write that reaches beyond the end is an overwrite of the tail and an insertion.\<close>

lemma write_beyond_end:
  assumes "\<not> readonly b" "0 \<le> off" "off \<le> total_size b" "off + int (length buf) > total_size b"
    "n = nat (total_size b - off)"
  shows "fst (eb_write_with addlog b off buf) =
    fst (eb_insert_with addlog (fst (eb_write_with addlog b off (take n buf))) (total_size b) (drop n buf))"
proof -
  have n: "n < length buf" "int n = total_size b - off" "buf \<noteq> []" "min (length buf) n = n"
    using assms(3-5) by auto
  show ?thesis
  proof (cases "n = 0")
    case True
    with n assms(1-4) show ?thesis by (simp add: eb_write_with_def Let_def)
  next
    case False
    moreover have "total_size b = off + int n" "int n \<le> int (length buf)" using n(1,2) by simp_all
    ultimately show ?thesis
      using n(1,3,4) assms(1-3) by (simp add: eb_write_with_def Let_def)
  qed
qed

lemma change_flags:
  assumes "inv b" "op_in_range b op off sz" "repaged (addlog b op off sz) b'"
  shows "inv b'" "flags b' = flags b"
  using assms inv_repaged [OF addlog_inv] by (auto simp: addlog_flags repaged_fields)

lemma insert_correct:
  assumes "inv b"
  shows "btext (fst (eb_insert_with addlog b off buf)) =
      (if readonly b \<or> off < 0 then btext b
       else splice_at (nat (min off (total_size b))) 0 buf (btext b))" (is "?text")
    and "inv (fst (eb_insert_with addlog b off buf))" (is "?inv")
    and "flags (fst (eb_insert_with addlog b off buf)) = flags b" (is "?flags")
    and "pages_from (page_table b) (page_table (fst (eb_insert_with addlog b off buf)))" (is "?from")
proof -
  have "?text \<and> ?inv \<and> ?flags \<and> ?from"
  proof (cases "readonly b \<or> off < 0 \<or> buf = []")
    case True
    with assms buf_wfD(2) [OF inv_wf [OF assms]] show ?thesis
      by (auto simp: eb_insert_with_def)
  next
    case False
    with insert_repaged [OF assms, of off buf] change_flags [OF assms] show ?thesis by simp
  qed
  then show ?text ?inv ?flags ?from by auto
qed

lemma delete_correct:
  assumes "inv b"
  shows "btext (fst (eb_delete_with addlog b off sz)) =
      (if readonly b \<or> off < 0 then btext b else splice_at (nat off) (nat sz) [] (btext b))" (is "?text")
    and "inv (fst (eb_delete_with addlog b off sz))" (is "?inv")
    and "flags (fst (eb_delete_with addlog b off sz)) = flags b" (is "?flags")
    and "pages_from (page_table b) (page_table (fst (eb_delete_with addlog b off sz)))" (is "?from")
proof -
  note total = buf_wfD(2) [OF inv_wf [OF assms]]
  have "?text \<and> ?inv \<and> ?flags \<and> ?from"
  proof (cases "readonly b \<or> off < 0 \<or> off \<ge> total_size b \<or> sz \<le> 0")
    case True
    with assms total show ?thesis
      by (auto simp: eb_delete_with_def splice_at_def)
  next
    case False
    then have "splice_at (nat off) (nat (min sz (total_size b - off))) [] (btext b) =
        splice_at (nat off) (nat sz) [] (btext b)"
      using total by (cases "sz \<le> total_size b - off") (auto simp: splice_at_def)
    with False delete_repaged [OF assms, of off sz] change_flags [OF assms] show ?thesis by simp
  qed
  then show ?text ?inv ?flags ?from by auto
qed

lemma write_correct:
  assumes "inv b"
  shows "btext (fst (eb_write_with addlog b off buf)) =
      (if readonly b \<or> off < 0 \<or> off > total_size b then btext b
       else splice_at (nat off) (length buf) buf (btext b))" (is "?text")
    and "inv (fst (eb_write_with addlog b off buf))" (is "?inv")
    and "flags (fst (eb_write_with addlog b off buf)) = flags b" (is "?flags")
    and "pages_from (page_table b) (page_table (fst (eb_write_with addlog b off buf)))" (is "?from")
proof -
  note total = buf_wfD(2) [OF inv_wf [OF assms]]
  let ?P = "\<lambda>buf. let b' = fst (eb_write_with addlog b off buf) in
     btext b' = (if readonly b \<or> off < 0 \<or> off > total_size b then btext b
       else splice_at (nat off) (length buf) buf (btext b)) \<and>
     inv b' \<and> flags b' = flags b \<and> pages_from (page_table b) (page_table b')"
  have short: "?P bs" if "off + int (length bs) \<le> total_size b" for bs
  proof (cases "readonly b \<or> off < 0 \<or> bs = [] \<or> off > total_size b")
    case True
    with assms show ?thesis by (auto simp: eb_write_with_def)
  next
    case False
    with that write_repaged [OF assms, of off bs] change_flags [OF assms] show ?thesis by (simp add: Let_def)
  qed
  have "?P buf"
  proof (cases "readonly b \<or> off < 0 \<or> off > total_size b \<or> off + int (length buf) \<le> total_size b")
    case True
    then consider "off + int (length buf) \<le> total_size b" | "readonly b \<or> off < 0 \<or> off > total_size b" by blast
    then show ?thesis
      by cases (use short assms in \<open>auto simp: eb_write_with_def\<close>)
  next
    case False
    define n where "n = nat (total_size b - off)"
    define b1 where "b1 = fst (eb_write_with addlog b off (take n buf))"
    have n: "nat off + n = length (btext b)" "length (take n buf) = n" "0 \<le> off" "off \<le> total_size b"
      using False total by (auto simp: n_def)
    then have b1: "btext b1 = take (nat off) (btext b) @ take n buf" "inv b1" "flags b1 = flags b"
      "pages_from (page_table b) (page_table b1)"
      using short [of "take n buf"] False total by (simp_all add: b1_def Let_def splice_at_def)
    have "total_size b1 = total_size b"
      using buf_wfD(2) [OF inv_wf [OF b1(2)]] total n b1(1) by simp
    moreover have "nat (total_size b) = length (btext b1)"
      using total n b1(1) by simp
    moreover have "fst (eb_write_with addlog b off buf) =
        fst (eb_insert_with addlog b1 (total_size b) (drop n buf))"
      unfolding b1_def by (rule write_beyond_end) (use False in \<open>auto simp: n_def\<close>)
    moreover have "drop (nat off + length buf) (btext b) = []"
      using False total by auto
    ultimately show ?thesis
      using insert_correct [OF b1(2), of "total_size b" "drop n buf"] False b1 total
      by (auto simp: Let_def splice_at_def intro: pages_from_trans)
  qed
  then show ?text ?inv ?flags ?from by (simp_all add: Let_def)
qed

lemma insert_buffer_repaged:
  assumes "inv dest" "buf_wf src" "\<not> readonly dest" "0 \<le> off" "0 \<le> so" "so < total_size src" "0 < sz"
  defines "off' \<equiv> min off (total_size dest)" and "sz' \<equiv> min sz (total_size src - so)"
  shows "repaged (addlog dest LOGOP_INSERT off' sz') (fst (eb_insert_buffer_with addlog dest off src so sz))"
    "op_in_range dest LOGOP_INSERT off' sz'"
    "btext (fst (eb_insert_buffer_with addlog dest off src so sz)) =
       splice_at (nat off') 0 (take (nat sz') (drop (nat so) (btext src))) (btext dest)"
    "pages_from (page_table dest) (page_table (fst (eb_insert_buffer_with addlog dest off src so sz)))"
    "repaged src (fst (snd (eb_insert_buffer_with addlog dest off src so sz)))"
proof -
  note total = buf_wfD(2) [OF inv_wf [OF assms(1)]] and stotal = buf_wfD(2) [OF assms(2)]
  have e: "(if so + sz > total_size src then total_size src - so else sz) = sz'"
    "(if off > total_size dest then total_size dest else off) = off'" "0 < sz'" "0 \<le> off'"
    "so + sz' \<le> total_size src"
    using assms(4,6,7) total by (auto simp: sz'_def off'_def)
  define b1 where "b1 = addlog dest LOGOP_INSERT off' sz'"
  show rng: "op_in_range dest LOGOP_INSERT off' sz'"
    using e by (simp add: op_in_range_def off'_def)
  have b1: "inv b1" "page_table b1 = page_table dest"
    using assms(1) rng by (simp_all add: b1_def addlog_inv addlog_pages)
  obtain i po c where f: "find_page (page_table src) (cur_page src) (nat so) = ((i, po), c)"
    "i < length (page_table src)" "po < psize (page_table src ! i)"
    "nat so = length (content (take i (page_table src))) + po" "cache_ok (page_table src) c"
    using read_find [OF assms(2,5,6)] .
  have k: "nat off' \<le> length (btext b1)" using total b1(2) by (auto simp: off'_def)
  have d: "drop (nat so) (btext src) = drop po (content (drop i (page_table src)))"
    using drop_content [OF f(2), of po] f(3,4) by simp
  have po: "po \<le> (case drop i (page_table src) of [] \<Rightarrow> 0 | p # _ \<Rightarrow> psize p)"
    using f(2,3) by (simp flip: Cons_nth_drop_Suc)
  have "length (btext src) = length (content (take i (page_table src))) + length (content (drop i (page_table src)))"
    by (metis content_split length_append)
  then have sz: "po + nat sz' \<le> length (content (drop i (page_table src)))"
    using f(4) stotal e(3,5) assms(5) by linarith
  note ip = insert_pages_correct [OF inv_wf [OF b1(1)] k po sz]
  have eq: "eb_insert_buffer_with addlog dest off src so sz =
     (insert_pages b1 (nat off') (drop i (page_table src)) po (nat sz'), src\<lparr>cur_page := c\<rparr>, sz')"
    using assms(3-6) e f(1) by (simp add: eb_insert_buffer_with_def Let_def b1_def)
  show "repaged (addlog dest LOGOP_INSERT off' sz') (fst (eb_insert_buffer_with addlog dest off src so sz))"
    "btext (fst (eb_insert_buffer_with addlog dest off src so sz)) =
       splice_at (nat off') 0 (take (nat sz') (drop (nat so) (btext src))) (btext dest)"
    "pages_from (page_table dest) (page_table (fst (eb_insert_buffer_with addlog dest off src so sz)))"
    using ip b1 by (simp_all add: eq d) (simp_all add: b1_def)
  show "repaged src (fst (snd (eb_insert_buffer_with addlog dest off src so sz)))"
    using assms(2) f(5) by (simp add: eq repaged_def buf_wf_def)
qed

lemma insert_buffer_correct:
  assumes "inv dest" "buf_wf src"
  shows "btext (fst (eb_insert_buffer_with addlog dest off src so sz)) =
      (if readonly dest \<or> off < 0 \<or> so < 0 then btext dest
       else splice_at (nat (min off (total_size dest))) 0 (take (nat sz) (drop (nat so) (btext src))) (btext dest))"
      (is "?text")
    and "inv (fst (eb_insert_buffer_with addlog dest off src so sz))" (is "?inv")
    and "flags (fst (eb_insert_buffer_with addlog dest off src so sz)) = flags dest" (is "?flags")
    and "pages_from (page_table dest) (page_table (fst (eb_insert_buffer_with addlog dest off src so sz)))" (is "?from")
    and "repaged src (fst (snd (eb_insert_buffer_with addlog dest off src so sz)))" (is "?src")
proof -
  note stotal = buf_wfD(2) [OF assms(2)]
  have "?text \<and> ?inv \<and> ?flags \<and> ?from \<and> ?src"
  proof (cases "readonly dest \<or> off < 0 \<or> so < 0 \<or> so \<ge> total_size src \<or> sz \<le> 0")
    case True
    with assms stotal show ?thesis
      by (auto simp: eb_insert_buffer_with_def repaged_refl Let_def)
  next
    case False
    then have "take (nat (min sz (total_size src - so))) (drop (nat so) (btext src)) =
        take (nat sz) (drop (nat so) (btext src))"
      using stotal by (cases "sz \<le> total_size src - so") (auto simp: nat_diff_distrib')
    with False insert_buffer_repaged [OF assms, of off so sz] change_flags [OF assms(1)] show ?thesis by simp
  qed
  then show ?text ?inv ?flags ?from ?src by auto
qed

lemma replace_correct:
  assumes "inv b" "\<not> readonly b" "0 \<le> off" "0 \<le> sz" "off + sz \<le> total_size b"
  shows "btext (fst (eb_replace_with addlog b off sz buf)) = splice_at (nat off) (nat sz) buf (btext b)"
    and "inv (fst (eb_replace_with addlog b off sz buf))"
proof -
  let ?b1 = "fst (eb_delete_with addlog b off sz)"
  note d = delete_correct [OF assms(1), of off sz]
  have total: "total_size ?b1 = int (length (btext ?b1))" "total_size b = int (length (btext b))"
    using buf_wfD(2) inv_wf d(2) assms(1) by blast+
  have "length (btext ?b1) = length (btext b) - nat sz"
    using d(1) assms total by (simp add: length_splice_at)
  then have off: "nat (min off (total_size ?b1)) = nat off" "nat off \<le> length (btext b)"
    using total assms by auto
  show "btext (fst (eb_replace_with addlog b off sz buf)) = splice_at (nat off) (nat sz) buf (btext b)"
  proof (cases "sz = int (length buf)")
    case True
    with assms write_correct(1) [OF assms(1), of off buf] show ?thesis
      by (simp add: eb_replace_with_def)
  next
    case False
    with assms d(1,3) off insert_correct(1) [OF d(2), of off buf] show ?thesis
      by (simp add: eb_replace_with_def splice_at_def)
  qed
  show "inv (fst (eb_replace_with addlog b off sz buf))"
    using insert_correct(2) [OF d(2)] write_correct(2) [OF assms(1)] by (simp add: eb_replace_with_def)
qed

end


section \<open>Callbacks leave the text alone\<close>

definition same_core :: "'a EditBuffer0_scheme \<Rightarrow> 'a EditBuffer0_scheme \<Rightarrow> bool" where
  "same_core b b' \<longleftrightarrow> page_table b' = page_table b \<and> total_size b' = total_size b \<and>
     cur_page b' = cur_page b \<and> flags b' = flags b \<and> modified b' = modified b \<and>
     save_log b' = save_log b \<and> composite b' = composite b \<and>
     log_new_index b' = log_new_index b \<and> log_current b' = log_current b \<and>
     last_log b' = last_log b \<and> nb_logs b' = nb_logs b \<and> first_callback b' = first_callback b"

lemma same_core_refl [simp]: "same_core b b"
  by (simp add: same_core_def)

lemma same_core_trans: "same_core b b' \<Longrightarrow> same_core b' b'' \<Longrightarrow> same_core b b''"
  by (simp add: same_core_def)

lemma update_offset_core: "same_core b (update_offset ptr f b)"
  by (cases ptr) (simp_all add: same_core_def)

lemma call_callbacks_core:
  assumes "\<And>b. same_core b (style_cb b op off sz)"
  shows "same_core b (call_callbacks style_cb ls b op off sz)"
proof (induction ls arbitrary: b)
  case (Cons l ls)
  have "same_core b (call_callback style_cb l b op off sz)"
    using assms update_offset_core by (auto simp: same_core_def split: callback_fn.split)
  with Cons.IH show ?case
    by (auto simp del: call_callback.simps intro: same_core_trans)
qed simp

lemma buf_wf_core: "same_core b b' \<Longrightarrow> buf_wf b \<Longrightarrow> buf_wf b'"
  by (simp add: same_core_def buf_wf_def)

section \<open>Log and style buffers\<close>

definition leaf_ok :: "EditBuffer0 \<Rightarrow> bool" where
  "leaf_ok b \<longleftrightarrow> buf_wf b \<and> \<not> readonly b \<and> \<not> save_log b \<and> \<not> composite b"

lemma eb_addlog0_core:
  "page_table (eb_addlog0 b op off sz) = page_table b" "total_size (eb_addlog0 b op off sz) = total_size b"
  "cur_page (eb_addlog0 b op off sz) = cur_page b" "flags (eb_addlog0 b op off sz) = flags b"
  "save_log (eb_addlog0 b op off sz) = save_log b" "composite (eb_addlog0 b op off sz) = composite b"
  using call_callbacks_core [of "\<lambda>b _ _ _. b" op off sz b "first_callback b"]
  by (simp_all add: eb_addlog0_def same_core_def)

interpretation leaf: change_log eb_addlog0 leaf_ok
proof
  fix b b' :: EditBuffer0 and op off sz
  show "leaf_ok b \<Longrightarrow> buf_wf b" by (simp add: leaf_ok_def)
  show "leaf_ok b \<Longrightarrow> leaf_ok (eb_addlog0 b op off sz)"
    by (simp add: leaf_ok_def buf_wf_def eb_addlog0_core)
  show "leaf_ok b \<Longrightarrow> repaged b b' \<Longrightarrow> leaf_ok b'"
    by (auto simp: leaf_ok_def repaged_fields)
qed (simp_all add: eb_addlog0_core)

end
