(* ===== verification/Styles.thy ===== *)
theory Styles
  imports Buffer
begin

text \<open>
  The style buffer (\<^verbatim>\<open>src/buffer.c\<close>): a second buffer that holds
  \<^verbatim>\<open>style_bytes\<close> bytes for every character of the text, kept in step with it by
  \<^verbatim>\<open>eb_style_callback\<close>. The record \<open>EditBuffer\<close> adds the pointers to the log
  buffer and to the style buffer. Styles are stored in host byte order, taken to be
  little endian.
\<close>

section \<open>Data and operations\<close>

record EditBuffer = EditBuffer0 +
  log_buffer :: "EditBuffer0 option"
  b_styles :: "EditBuffer0 option"

definition style_unit :: "nat \<Rightarrow> 64 word \<Rightarrow> byte list" where
  "style_unit shift style = map (\<lambda>i. ucast (drop_bit (8 * i) style)) [0..<2 ^ shift]"

definition style_fill :: "nat \<Rightarrow> 64 word \<Rightarrow> nat \<Rightarrow> byte list" where
  "style_fill shift style len = concat (replicate (len div 2 ^ shift) (style_unit shift style))"

function set_style_loop ::
  "nat \<Rightarrow> 64 word \<Rightarrow> LogOperation \<Rightarrow> EditBuffer0 \<Rightarrow> int \<Rightarrow> int \<Rightarrow> EditBuffer0" where
  "set_style_loop shift style op styles offset sz =
     (if sz > 0 then
        let len = min_int sz 256;
            buf = style_fill shift style (nat len);
            styles' = fst (if op = LOGOP_WRITE then eb_write0 styles offset buf
                           else eb_insert0 styles offset buf)
        in set_style_loop shift style op styles' (offset + len) (sz - len)
      else styles)"
  by pat_completeness auto
termination
  by (relation "measure (\<lambda>(shift, style, op, styles, offset, sz). nat sz)") auto

declare set_style_loop.simps [simp del]

definition eb_set_style ::
  "'a EditBuffer_scheme \<Rightarrow> 64 word \<Rightarrow> LogOperation \<Rightarrow> int \<Rightarrow> int \<Rightarrow> 'a EditBuffer_scheme" where
  "eb_set_style b style op offset sz =
     (case b_styles b of
        None \<Rightarrow> b
      | Some styles \<Rightarrow>
          if sz = 0 then b
          else let offset' = offset div 2 ^ char_shift b * 2 ^ style_shift b;
                   sz' = sz div 2 ^ char_shift b * 2 ^ style_shift b
               in (case op of
                     LOGOP_WRITE \<Rightarrow>
                       b\<lparr>b_styles := Some (set_style_loop (style_shift b) style op styles offset' sz')\<rparr>
                   | LOGOP_INSERT \<Rightarrow>
                       b\<lparr>b_styles := Some (set_style_loop (style_shift b) style op styles offset' sz')\<rparr>
                   | LOGOP_DELETE \<Rightarrow> b\<lparr>b_styles := Some (fst (eb_delete0 styles offset' sz'))\<rparr>
                   | _ \<Rightarrow> b))"

definition eb_style_callback :: "'a EditBuffer_scheme change_fn" where
  "eb_style_callback b op offset sz = eb_set_style b (cur_style b) op offset sz"

definition style_value :: "byte list \<Rightarrow> 64 word" where
  "style_value bs = foldr (\<lambda>c v. ucast c + 256 * v) bs 0"

definition eb_get_style :: "'a EditBuffer_scheme \<Rightarrow> int \<Rightarrow> 64 word" where
  "eb_get_style b offset =
     (case b_styles b of
        None \<Rightarrow> 0
      | Some styles \<Rightarrow>
          style_value (fst (eb_read styles (offset div 2 ^ char_shift b * 2 ^ style_shift b)
                              (2 ^ style_shift b))))"

definition eb_create_style_buffer :: "'a EditBuffer_scheme \<Rightarrow> 32 word \<Rightarrow> 'a EditBuffer_scheme \<times> int" where
  "eb_create_style_buffer b fl =
     (case b_styles b of
        Some _ \<Rightarrow> (b, 0)
      | None \<Rightarrow>
          let shift = unat ((fl AND BF_STYLES) div BF_STYLE1) - 1;
              b1 = b\<lparr>b_styles := Some (eb_new0 (BF_SYSTEM OR BF_IS_STYLE OR BF_RAW)),
                     flags := flags b OR (fl AND BF_STYLES),
                     style_shift := shift, style_bytes := 2 ^ shift\<rparr>;
              b2 = eb_set_style b1 0 LOGOP_INSERT 0 (total_size b1)
          in (eb_add_callback b2 StyleCallback NullPtr 0, 1))"

definition eb_free_style_buffer :: "'a EditBuffer_scheme \<Rightarrow> 'a EditBuffer_scheme" where
  "eb_free_style_buffer b =
     eb_free_callback (b\<lparr>b_styles := None, style_shift := 0, style_bytes := 0\<rparr>) StyleCallback NullPtr"

section \<open>Styling edits only the style buffer\<close>

lemma eb_set_style_core: "same_core b (eb_set_style b style op off sz)"
  by (simp add: eb_set_style_def same_core_def Let_def split: option.split LogOperation.split)

lemma eb_style_callback_core: "same_core b (eb_style_callback b op off sz)"
  by (simp add: eb_style_callback_def eb_set_style_core)

lemma eb_set_style_log: "log_buffer (eb_set_style b style op off sz) = log_buffer b"
  by (simp add: eb_set_style_def Let_def split: option.split LogOperation.split)

end
