(* ===== verification/UndoLog.thy ===== *)
theory UndoLog
  imports Styles
begin

text \<open>
  The undo system (\<^verbatim>\<open>src/buffer.c\<close>, section ``undo buffer''): every change is
  appended to the log buffer as a record made of a 12 byte header, the bytes that the
  change destroys, and the size of those bytes again, so that the log can be walked
  backwards. \<^verbatim>\<open>do_undo\<close> plays the record before \<^verbatim>\<open>log_current\<close> and is itself
  logged; \<^verbatim>\<open>do_redo\<close> plays and removes the last record. The header is the memory
  image of a \<^verbatim>\<open>LogBuffer\<close> structure on a little endian machine.
\<close>

section \<open>Log records\<close>

definition enc32 :: "int \<Rightarrow> byte list" where
  "enc32 n = (let w = word_of_int n :: 32 word
     in [ucast w, ucast (drop_bit 8 w), ucast (drop_bit 16 w), ucast (drop_bit 24 w)])"

fun dec32 :: "byte list \<Rightarrow> int" where
  "dec32 (a # b # c # d # _) =
     sint (ucast a + push_bit 8 (ucast b) + push_bit 16 (ucast c) + push_bit 24 (ucast d) :: 32 word)"
| "dec32 _ = 0"

record LogBuffer =
  lb_op :: byte
  lb_was_modified :: byte
  lb_offset :: int
  lb_size :: int

definition SIZEOF_LB :: int where "SIZEOF_LB = 12"
definition SIZEOF_INT :: int where "SIZEOF_INT = 4"
definition NB_LOGS_MAX :: int where "NB_LOGS_MAX = 100000"

fun op_code :: "LogOperation \<Rightarrow> byte" where
  "op_code LOGOP_FREE = 0"
| "op_code LOGOP_WRITE = 1"
| "op_code LOGOP_INSERT = 2"
| "op_code LOGOP_DELETE = 3"

definition enc_lb :: "LogBuffer \<Rightarrow> byte list" where
  "enc_lb lb = [10, 58, lb_op lb, lb_was_modified lb] @ enc32 (lb_offset lb) @ enc32 (lb_size lb)"

text \<open>A read that returns fewer bytes leaves the rest of the structure undefined; zero here.\<close>

definition dec_lb :: "byte list \<Rightarrow> LogBuffer" where
  "dec_lb bs0 = (let bs = bs0 @ replicate 12 0
     in \<lparr>lb_op = bs ! 2, lb_was_modified = bs ! 3,
         lb_offset = dec32 (drop 4 bs), lb_size = dec32 (drop 8 bs)\<rparr>)"

section \<open>Appending to the log\<close>

definition new_log :: "EditBuffer0" where
  "new_log = eb_new0 (BF_SYSTEM OR BF_IS_LOG OR BF_RAW)"

definition the_log :: "'a EditBuffer_scheme \<Rightarrow> EditBuffer0" where
  "the_log b = (case log_buffer b of Some l \<Rightarrow> l | None \<Rightarrow> new_log)"

definition ensure_log :: "'a EditBuffer_scheme \<Rightarrow> 'a EditBuffer_scheme" where
  "ensure_log b =
     (case log_buffer b of
        Some _ \<Rightarrow> b
      | None \<Rightarrow> b\<lparr>log_buffer := Some new_log, log_new_index := 0, log_current := 0,
                 last_log := LOGOP_FREE, last_log_char := 0, nb_logs := 0\<rparr>)"

definition drop_oldest_log :: "'a EditBuffer_scheme \<Rightarrow> 'a EditBuffer_scheme" where
  "drop_oldest_log b =
     (let (bs, log1) = eb_read (the_log b) 0 SIZEOF_LB;
          lb = dec_lb bs;
          len = (if lb_op lb = op_code LOGOP_INSERT then 0 else lb_size lb) + SIZEOF_LB + SIZEOF_INT
      in b\<lparr>log_buffer := Some (fst (eb_delete0 log1 0 len)),
           log_new_index := log_new_index b - len,
           log_current := (if log_current b > 1 then log_current b - len else log_current b),
           nb_logs := nb_logs b - 1\<rparr>)"

text \<open>
  The attempt to extend the previous insertion record; \<open>Inl\<close> is the early return after
  the record was extended, \<open>Inr\<close> the buffer when the attempt fails.
\<close>

definition coalesce_log ::
  "'a EditBuffer_scheme \<Rightarrow> LogOperation \<Rightarrow> int \<Rightarrow> int \<Rightarrow> 'a EditBuffer_scheme + 'a EditBuffer_scheme" where
  "coalesce_log b op offset sz =
     (if op = LOGOP_INSERT \<and> last_log b = LOGOP_INSERT \<and>
         log_new_index b \<ge> SIZEOF_LB + SIZEOF_INT
      then let (tr, log1) = eb_read (the_log b) (log_new_index b - SIZEOF_INT) SIZEOF_INT
           in if length tr = 4 \<and> dec32 tr = 0
              then let (bs, log2) = eb_read log1 (log_new_index b - SIZEOF_LB - SIZEOF_INT) SIZEOF_LB;
                       lb = dec_lb bs
                   in if length bs = 12 \<and> lb_op lb = op_code LOGOP_INSERT \<and>
                         lb_offset lb + lb_size lb = offset
                      then Inl (b\<lparr>log_buffer := Some (fst (eb_write0 log2
                                   (log_new_index b - SIZEOF_LB - SIZEOF_INT)
                                   (enc_lb (lb\<lparr>lb_size := lb_size lb + sz\<rparr>))))\<rparr>)
                      else Inr (b\<lparr>log_buffer := Some log2\<rparr>)
              else Inr (b\<lparr>log_buffer := Some log1\<rparr>)
      else Inr b)"

definition append_log ::
  "'a EditBuffer_scheme \<Rightarrow> LogOperation \<Rightarrow> int \<Rightarrow> int \<Rightarrow> bool \<Rightarrow> 'a EditBuffer_scheme" where
  "append_log b op offset sz was_modified =
     (let b1 = b\<lparr>last_log := op\<rparr>;
          lb = \<lparr>lb_op = op_code op, lb_was_modified = of_bool was_modified,
                lb_offset = offset, lb_size = sz\<rparr>;
          log1 = fst (eb_write0 (the_log b1) (log_new_index b1) (enc_lb lb));
          index1 = log_new_index b1 + SIZEOF_LB;
          (log2, b2, index2, trailer) =
            (if op = LOGOP_DELETE \<or> op = LOGOP_WRITE
             then let (l, b', _) = eb_insert_buffer_with eb_addlog0 log1 index1 b1 offset sz
                  in (l, b', index1 + sz, sz)
             else (log1, b1, index1, 0));
          log3 = fst (eb_write0 log2 index2 (enc32 trailer))
      in b2\<lparr>log_buffer := Some log3, log_new_index := index2 + SIZEOF_INT, nb_logs := nb_logs b2 + 1\<rparr>)"

definition eb_addlog :: "'a EditBuffer_scheme change_fn" where
  "eb_addlog b op offset sz =
     (if composite b then b
      else let b1 = call_callbacks eb_style_callback (first_callback b) b op offset sz;
               was_modified = modified b1;
               b2 = b1\<lparr>modified := True\<rparr>
           in if \<not> save_log b2 then b2
              else let b3 = ensure_log b2;
                       b4 = (if nb_logs b3 \<ge> NB_LOGS_MAX - 1 then drop_oldest_log b3 else b3)
                   in (case coalesce_log b4 op offset sz of
                         Inl b5 \<Rightarrow> b5
                       | Inr b5 \<Rightarrow> append_log b5 op offset sz was_modified))"

section \<open>The primitives of a logged buffer\<close>

definition eb_insert :: "'a EditBuffer_scheme \<Rightarrow> int \<Rightarrow> byte list \<Rightarrow> 'a EditBuffer_scheme \<times> int" where
  "eb_insert = eb_insert_with eb_addlog"

definition eb_write :: "'a EditBuffer_scheme \<Rightarrow> int \<Rightarrow> byte list \<Rightarrow> 'a EditBuffer_scheme \<times> int" where
  "eb_write = eb_write_with eb_addlog"

definition eb_delete :: "'a EditBuffer_scheme \<Rightarrow> int \<Rightarrow> int \<Rightarrow> 'a EditBuffer_scheme \<times> int" where
  "eb_delete = eb_delete_with eb_addlog"

definition eb_delete_range :: "'a EditBuffer_scheme \<Rightarrow> int \<Rightarrow> int \<Rightarrow> 'a EditBuffer_scheme \<times> int" where
  "eb_delete_range = eb_delete_range_with eb_addlog"

definition eb_replace :: "'a EditBuffer_scheme \<Rightarrow> int \<Rightarrow> int \<Rightarrow> byte list \<Rightarrow> 'a EditBuffer_scheme \<times> int" where
  "eb_replace = eb_replace_with eb_addlog"

definition eb_insert_buffer ::
  "'a EditBuffer_scheme \<Rightarrow> int \<Rightarrow> 'b EditBuffer0_scheme \<Rightarrow> int \<Rightarrow> int \<Rightarrow>
   'a EditBuffer_scheme \<times> 'b EditBuffer0_scheme \<times> int" where
  "eb_insert_buffer = eb_insert_buffer_with eb_addlog"

definition eb_free_log_buffer :: "'a EditBuffer_scheme \<Rightarrow> 'a EditBuffer_scheme" where
  "eb_free_log_buffer b = b\<lparr>log_buffer := None, log_new_index := 0, log_current := 0, nb_logs := 0\<rparr>"

definition eb_clear :: "'a EditBuffer_scheme \<Rightarrow> 'a EditBuffer_scheme" where
  "eb_clear b =
     (let b1 = b\<lparr>flags := flags b AND NOT BF_READONLY, save_log := False, composite := False,
                 last_log := LOGOP_FREE\<rparr>;
          b2 = fst (eb_delete b1 0 (total_size b1))
      in (eb_free_log_buffer b2)\<lparr>modified := False\<rparr>)"

definition eb_invalidate_raw_data :: "'a EditBuffer_scheme \<Rightarrow> 'a EditBuffer_scheme" where
  "eb_invalidate_raw_data b =
     (let b1 = b\<lparr>save_log := False, composite := False\<rparr>;
          b2 = fst (eb_delete b1 0 (total_size b1))
      in (eb_free_log_buffer b2)\<lparr>modified := False\<rparr>)"

section \<open>Undo and redo\<close>

text \<open>
  The part of the window that the two commands touch: its buffer, its offset, the region
  highlight, whether the previous command was undo or redo, and the status line.
  \<open>None\<close> is the call of \<^verbatim>\<open>abort\<close> on a record with an unknown operation.
\<close>

record 'b EditState =
  es_b :: 'b
  es_offset :: int
  es_region_style :: int
  es_last_cmd_undo :: bool
  es_status :: string

fun play_undo ::
  "'a EditBuffer_scheme \<Rightarrow> LogBuffer \<Rightarrow> int \<Rightarrow> ('a EditBuffer_scheme \<times> int) option" where
  "play_undo b lb log_index =
     (if lb_op lb = op_code LOGOP_WRITE then
        let b1 = b\<lparr>composite := True\<rparr>;
            b2 = fst (eb_delete b1 (lb_offset lb) (lb_size lb));
            (b3, l3, _) = eb_insert_buffer b2 (lb_offset lb) (the_log b2) log_index (lb_size lb);
            b4 = b3\<lparr>log_buffer := Some l3, composite := False\<rparr>
        in Some (eb_addlog b4 LOGOP_WRITE (lb_offset lb) (lb_size lb), lb_offset lb + lb_size lb)
      else if lb_op lb = op_code LOGOP_DELETE then
        let b1 = b\<lparr>composite := True\<rparr>;
            (b3, l3, _) = eb_insert_buffer b1 (lb_offset lb) (the_log b1) log_index (lb_size lb);
            b4 = b3\<lparr>log_buffer := Some l3, composite := False\<rparr>
        in Some (eb_addlog b4 LOGOP_INSERT (lb_offset lb) (lb_size lb), lb_offset lb + lb_size lb)
      else if lb_op lb = op_code LOGOP_INSERT then
        Some (fst (eb_delete b (lb_offset lb) (lb_size lb)), lb_offset lb)
      else None)"

definition do_undo ::
  "'a EditBuffer_scheme EditState \<Rightarrow> 'a EditBuffer_scheme EditState option" where
  "do_undo s =
     (let b = es_b s
      in if log_buffer b = None then Some (s\<lparr>es_status := ''No undo information''\<rparr>)
         else let s1 = s\<lparr>es_region_style := 0\<rparr>;
                  b1 = (if es_last_cmd_undo s then b else b\<lparr>log_current := 0\<rparr>);
                  log_index = (if log_current b1 = 0 then log_new_index b1 else log_current b1 - 1)
              in if log_index = 0
                 then Some (s1\<lparr>es_b := b1, es_status := ''No further undo information''\<rparr>)
                 else let index1 = log_index - SIZEOF_INT;
                          (tr, log1) = eb_read (the_log b1) index1 SIZEOF_INT;
                          index2 = index1 - (dec32 tr + SIZEOF_LB);
                          (bs, log2) = eb_read log1 index2 SIZEOF_LB;
                          lb = dec_lb bs;
                          b2 = b1\<lparr>log_buffer := Some log2, log_current := index2 + 1,
                                  last_log := LOGOP_FREE\<rparr>
                      in map_option
                           (\<lambda>(b3, off). s1\<lparr>es_b := b3\<lparr>modified := (lb_was_modified lb \<noteq> 0)\<rparr>,
                              es_offset := off, es_status := ''Undo!''\<rparr>)
                           (play_undo b2 lb (index2 + SIZEOF_LB)))"

fun play_redo ::
  "'a EditBuffer_scheme \<Rightarrow> LogBuffer \<Rightarrow> int \<Rightarrow> ('a EditBuffer_scheme \<times> int) option" where
  "play_redo b lb log_index =
     (if lb_op lb = op_code LOGOP_WRITE then
        let b1 = b\<lparr>composite := True\<rparr>;
            b2 = fst (eb_delete b1 (lb_offset lb) (lb_size lb));
            (b3, l3, _) = eb_insert_buffer b2 (lb_offset lb) (the_log b2) log_index (lb_size lb);
            b4 = b3\<lparr>log_buffer := Some l3, composite := False, save_log := False\<rparr>
        in Some ((eb_addlog b4 LOGOP_WRITE (lb_offset lb) (lb_size lb))\<lparr>save_log := True\<rparr>,
                 lb_offset lb + lb_size lb)
      else if lb_op lb = op_code LOGOP_DELETE then
        let b1 = b\<lparr>composite := True\<rparr>;
            (b3, l3, _) = eb_insert_buffer b1 (lb_offset lb) (the_log b1) log_index (lb_size lb);
            b4 = b3\<lparr>log_buffer := Some l3, composite := False, save_log := False\<rparr>
        in Some ((eb_addlog b4 LOGOP_INSERT (lb_offset lb) (lb_size lb))\<lparr>save_log := True\<rparr>,
                 lb_offset lb + lb_size lb)
      else if lb_op lb = op_code LOGOP_INSERT then
        Some ((fst (eb_delete (b\<lparr>save_log := False\<rparr>) (lb_offset lb) (lb_size lb)))\<lparr>save_log := True\<rparr>,
              lb_offset lb)
      else None)"

definition do_redo ::
  "'a EditBuffer_scheme EditState \<Rightarrow> 'a EditBuffer_scheme EditState option" where
  "do_redo s =
     (let b = es_b s
      in if log_buffer b = None then Some (s\<lparr>es_status := ''No undo information''\<rparr>)
         else let s1 = s\<lparr>es_region_style := 0\<rparr>;
                  b1 = (if es_last_cmd_undo s then b else b\<lparr>log_current := 0\<rparr>)
              in if log_current b1 = 0 \<or> log_new_index b1 = 0
                 then Some (s1\<lparr>es_b := b1, es_status := ''Nothing to redo''\<rparr>)
                 else let fwd = log_current b1 - 1;
                          (fbs, log0) = eb_read (the_log b1) fwd SIZEOF_LB;
                          flb = dec_lb fbs;
                          cur = fwd + SIZEOF_LB +
                            (if lb_op flb \<noteq> op_code LOGOP_INSERT then lb_size flb else 0) + SIZEOF_INT + 1;
                          index1 = log_new_index b1 - SIZEOF_INT;
                          (tr, log1) = eb_read log0 index1 SIZEOF_INT;
                          index2 = index1 - (dec32 tr + SIZEOF_LB);
                          (bs, log2) = eb_read log1 index2 SIZEOF_LB;
                          lb = dec_lb bs;
                          b2 = b1\<lparr>log_buffer := Some log2, log_current := cur\<rparr>
                      in map_option
                           (\<lambda>(b3, off).
                              let b4 = b3\<lparr>modified := (lb_was_modified lb \<noteq> 0)\<rparr>;
                                  log3 = fst (eb_delete0 (the_log b4) index2 (log_new_index b4 - index2));
                                  b5 = b4\<lparr>log_buffer := Some log3, log_new_index := index2,
                                     log_current := (if log_current b4 \<ge> index2 + 1 then 0
                                                     else log_current b4)\<rparr>
                              in s1\<lparr>es_b := b5, es_offset := off, es_status := ''Redo!''\<rparr>)
                           (play_redo b2 lb (index2 + SIZEOF_LB)))"

section \<open>Encoding\<close>

lemma take_bit_join:
  fixes w :: "'a::len word"
  shows "take_bit n w + push_bit n (take_bit m (drop_bit n w)) = take_bit (n + m) w"
proof -
  have "take_bit n w + push_bit n (take_bit m (drop_bit n w)) =
        take_bit n w OR push_bit n (take_bit m (drop_bit n w))"
    by (rule disjunctive_add) (auto simp: bit_simps)
  also have "\<dots> = take_bit (n + m) w"
    by (rule bit_eqI) (auto simp: bit_simps)
  finally show ?thesis .
qed

lemma ucast_byte: "(ucast (ucast (w :: 32 word) :: byte) :: 32 word) = take_bit 8 w"
  by (rule bit_eqI) (auto simp: bit_simps)

lemma enc32_word: "dec32 (enc32 n @ xs) = sint (word_of_int n :: 32 word)"
proof -
  define w where "w = (word_of_int n :: 32 word)"
  have "take_bit 8 w + push_bit 8 (take_bit 8 (drop_bit 8 w)) +
      push_bit 16 (take_bit 8 (drop_bit 16 w)) + push_bit 24 (take_bit 8 (drop_bit 24 w)) = take_bit 32 w"
    using take_bit_join [of 8 w 8] take_bit_join [of 16 w 8] take_bit_join [of 24 w 8] by simp
  also have "\<dots> = w" by (rule bit_eqI) (auto simp: bit_simps)
  finally show ?thesis
    by (simp add: enc32_def Let_def ucast_byte flip: w_def)
qed

lemma length_enc32 [simp]: "length (enc32 n) = 4"
  by (simp add: enc32_def Let_def)

lemma dec32_enc32: "- (2 ^ 31) \<le> n \<Longrightarrow> n < 2 ^ 31 \<Longrightarrow> dec32 (enc32 n @ xs) = n"
  unfolding enc32_word by (simp add: sint_sbintrunc' signed_take_bit_int_eq_self)

lemma length_enc_lb [simp]: "length (enc_lb lb) = 12"
  by (simp add: enc_lb_def)

definition fits32 :: "int \<Rightarrow> bool" where
  "fits32 n \<longleftrightarrow> - (2 ^ 31) \<le> n \<and> n < 2 ^ 31"

lemma dec_lb_enc_lb:
  assumes "fits32 (lb_offset lb)" "fits32 (lb_size lb)"
  shows "dec_lb (enc_lb lb @ xs) = lb"
proof -
  have "drop 8 (enc32 (lb_offset lb) @ enc32 (lb_size lb) @ ys) = ys'" if "drop 4 (enc32 (lb_size lb) @ ys) = ys'" for ys ys'
    using that by simp
  then show ?thesis
    using assms by (simp add: dec_lb_def enc_lb_def Let_def dec32_enc32 fits32_def)
qed

section \<open>Styles and callbacks keep the log\<close>

definition ebuf_ok :: "'a EditBuffer_scheme \<Rightarrow> bool" where
  "ebuf_ok b \<longleftrightarrow> buf_wf b \<and> (\<forall>l. log_buffer b = Some l \<longrightarrow> leaf_ok l) \<and>
     (\<forall>s. b_styles b = Some s \<longrightarrow> leaf_ok s)"

lemma set_style_loop_ok: "leaf_ok s \<Longrightarrow> leaf_ok (set_style_loop shift style op s off sz)"
proof (induction shift style op s off sz rule: set_style_loop.induct)
  case (1 shift style op s off sz)
  have "leaf_ok (fst (if op = LOGOP_WRITE then eb_write0 s off buf else eb_insert0 s off buf))" for buf
    using "1.prems" by (simp add: eb_write0_def eb_insert0_def leaf.write_correct(2) leaf.insert_correct(2))
  with 1 show ?case
    by (subst set_style_loop.simps) (simp only: Let_def if_split, blast)
qed

lemma eb_set_style_ok: "ebuf_ok b \<Longrightarrow> ebuf_ok (eb_set_style b style op off sz)"
  using buf_wf_core [OF eb_set_style_core, of b style op off sz]
  by (auto simp: ebuf_ok_def eb_set_style_log) 
     (auto simp: eb_set_style_def Let_def set_style_loop_ok eb_delete0_def leaf.delete_correct(2)
           split: option.splits if_splits LogOperation.splits)

lemma update_offset_pointers [simp]:
  "log_buffer (update_offset ptr f b) = log_buffer b" "b_styles (update_offset ptr f b) = b_styles b"
  by (cases ptr; simp)+

lemma call_callback_ok:
  assumes "ebuf_ok b"
  shows "ebuf_ok (call_callback eb_style_callback l b op off sz)"
    "log_buffer (call_callback eb_style_callback l b op off sz) = log_buffer b"
proof -
  have "buf_wf (update_offset (cb_opaque l) f b)" for f
    using assms buf_wf_core [OF update_offset_core] by (auto simp: ebuf_ok_def)
  with assms eb_set_style_ok [OF assms]
  show "ebuf_ok (call_callback eb_style_callback l b op off sz)"
    by (auto simp: ebuf_ok_def eb_style_callback_def buf_wf_def split: callback_fn.split)
qed (simp add: eb_style_callback_def eb_set_style_log split: callback_fn.split)

lemma call_callbacks_ok:
  assumes "ebuf_ok b"
  shows "ebuf_ok (call_callbacks eb_style_callback ls b op off sz)"
    "log_buffer (call_callbacks eb_style_callback ls b op off sz) = log_buffer b"
  using assms by (induction ls arbitrary: b) (simp_all add: call_callback_ok del: call_callback.simps)

section \<open>Bookkeeping keeps the text\<close>

lemma leaf_read:
  assumes "leaf_ok l"
  shows "leaf_ok (snd (eb_read l i n))" "page_table (snd (eb_read l i n)) = page_table l"
    "total_size (snd (eb_read l i n)) = total_size l"
proof -
  define c where "c = cur_page (snd (eb_read l i n))"
  have e: "snd (eb_read l i n) = l\<lparr>cur_page := c\<rparr>"
    by (simp add: c_def flip: eb_read_state)
  show "page_table (snd (eb_read l i n)) = page_table l" "total_size (snd (eb_read l i n)) = total_size l"
    by (simp_all add: e)
  show "leaf_ok (snd (eb_read l i n))"
    using assms eb_read_wf [of l i n] by (auto simp: leaf_ok_def e)
qed

definition same_text_ok :: "'a EditBuffer_scheme \<Rightarrow> 'a EditBuffer_scheme \<Rightarrow> bool" where
  "same_text_ok b b' \<longleftrightarrow> (ebuf_ok b \<longrightarrow> ebuf_ok b') \<and> page_table b' = page_table b \<and>
     total_size b' = total_size b \<and> flags b' = flags b \<and> save_log b' = save_log b \<and>
     composite b' = composite b"

lemma insert_buffer_src:
  "fst (snd (eb_insert_buffer_with addlog d i s j n)) =
   s\<lparr>cur_page := cur_page (fst (snd (eb_insert_buffer_with addlog d i s j n)))\<rparr>"
  by (simp add: eb_insert_buffer_with_def Let_def split: prod.split)

lemma leaf_new_log: "leaf_ok new_log"
  by (simp add: new_log_def leaf_ok_def buf_wf_def eb_new0_def eb_add_callback_def pages_ok_def
        BF_SYSTEM_def BF_IS_LOG_def BF_RAW_def BF_STYLES_def BF_UTF8_def BF_READONLY_def BF_SAVELOG_def)


lemma ensure_log_ok: "same_text_ok b (ensure_log b)"
  using leaf_new_log by (auto simp: same_text_ok_def ensure_log_def ebuf_ok_def buf_wf_def split: option.split)

lemma leaf_the_log: "ebuf_ok b \<Longrightarrow> leaf_ok (the_log b)"
  using leaf_new_log by (auto simp: the_log_def ebuf_ok_def split: option.split)

lemma same_text_okI:
  assumes "\<And>l. ebuf_ok b \<Longrightarrow> log_buffer b' = Some l \<Longrightarrow> leaf_ok l" "b_styles b' = b_styles b"
    "page_table b' = page_table b" "total_size b' = total_size b" "flags b' = flags b" "save_log b' = save_log b"
    "composite b' = composite b" "ebuf_ok b \<Longrightarrow> cache_ok (page_table b) (cur_page b')"
  shows "same_text_ok b b'"
proof -
  have "ebuf_ok b'" if "ebuf_ok b"
    using assms(1) [OF that] assms(2,8) that unfolding ebuf_ok_def buf_wf_def assms(3,4) by simp
  with assms(3-7) show ?thesis
    by (simp add: same_text_ok_def)
qed

lemma ebuf_cache: "ebuf_ok b \<Longrightarrow> cache_ok (page_table b) (cur_page b)"
  by (simp add: ebuf_ok_def buf_wf_def)

lemmas log_write_ok = leaf.write_correct(2) [folded eb_write0_def]
lemmas log_delete_ok = leaf.delete_correct(2) [folded eb_delete0_def]

lemma drop_oldest_log_ok: "same_text_ok b (drop_oldest_log b)"
proof (rule same_text_okI)
  fix l assume "ebuf_ok b" "log_buffer (drop_oldest_log b) = Some l"
  then show "leaf_ok l"
    by (auto simp: drop_oldest_log_def Let_def case_prod_beta leaf_read leaf_the_log log_delete_ok)
qed (simp_all add: drop_oldest_log_def Let_def case_prod_beta ebuf_cache)

lemma coalesce_log_ok:
  "coalesce_log b op off sz = Inl b' \<or> coalesce_log b op off sz = Inr b' \<Longrightarrow> same_text_ok b b'"
proof (rule same_text_okI)
  fix l assume r: "coalesce_log b op off sz = Inl b' \<or> coalesce_log b op off sz = Inr b'"
    and b: "ebuf_ok b" "log_buffer b' = Some l"
  from b(1) have "leaf_ok (the_log b)" "\<And>l. log_buffer b = Some l \<Longrightarrow> leaf_ok l"
    by (simp_all add: leaf_the_log, simp add: ebuf_ok_def)
  with r b(2) show "leaf_ok l"
    by (auto simp: coalesce_log_def Let_def case_prod_beta leaf_read log_write_ok split: if_splits)
qed (auto simp: coalesce_log_def Let_def case_prod_beta ebuf_cache split: if_splits)

lemma log_data_src:
  assumes "ebuf_ok b" "fst (snd (eb_insert_buffer_with eb_addlog0 l i b off sz)) = b'" "leaf_ok l"
  shows "same_text_ok b b'" "leaf_ok (fst (eb_insert_buffer_with eb_addlog0 l i b off sz))"
proof -
  obtain c where e: "b' = b\<lparr>cur_page := c\<rparr>"
    using insert_buffer_src [of eb_addlog0 l i b off sz] assms(2) by metis
  have wf: "buf_wf b" using assms(1) by (simp add: ebuf_ok_def)
  note ib = leaf.insert_buffer_correct [OF assms(3) wf, of i off sz]
  have "buf_wf b'" using ib(5) assms(2) by (simp add: repaged_def)
  then show "same_text_ok b b'"
    unfolding e by (intro same_text_okI) (use assms(1) in \<open>simp_all add: ebuf_ok_def buf_wf_def\<close>)
  show "leaf_ok (fst (eb_insert_buffer_with eb_addlog0 l i b off sz))" by (rule ib(2))
qed


definition log_data :: "'a EditBuffer0_scheme \<Rightarrow> LogOperation \<Rightarrow> int \<Rightarrow> int \<Rightarrow> byte list" where
  "log_data b op off sz =
     (if op = LOGOP_DELETE \<or> op = LOGOP_WRITE then take (nat sz) (drop (nat off) (btext b)) else [])"

lemma splice_at_end [simp]: "splice_at (length xs) n ys xs = xs @ ys"
  by (simp add: splice_at_def)

lemma log_write_end:
  assumes "leaf_ok l" "i = total_size l"
  shows "btext (fst (eb_write0 l i bs)) = btext l @ bs"
proof -
  have "nat i = length (btext l)" "0 \<le> i" "\<not> readonly l" using assms by (simp_all add: leaf_ok_def buf_wf_def)
  with leaf.write_correct(1) [OF assms(1), of i bs] assms(2) show ?thesis
    by (simp only: eb_write0_def) simp
qed

lemma leaf_size: "leaf_ok l \<Longrightarrow> total_size l = int (length (btext l))"
  by (simp add: leaf_ok_def buf_wf_def)

lemma append_log_eq:
  assumes "ebuf_ok b"
  obtains c l where "append_log b op off sz wm =
      b\<lparr>last_log := op, cur_page := c, log_buffer := Some l,
        log_new_index := log_new_index b + SIZEOF_LB +
          (if op = LOGOP_DELETE \<or> op = LOGOP_WRITE then sz else 0) + SIZEOF_INT, nb_logs := nb_logs b + 1\<rparr>"
    "leaf_ok l" "cache_ok (page_table b) c"
    "\<lbrakk>total_size (the_log b) = log_new_index b; op_in_range b op off sz\<rbrakk> \<Longrightarrow>
       btext l = btext (the_log b) @
         enc_lb \<lparr>lb_op = op_code op, lb_was_modified = of_bool wm, lb_offset = off, lb_size = sz\<rparr> @
         log_data b op off sz @ enc32 (int (length (log_data b op off sz)))"
proof -
  define b1 where "b1 = b\<lparr>last_log := op\<rparr>"
  define lb where "lb = \<lparr>lb_op = op_code op, lb_was_modified = of_bool wm, lb_offset = off, lb_size = sz\<rparr>"
  define log1 where "log1 = fst (eb_write0 (the_log b) (log_new_index b) (enc_lb lb))"
  define isd where "isd = (op = LOGOP_DELETE \<or> op = LOGOP_WRITE)"
  define r where "r = eb_insert_buffer_with eb_addlog0 log1 (log_new_index b + SIZEOF_LB) b1 off sz"
  define log2 where "log2 = (if isd then fst r else log1)"
  define b2 where "b2 = (if isd then fst (snd r) else b1)"
  define idx where "idx = log_new_index b + SIZEOF_LB + (if isd then sz else 0)"
  define log3 where "log3 = fst (eb_write0 log2 idx (enc32 (if isd then sz else 0)))"
  have tl: "the_log b1 = the_log b" by (simp add: b1_def the_log_def)
  have b1: "ebuf_ok b1" using assms by (simp add: b1_def ebuf_ok_def buf_wf_def)
  have ok1: "leaf_ok log1" by (simp add: log1_def log_write_ok leaf_the_log assms)
  note src = log_data_src [OF b1 refl ok1, of "log_new_index b + SIZEOF_LB" off sz, folded r_def]
  have ok2: "leaf_ok log2" using src(2) ok1 by (simp add: log2_def)
  then have ok3: "leaf_ok log3" by (simp add: log3_def log_write_ok)
  obtain c where b2eq: "b2 = b1\<lparr>cur_page := c\<rparr>"
    using insert_buffer_src [of eb_addlog0 log1 "log_new_index b + SIZEOF_LB" b1 off sz, folded r_def]
    by (cases isd) (auto simp: b2_def b1_def intro: that [of "cur_page b"])
  have "ebuf_ok b2" using src(1) b1 by (auto simp: b2_def same_text_ok_def)
  then have c: "cache_ok (page_table b) c"
    using ebuf_cache by (fastforce simp: b2eq b1_def)
  have eq: "append_log b op off sz wm =
      b2\<lparr>log_buffer := Some log3, log_new_index := idx + SIZEOF_INT, nb_logs := nb_logs b2 + 1\<rparr>"
    by (simp add: append_log_def Let_def case_prod_beta tl b2_def idx_def log3_def log2_def r_def log1_def lb_def
        isd_def flip: b1_def)
       (simp add: b1_def)
  have tx: "btext log3 = btext (the_log b) @ enc_lb lb @ log_data b op off sz @ enc32 (int (length (log_data b op off sz)))"
    if size: "total_size (the_log b) = log_new_index b" and rng: "op_in_range b op off sz"
  proof -
    have t1: "btext log1 = btext (the_log b) @ enc_lb lb"
      unfolding log1_def by (rule log_write_end) (simp_all add: leaf_the_log assms size)
    have sz1: "total_size log1 = log_new_index b + SIZEOF_LB"
      using leaf_size [OF ok1] leaf_size [OF leaf_the_log [OF assms]] size by (simp add: t1 SIZEOF_LB_def)
    have nr: "\<not> readonly log1" "0 \<le> log_new_index b + SIZEOF_LB"
      using ok1 leaf_size [OF ok1] sz1 by (auto simp: leaf_ok_def)
    have bt: "btext b1 = btext b" by (simp add: b1_def)
    have bsz: "total_size b = int (length (btext b))" using assms by (simp add: ebuf_ok_def buf_wf_def)
    have len: "isd \<Longrightarrow> length (log_data b op off sz) = nat sz"
      using rng bsz by (auto simp: op_in_range_def log_data_def isd_def split: if_splits)
    have t2: "btext log2 = btext log1 @ log_data b op off sz"
    proof (cases isd)
      case True
      with rng have "0 \<le> off" by (simp add: op_in_range_def)
      moreover from b1 have "buf_wf b1" by (simp add: ebuf_ok_def)
      ultimately show ?thesis
        using leaf.insert_buffer_correct(1) [OF ok1 \<open>buf_wf b1\<close>, of "log_new_index b + SIZEOF_LB" off sz]
          nr leaf_size [OF ok1] True
        by (simp add: log2_def r_def sz1 [symmetric] bt log_data_def isd_def)
    qed (simp add: log2_def log_data_def isd_def)
    have "idx = total_size log2"
      using leaf_size [OF ok2] leaf_size [OF ok1] sz1 len rng
      by (cases isd) (simp_all add: t2 idx_def op_in_range_def, simp add: log_data_def isd_def)
    from log_write_end [OF ok2 this] show ?thesis
      using len rng by (cases isd) (simp_all add: log3_def t2 t1 op_in_range_def, simp add: log_data_def isd_def)
  qed
  show thesis
    by (rule that [OF _ ok3 c]) (use eq b2eq tx in \<open>simp_all add: b1_def idx_def isd_def lb_def\<close>)
qed


lemma append_log_ok: "ebuf_ok b \<Longrightarrow> same_text_ok b (append_log b op off sz wm)"
  by (erule append_log_eq [where op = op and off = off and sz = sz and wm = wm])
     (rule same_text_okI; simp)

lemma same_text_ok_trans: "same_text_ok b b' \<Longrightarrow> same_text_ok b' b'' \<Longrightarrow> same_text_ok b b''"
  by (simp add: same_text_ok_def)

lemma eb_addlog_ok:
  assumes "ebuf_ok b"
  shows "same_text_ok b (eb_addlog b op off sz)"
proof (cases "composite b")
  case True
  then show ?thesis by (simp add: eb_addlog_def same_text_ok_def)
next
  case False
  define b1 where "b1 = call_callbacks eb_style_callback (first_callback b) b op off sz"
  define b2 where "b2 = b1\<lparr>modified := True\<rparr>"
  define b4 where "b4 = (if nb_logs (ensure_log b2) \<ge> NB_LOGS_MAX - 1 then drop_oldest_log (ensure_log b2)
                         else ensure_log b2)"
  have "same_core b b1" "ebuf_ok b1"
    using call_callbacks_core [OF eb_style_callback_core] call_callbacks_ok(1) [OF assms] by (auto simp: b1_def)
  then have s2: "same_text_ok b b2"
    by (simp add: b2_def same_core_def same_text_ok_def ebuf_ok_def buf_wf_def)
  have s4: "same_text_ok b b4"
    using same_text_ok_trans [OF s2 ensure_log_ok] same_text_ok_trans [OF same_text_ok_trans [OF s2 ensure_log_ok] drop_oldest_log_ok]
    by (simp add: b4_def)
  have "same_text_ok b (case coalesce_log b4 op off sz of Inl b5 \<Rightarrow> b5
      | Inr b5 \<Rightarrow> append_log b5 op off sz (modified b1))"
  proof (cases "coalesce_log b4 op off sz")
    case (Inl b5)
    with s4 coalesce_log_ok show ?thesis by (fastforce intro: same_text_ok_trans)
  next
    case (Inr b5)
    then have s5: "same_text_ok b b5" using s4 coalesce_log_ok by (fastforce intro: same_text_ok_trans)
    then have "ebuf_ok b5" using assms by (simp add: same_text_ok_def)
    from append_log_ok [OF this] s5 Inr show ?thesis by (auto intro: same_text_ok_trans)
  qed
  with s2 False show ?thesis
    unfolding eb_addlog_def Let_def b4_def b2_def b1_def by simp
qed

lemma ebuf_ok_repaged:
  assumes "ebuf_ok b" "repaged b b'"
  shows "ebuf_ok b'"
proof -
  from assms(2) have e: "b' = b\<lparr>page_table := page_table b', total_size := total_size b', cur_page := cur_page b'\<rparr>"
    by (simp add: repaged_def)
  have "log_buffer b' = log_buffer b" "b_styles b' = b_styles b"
    using arg_cong [OF e, of log_buffer] arg_cong [OF e, of b_styles] by simp_all
  with assms show ?thesis by (simp add: ebuf_ok_def repaged_def)
qed

interpretation eb: change_log eb_addlog ebuf_ok
proof
  fix b b' :: "'a EditBuffer_scheme" and op off sz
  show "ebuf_ok b \<Longrightarrow> buf_wf b" by (simp add: ebuf_ok_def)
  show "ebuf_ok b \<Longrightarrow> repaged b b' \<Longrightarrow> ebuf_ok b'" by (rule ebuf_ok_repaged)
qed (use eb_addlog_ok in \<open>auto simp: same_text_ok_def\<close>)

end
