(* ===== verification/UndoHistory.thy ===== *)
theory UndoHistory
  imports UndoLog
begin

text \<open>
  What the undo log is for. The bytes of the log buffer are the encoding of a list of
  records (\<open>log_repr\<close>); \<^verbatim>\<open>eb_addlog\<close> refines \<open>log_step\<close> on that list; playing
  the list backwards (\<open>rewind\<close>) gives the text the log started from. On top of this,
  \<^verbatim>\<open>do_undo\<close> and \<^verbatim>\<open>do_redo\<close> are shown to walk the list, one record at a
  time, over whole sessions of editing commands.
\<close>

section \<open>The log as a list of records\<close>

text \<open>
  The abstract log: a list of records, oldest first, and its encoding in the bytes of the
  log buffer. \<open>rewind\<close> plays a list of records backwards on a text.
\<close>

record undo_record =
  ur_op :: LogOperation
  ur_modified :: bool
  ur_offset :: int
  ur_size :: int
  ur_data :: "byte list"

definition ur_header :: "undo_record \<Rightarrow> LogBuffer" where
  "ur_header r = \<lparr>lb_op = op_code (ur_op r), lb_was_modified = of_bool (ur_modified r),
     lb_offset = ur_offset r, lb_size = ur_size r\<rparr>"

definition enc_record :: "undo_record \<Rightarrow> byte list" where
  "enc_record r = enc_lb (ur_header r) @ ur_data r @ enc32 (int (length (ur_data r)))"

definition enc_log :: "undo_record list \<Rightarrow> byte list" where
  "enc_log rs = concat (map enc_record rs)"

definition record_ok :: "undo_record \<Rightarrow> bool" where
  "record_ok r \<longleftrightarrow> ur_op r \<noteq> LOGOP_FREE \<and> 0 \<le> ur_offset r \<and> 0 < ur_size r \<and>
     ur_offset r + ur_size r < 2 ^ 31 \<and> length (ur_data r) = (if ur_op r = LOGOP_INSERT then 0 else nat (ur_size r))"

definition log_repr :: "'a EditBuffer_scheme \<Rightarrow> undo_record list \<Rightarrow> bool" where
  "log_repr b rs \<longleftrightarrow> ebuf_ok b \<and> list_all record_ok rs \<and>
     (case log_buffer b of
        None \<Rightarrow> rs = [] \<and> nb_logs b = 0 \<and> log_current b = 0
      | Some l \<Rightarrow> btext l = enc_log rs \<and> log_new_index b = int (length (enc_log rs)) \<and>
                  int (length rs) \<le> nb_logs b)"

text \<open>A record fits a text when the range it describes lies inside; playing one that does not is an error.\<close>

definition undo1 :: "undo_record \<Rightarrow> byte list \<Rightarrow> byte list option" where
  "undo1 r t =
     (if ur_offset r + (if ur_op r = LOGOP_DELETE then 0 else ur_size r) \<le> int (length t)
      then Some (splice_at (nat (ur_offset r)) (if ur_op r = LOGOP_DELETE then 0 else nat (ur_size r)) (ur_data r) t)
      else None)"

definition rewind :: "undo_record list \<Rightarrow> byte list \<Rightarrow> byte list option" where
  "rewind rs t = foldr (\<lambda>r ot. Option.bind ot (undo1 r)) rs (Some t)"

definition new_record :: "'a EditBuffer0_scheme \<Rightarrow> LogOperation \<Rightarrow> int \<Rightarrow> int \<Rightarrow> undo_record" where
  "new_record b op off sz = \<lparr>ur_op = op, ur_modified = modified b, ur_offset = off, ur_size = sz,
     ur_data = log_data b op off sz\<rparr>"

lemma enc_log_simps [simp]:
  "enc_log [] = []" "enc_log (r # rs) = enc_record r @ enc_log rs" "enc_log (rs @ qs) = enc_log rs @ enc_log qs"
  by (simp_all add: enc_log_def)

lemma length_enc_record [simp]: "length (enc_record r) = 16 + length (ur_data r)"
  by (simp add: enc_record_def)

lemma enc_record_nonempty [simp]: "enc_record r \<noteq> []"
  by (simp add: enc_record_def enc_lb_def)

lemma op_code_eq [simp]: "op_code op = op_code op' \<longleftrightarrow> op = op'"
  by (cases op; cases op') simp_all

lemma read_header:
  assumes "buf_wf l" "btext l = enc_log (rs @ r # qs)" "record_ok r"
  shows "fst (eb_read l (int (length (enc_log rs))) SIZEOF_LB) = enc_lb (ur_header r)"
    and "dec_lb (enc_lb (ur_header r)) = ur_header r"
proof -
  show "fst (eb_read l (int (length (enc_log rs))) SIZEOF_LB) = enc_lb (ur_header r)"
    using eb_read_text [OF assms(1)] assms(2) by (simp add: SIZEOF_LB_def enc_record_def)
  show "dec_lb (enc_lb (ur_header r)) = ur_header r"
    using dec_lb_enc_lb [of "ur_header r" "[]"] assms(3) by (simp add: ur_header_def record_ok_def fits32_def)
qed

lemma read_trailer:
  assumes "buf_wf l" "btext l = enc_log (rs @ r # qs)" "record_ok r"
    "i = int (length (enc_log (rs @ [r]))) - SIZEOF_INT"
  shows "fst (eb_read l i SIZEOF_INT) = enc32 (int (length (ur_data r)))"
    and "dec32 (enc32 (int (length (ur_data r)))) = int (length (ur_data r))"
proof -
  have i: "nat i = length (enc_log rs @ enc_lb (ur_header r) @ ur_data r)" "\<not> i < 0"
    using assms(4) by (simp_all add: SIZEOF_INT_def)
  have "btext l = (enc_log rs @ enc_lb (ur_header r) @ ur_data r) @ enc32 (int (length (ur_data r))) @ enc_log qs"
    by (simp add: assms(2) enc_record_def)
  then show "fst (eb_read l i SIZEOF_INT) = enc32 (int (length (ur_data r)))"
    unfolding eb_read_text [OF assms(1)] using i(2)
    by (simp del: append_assoc add: i(1) SIZEOF_INT_def)
  show "dec32 (enc32 (int (length (ur_data r)))) = int (length (ur_data r))"
  proof -
    have "length (ur_data r) < 2 ^ 31" using assms(3) by (auto simp: record_ok_def)
    then show ?thesis using dec32_enc32 [of "int (length (ur_data r))" "[]"] by simp
  qed
qed


lemma write_last_header:
  assumes "leaf_ok l" "btext l = enc_log (rs @ [r])" "ur_data r' = ur_data r"
  shows "btext (fst (eb_write0 l (int (length (enc_log rs))) (enc_lb (ur_header r')))) = enc_log (rs @ [r'])"
proof -
  have "\<not> readonly l" "total_size l = int (length (btext l))"
    using assms(1) by (simp_all add: leaf_ok_def buf_wf_def)
  with leaf.write_correct(1) [OF assms(1), of "int (length (enc_log rs))" "enc_lb (ur_header r')"] assms(2,3)
  show ?thesis by (simp add: eb_write0_def splice_at_def enc_record_def)
qed

lemma log_reprD:
  assumes "log_repr b rs" "log_buffer b = Some l"
  shows "leaf_ok l" "buf_wf l" "btext l = enc_log rs" "log_new_index b = int (length (enc_log rs))"
    "int (length rs) \<le> nb_logs b" "the_log b = l" "list_all record_ok rs" "ebuf_ok b"
  using assms by (auto simp: log_repr_def ebuf_ok_def the_log_def leaf_ok_def)

lemma coalesce_Inr:
  assumes "coalesce_log b op off sz = Inr b'" "log_buffer b = Some l" "leaf_ok l"
  obtains l' where "b' = b\<lparr>log_buffer := Some l'\<rparr>" "leaf_ok l'" "page_table l' = page_table l"
proof -
  have tl: "the_log b = l" using assms(2) by (simp add: the_log_def)
  have "b' = b\<lparr>log_buffer := log_buffer b'\<rparr> \<and> (\<exists>l'. log_buffer b' = Some l' \<and> leaf_ok l' \<and> page_table l' = page_table l)"
    using assms
    by (auto simp: coalesce_log_def Let_def case_prod_beta tl leaf_read split: if_splits)
  with that show thesis by metis
qed

definition coalesces :: "'a EditBuffer0_scheme \<Rightarrow> LogOperation \<Rightarrow> int \<Rightarrow> undo_record list \<Rightarrow> bool" where
  "coalesces b op off rs \<longleftrightarrow> op = LOGOP_INSERT \<and> last_log b = LOGOP_INSERT \<and> rs \<noteq> [] \<and>
     ur_op (last rs) = LOGOP_INSERT \<and> ur_offset (last rs) + ur_size (last rs) = off"

lemma coalesce_log_repr:
  assumes "log_repr b rs" "log_buffer b = Some l"
  shows "\<exists>l'. leaf_ok l' \<and>
     (if coalesces b op off rs
      then coalesce_log b op off sz = Inl (b\<lparr>log_buffer := Some l'\<rparr>) \<and>
           btext l' = enc_log (butlast rs @ [(last rs)\<lparr>ur_size := ur_size (last rs) + sz\<rparr>])
      else coalesce_log b op off sz = Inr (b\<lparr>log_buffer := Some l'\<rparr>) \<and> page_table l' = page_table l)"
proof -
  note D = log_reprD [OF assms]
  have "(\<exists>l'. coalesce_log b op off sz = Inl (b\<lparr>log_buffer := Some l'\<rparr>) \<and> coalesces b op off rs \<and> leaf_ok l' \<and>
      btext l' = enc_log (butlast rs @ [(last rs)\<lparr>ur_size := ur_size (last rs) + sz\<rparr>])) \<or>
      (\<exists>b'. coalesce_log b op off sz = Inr b') \<and> \<not> coalesces b op off rs"
  proof (cases "rs = [] \<or> op \<noteq> LOGOP_INSERT \<or> last_log b \<noteq> LOGOP_INSERT")
    case True
    with D(4) show ?thesis
      by (auto simp: coalesce_log_def coalesces_def SIZEOF_LB_def SIZEOF_INT_def)
  next
    case False
    then obtain qs r where rs: "rs = qs @ [r]" by (cases rs rule: rev_cases) auto
    have rok: "record_ok r" using D(7) by (simp add: rs)
    define l1 where "l1 = snd (eb_read l (log_new_index b - SIZEOF_INT) SIZEOF_INT)"
    define l2 where "l2 = snd (eb_read l1 (log_new_index b - SIZEOF_LB - SIZEOF_INT) SIZEOF_LB)"
    note l1 = leaf_read [OF D(1), of "log_new_index b - SIZEOF_INT" SIZEOF_INT, folded l1_def]
    note l2 = leaf_read [OF l1(1), of "log_new_index b - SIZEOF_LB - SIZEOF_INT" SIZEOF_LB, folded l2_def]
    have t: "fst (eb_read l (log_new_index b - SIZEOF_INT) SIZEOF_INT) = enc32 (int (length (ur_data r)))"
      "dec32 (enc32 (int (length (ur_data r)))) = int (length (ur_data r))"
      using read_trailer [OF D(2), of qs r "[]" "log_new_index b - SIZEOF_INT"] D(3,4) rok by (simp_all add: rs)
    have ge: "log_new_index b \<ge> SIZEOF_LB + SIZEOF_INT"
      using D(4) by (simp add: rs SIZEOF_LB_def SIZEOF_INT_def)
    show ?thesis
    proof (cases "ur_op r = LOGOP_INSERT")
      case no: False
      then have "int (length (ur_data r)) \<noteq> 0" using rok by (simp add: record_ok_def)
      with no show ?thesis
        by (simp add: coalesce_log_def coalesces_def Let_def case_prod_beta D(6) t rs)
    next
      case ins: True
      then have d: "ur_data r = []" using rok by (simp add: record_ok_def)
      have idx: "log_new_index b - SIZEOF_LB - SIZEOF_INT = int (length (enc_log qs))"
        using D(4) by (simp add: rs d SIZEOF_LB_def SIZEOF_INT_def)
      have h: "fst (eb_read l1 (log_new_index b - SIZEOF_LB - SIZEOF_INT) SIZEOF_LB) = enc_lb (ur_header r)"
        "dec_lb (enc_lb (ur_header r)) = ur_header r"
        using read_header [of l1 qs r "[]"] l1 D(3) rok by (simp_all add: idx rs leaf_ok_def)
      define r' where "r' = r\<lparr>ur_size := ur_size r + sz\<rparr>"
      have r': "ur_header r' = (ur_header r)\<lparr>lb_size := lb_size (ur_header r) + sz\<rparr>" "ur_data r' = ur_data r"
        by (simp_all add: r'_def ur_header_def)
      have "btext (fst (eb_write0 l2 (int (length (enc_log qs))) (enc_lb (ur_header r')))) = enc_log (qs @ [r'])"
        by (rule write_last_header [OF l2(1) _ r'(2)]) (simp add: l1 l2 D(3) rs)
      moreover have "coalesce_log b op off sz =
          (if ur_offset r + ur_size r = off
           then Inl (b\<lparr>log_buffer := Some (fst (eb_write0 l2 (int (length (enc_log qs))) (enc_lb (ur_header r'))))\<rparr>)
           else Inr (b\<lparr>log_buffer := Some l2\<rparr>))"
        using False ge t h ins d
        by (simp add: coalesce_log_def Let_def case_prod_beta D(6) r'(1) flip: l1_def l2_def idx)
           (simp add: ur_header_def)
      ultimately show ?thesis
        using False ins log_write_ok [OF l2(1)] by (auto simp: coalesces_def rs r'_def)
    qed
  qed
  then show ?thesis
    using coalesce_Inr [of b op off sz _ l] assms(2) D(1) by metis
qed


definition log_step ::
  "'a EditBuffer0_scheme \<Rightarrow> LogOperation \<Rightarrow> int \<Rightarrow> int \<Rightarrow> undo_record list \<Rightarrow> undo_record list" where
  "log_step b op off sz rs =
     (if coalesces b op off rs
      then butlast rs @ [(last rs)\<lparr>ur_size := ur_size (last rs) + sz\<rparr>]
      else rs @ [new_record b op off sz])"

lemma append_log_repr:
  assumes "log_repr b rs" "log_buffer b = Some l" "op_in_range b op off sz" "op \<noteq> LOGOP_FREE"
    "off + sz < 2 ^ 31"
  shows "log_repr (append_log b op off sz wm) (rs @ [(new_record b op off sz)\<lparr>ur_modified := wm\<rparr>])"
    "last_log (append_log b op off sz wm) = op"
    "nb_logs (append_log b op off sz wm) = nb_logs b + 1"
    "log_current (append_log b op off sz wm) = log_current b"
    "modified (append_log b op off sz wm) = modified b"
    "log_buffer (append_log b op off sz wm) \<noteq> None"
proof -
  note D = log_reprD [OF assms(1,2)]
  define r where "r = (new_record b op off sz)\<lparr>ur_modified := wm\<rparr>"
  have size: "total_size (the_log b) = log_new_index b"
    using leaf_size [OF D(1)] by (simp add: D(3,4,6))
  obtain c l' where e: "append_log b op off sz wm =
      b\<lparr>last_log := op, cur_page := c, log_buffer := Some l',
        log_new_index := log_new_index b + SIZEOF_LB +
          (if op = LOGOP_DELETE \<or> op = LOGOP_WRITE then sz else 0) + SIZEOF_INT, nb_logs := nb_logs b + 1\<rparr>"
    "leaf_ok l'" "cache_ok (page_table b) c"
    "btext l' = btext (the_log b) @
         enc_lb \<lparr>lb_op = op_code op, lb_was_modified = of_bool wm, lb_offset = off, lb_size = sz\<rparr> @
         log_data b op off sz @ enc32 (int (length (log_data b op off sz)))"
    using append_log_eq [OF D(8), of op off sz wm] size assms(3) by metis
  have sz: "int (length (log_data b op off sz)) = (if op = LOGOP_DELETE \<or> op = LOGOP_WRITE then sz else 0)"
    using assms(3) D(8) by (auto simp: log_data_def op_in_range_def ebuf_ok_def buf_wf_def split: if_splits)
  have r: "record_ok r"
    using assms(3-) sz by (cases op) (auto simp: record_ok_def r_def new_record_def op_in_range_def)
  have t: "btext l' = enc_log (rs @ [r])"
    by (simp add: e(4) D(3,6) enc_record_def r_def new_record_def ur_header_def)
  have "ebuf_ok (append_log b op off sz wm)"
    using append_log_ok [OF D(8)] D(8) by (simp add: same_text_ok_def)
  moreover have "log_new_index (append_log b op off sz wm) = int (length (enc_log (rs @ [r])))"
    using D(4) sz by (simp add: e(1) r_def new_record_def SIZEOF_LB_def SIZEOF_INT_def)
  ultimately show "log_repr (append_log b op off sz wm) (rs @ [(new_record b op off sz)\<lparr>ur_modified := wm\<rparr>])"
    using r D(5,7) t by (simp add: log_repr_def e(1) flip: r_def)
  show "last_log (append_log b op off sz wm) = op" "nb_logs (append_log b op off sz wm) = nb_logs b + 1"
    "log_current (append_log b op off sz wm) = log_current b" "modified (append_log b op off sz wm) = modified b"
    "log_buffer (append_log b op off sz wm) \<noteq> None"
    by (simp_all add: e(1))
qed


lemma log_repr_text_cong:
  assumes "log_repr b rs" "ebuf_ok b'" "log_buffer b' = log_buffer b" "log_new_index b' = log_new_index b"
    "nb_logs b' = nb_logs b" "log_current b' = log_current b"
  shows "log_repr b' rs"
  using assms by (simp add: log_repr_def split: option.splits)

lemma ensure_log_repr:
  assumes "log_repr b rs"
  shows "log_repr (ensure_log b) rs" "log_buffer (ensure_log b) \<noteq> None" "nb_logs (ensure_log b) = nb_logs b"
    "log_current (ensure_log b) = log_current b" "modified (ensure_log b) = modified b"
    "last_log (ensure_log b) = last_log b \<or> rs = []"
  using assms ensure_log_ok [of b]
  by (auto simp: log_repr_def ensure_log_def new_log_def eb_new0_def eb_add_callback_def same_text_ok_def
      split: option.splits)

lemma eb_addlog_repr:
  assumes repr: "log_repr b rs" and log: "save_log b" "\<not> composite b" "nb_logs b < NB_LOGS_MAX - 1"
    and rng: "op_in_range b op off sz" "op \<noteq> LOGOP_FREE" "off + sz < 2 ^ 31"
  shows "log_repr (eb_addlog b op off sz) (log_step b op off sz rs)"
    "last_log (eb_addlog b op off sz) = op"
    "nb_logs (eb_addlog b op off sz) \<le> nb_logs b + 1"
    "log_current (eb_addlog b op off sz) = log_current b"
    "modified (eb_addlog b op off sz)"
    "log_buffer (eb_addlog b op off sz) \<noteq> None"
proof -
  have ok: "ebuf_ok b" using repr by (simp add: log_repr_def)
  define b1 where "b1 = call_callbacks eb_style_callback (first_callback b) b op off sz"
  define b2 where "b2 = b1\<lparr>modified := True\<rparr>"
  define b3 where "b3 = ensure_log b2"
  have b1: "same_core b b1" "ebuf_ok b1" "log_buffer b1 = log_buffer b"
    using call_callbacks_core [OF eb_style_callback_core] call_callbacks_ok [OF ok] by (auto simp: b1_def)
  then have core: "page_table b1 = page_table b" "total_size b1 = total_size b" "modified b1 = modified b"
    "save_log b1" "composite b1 = composite b" "log_new_index b1 = log_new_index b"
    "log_current b1 = log_current b" "last_log b1 = last_log b" "nb_logs b1 = nb_logs b"
    using log(1) by (simp_all add: same_core_def)
  have r2: "log_repr b2 rs"
    using b1 core by (intro log_repr_text_cong [OF repr]) (simp_all add: b2_def ebuf_ok_def buf_wf_def)
  note r3 = ensure_log_repr [OF r2, folded b3_def]
  have p3: "page_table b3 = page_table b" "total_size b3 = total_size b"
    using ensure_log_ok [of b2] core by (simp_all add: same_text_ok_def b3_def b2_def)
  obtain l where l: "log_buffer b3 = Some l" using r3(2) by blast
  note D = log_reprD [OF r3(1) l]
  have c: "coalesces b3 op off rs = coalesces b op off rs"
    using r3(6) core(8) by (auto simp: coalesces_def b2_def)
  have step: "eb_addlog b op off sz = (case coalesce_log b3 op off sz of Inl b5 \<Rightarrow> b5
      | Inr b5 \<Rightarrow> append_log b5 op off sz (modified b))"
    using log core r3(3) by (simp add: eb_addlog_def Let_def b3_def b2_def flip: b1_def split: sum.split)
  have n3: "nb_logs b3 = nb_logs b" "log_current b3 = log_current b" "modified b3"
    using r3(3-5) core by (simp_all add: b2_def)
  obtain l' where l': "leaf_ok l'" "if coalesces b op off rs
      then coalesce_log b3 op off sz = Inl (b3\<lparr>log_buffer := Some l'\<rparr>) \<and>
           btext l' = enc_log (butlast rs @ [(last rs)\<lparr>ur_size := ur_size (last rs) + sz\<rparr>])
      else coalesce_log b3 op off sz = Inr (b3\<lparr>log_buffer := Some l'\<rparr>) \<and> page_table l' = page_table l"
    using coalesce_log_repr [OF r3(1) l, of op off sz] c by auto
  have "log_repr (eb_addlog b op off sz) (log_step b op off sz rs) \<and> last_log (eb_addlog b op off sz) = op \<and>
     nb_logs (eb_addlog b op off sz) \<le> nb_logs b + 1 \<and> log_current (eb_addlog b op off sz) = log_current b \<and>
     modified (eb_addlog b op off sz) \<and> log_buffer (eb_addlog b op off sz) \<noteq> None"
  proof (cases "coalesces b op off rs")
    case True
    then have e: "eb_addlog b op off sz = b3\<lparr>log_buffer := Some l'\<rparr>" using l'(2) step by simp
    from True obtain qs r where rs: "rs = qs @ [r]" by (cases rs rule: rev_cases) (auto simp: coalesces_def)
    then have "record_ok (r\<lparr>ur_size := ur_size r + sz\<rparr>)"
      using True D(7) rng(1,3) by (auto simp: record_ok_def coalesces_def op_in_range_def)
    moreover have "last_log b3 = op"
      using True c by (simp add: coalesces_def)
    ultimately show ?thesis
      using True l' D n3 by (simp add: e log_repr_def log_step_def rs ebuf_ok_def buf_wf_def)
  next
    case False
    define b5 where "b5 = b3\<lparr>log_buffer := Some l'\<rparr>"
    have e: "eb_addlog b op off sz = append_log b5 op off sz (modified b)"
      using False l'(2) step by (simp add: b5_def)
    have r5: "log_repr b5 rs" "log_buffer b5 = Some l'"
      using False l' D by (simp_all add: b5_def log_repr_def ebuf_ok_def buf_wf_def)
    have rng5: "op_in_range b5 op off sz"
      using rng p3 by (simp_all add: op_in_range_def b5_def)
    have "(new_record b5 op off sz)\<lparr>ur_modified := modified b\<rparr> = new_record b op off sz"
      by (simp add: new_record_def log_data_def b5_def p3)
    then show ?thesis
      using append_log_repr [OF r5 rng5 rng(2,3), of "modified b"] False n3
      by (simp add: e log_step_def) (simp add: b5_def)
  qed
  then show "log_repr (eb_addlog b op off sz) (log_step b op off sz rs)" "last_log (eb_addlog b op off sz) = op"
     "nb_logs (eb_addlog b op off sz) \<le> nb_logs b + 1" "log_current (eb_addlog b op off sz) = log_current b"
     "modified (eb_addlog b op off sz)" "log_buffer (eb_addlog b op off sz) \<noteq> None"
    by simp_all
qed


section \<open>Rewinding the log\<close>

lemma rewind_None: "foldr (\<lambda>r ot. Option.bind ot (undo1 r)) rs None = None"
  by (induction rs) simp_all

lemma rewind_snoc [simp]: "rewind (rs @ [r]) t = Option.bind (undo1 r t) (rewind rs)" "rewind [] t = Some t"
  by (cases "undo1 r t"; simp add: rewind_def rewind_None)+

definition apply_change :: "LogOperation \<Rightarrow> int \<Rightarrow> int \<Rightarrow> byte list \<Rightarrow> byte list \<Rightarrow> byte list" where
  "apply_change op off sz buf t = splice_at (nat off) (if op = LOGOP_INSERT then 0 else nat sz) buf t"

lemma undo1_new_record:
  assumes "op_in_range b op off sz" "buf_wf b" "op \<noteq> LOGOP_FREE"
    "length buf = (if op = LOGOP_DELETE then 0 else nat sz)"
  shows "undo1 (new_record b op off sz) (apply_change op off sz buf (btext b)) = Some (btext b)"
proof -
  have rng: "nat off + (if op = LOGOP_INSERT then 0 else nat sz) \<le> length (btext b)"
    using assms(1) buf_wfD(2) [OF assms(2)] by (auto simp: op_in_range_def split: if_splits)
  have "ur_data (new_record b op off sz) =
      take (if op = LOGOP_INSERT then 0 else nat sz) (drop (nat off) (btext b))"
    using assms(3) by (cases op) (simp_all add: new_record_def log_data_def)
  moreover have "off + (if op = LOGOP_DELETE then 0 else sz) \<le>
      int (length (splice_at (nat off) (if op = LOGOP_INSERT then 0 else nat sz) buf (btext b)))"
    unfolding length_splice_at [OF rng] using rng assms(1,4) by (auto simp: op_in_range_def)
  ultimately show ?thesis
    using splice_at_inverse [OF rng, of buf] assms(3,4)
    by (cases op) (simp_all add: undo1_def apply_change_def, simp_all add: new_record_def)
qed

lemma undo1_coalesced:
  assumes "ur_op r = LOGOP_INSERT" "record_ok r" "ur_offset r + ur_size r = off" "0 < sz" "off \<le> int (length t)"
    "length buf = nat sz"
  shows "undo1 (r\<lparr>ur_size := ur_size r + sz\<rparr>) (splice_at (nat off) 0 buf t) = undo1 r t"
proof -
  have r: "0 \<le> ur_offset r" "0 < ur_size r" "ur_data r = []"
    using assms(1,2) by (simp_all add: record_ok_def)
  then have off: "nat off = nat (ur_offset r) + nat (ur_size r)"
    and sz: "nat (ur_size r + sz) = nat (ur_size r) + nat sz"
    using assms(3,4) by auto
  have "nat (ur_offset r) + nat (ur_size r) \<le> length t" using off assms(5) by simp
  moreover from this assms(4-6) have "off + sz \<le> int (length (splice_at (nat off) 0 buf t))"
    by (simp add: splice_at_def)
  ultimately show ?thesis
    using assms(1,3,5,6) r(3) off by (simp add: undo1_def splice_at_def sz min_absorb2 add.assoc)
qed

lemma rewind_log_step:
  assumes "log_repr b rs" "op_in_range b op off sz" "op \<noteq> LOGOP_FREE"
    "length buf = (if op = LOGOP_DELETE then 0 else nat sz)"
  shows "rewind (log_step b op off sz rs) (apply_change op off sz buf (btext b)) = rewind rs (btext b)"
proof (cases "coalesces b op off rs")
  case True
  then obtain qs r where rs: "rs = qs @ [r]" by (cases rs rule: rev_cases) (auto simp: coalesces_def)
  have "record_ok r" "total_size b = int (length (btext b))"
    using assms(1) by (simp_all add: log_repr_def rs ebuf_ok_def buf_wf_def)
  with True assms(2,4) undo1_coalesced [of r off sz "btext b" buf] show ?thesis
    by (simp add: log_step_def rs coalesces_def apply_change_def op_in_range_def)
next
  case False
  have "buf_wf b" using assms(1) by (simp add: log_repr_def ebuf_ok_def)
  with False undo1_new_record [OF assms(2) _ assms(3,4)] show ?thesis by (simp add: log_step_def)
qed


section \<open>Edit sequences\<close>

text \<open>The commands of a session, and what each asks of the buffer.\<close>

datatype edit = Ins int "byte list" | Del int int | Wr int "byte list"

fun run_edit :: "edit \<Rightarrow> 'a EditBuffer_scheme \<Rightarrow> 'a EditBuffer_scheme" where
  "run_edit (Ins off buf) b = fst (eb_insert b off buf)"
| "run_edit (Del off sz) b = fst (eb_delete b off sz)"
| "run_edit (Wr off buf) b = fst (eb_write b off buf)"

fun edit_size :: "edit \<Rightarrow> int" where
  "edit_size (Ins off buf) = int (length buf)"
| "edit_size (Del off sz) = 0"
| "edit_size (Wr off buf) = int (length buf)"

fun edit_ops :: "edit \<Rightarrow> LogOperation set" where
  "edit_ops (Ins off buf) = {LOGOP_INSERT}"
| "edit_ops (Del off sz) = {LOGOP_DELETE}"
| "edit_ops (Wr off buf) = {LOGOP_WRITE, LOGOP_INSERT}"

definition logging :: "'a EditBuffer_scheme \<Rightarrow> bool" where
  "logging b \<longleftrightarrow> save_log b \<and> \<not> composite b \<and> \<not> readonly b"

text \<open>
  A session that started from the text \<open>t\<close> with the modified flag \<open>m\<close> and made changes of the
  kinds \<open>S\<close>: its log leads back to where it started.
\<close>

definition undoable ::
  "LogOperation set \<Rightarrow> byte list \<Rightarrow> bool \<Rightarrow> 'a EditBuffer_scheme \<Rightarrow> undo_record list \<Rightarrow> bool" where
  "undoable S t m b rs \<longleftrightarrow> log_repr b rs \<and> logging b \<and> rewind rs (btext b) = Some t \<and>
     (if rs = [] then modified b else ur_modified (hd rs)) = m \<and> list_all (\<lambda>r. ur_op r \<in> S) rs"

text \<open>A change that was logged and then made.\<close>

lemma logged_step:
  assumes l: "log_repr b rs" "logging b" and n: "nb_logs b < NB_LOGS_MAX - 1"
    and rng: "op_in_range b op off sz" "op \<noteq> LOGOP_FREE" "off + sz < 2 ^ 31"
    and b': "repaged (eb_addlog b op off sz) b'"
  shows "log_repr b' (log_step b op off sz rs)" "logging b'" "nb_logs b' \<le> nb_logs b + 1"
    "last_log b' = op" "modified b'" "log_current b' = log_current b" "log_buffer b' \<noteq> None"
proof -
  have log: "save_log b" "\<not> composite b" "ebuf_ok b"
    using l by (simp_all add: logging_def log_repr_def)
  note r = eb_addlog_repr [OF l(1) log(1,2) n rng]
  have s: "same_text_ok b (eb_addlog b op off sz)" by (rule eb_addlog_ok [OF log(3)])
  from b' have e: "b' = (eb_addlog b op off sz)\<lparr>page_table := page_table b', total_size := total_size b',
     cur_page := cur_page b'\<rparr>" by (simp add: repaged_def)
  have f: "log_buffer b' = log_buffer (eb_addlog b op off sz)"
    "log_new_index b' = log_new_index (eb_addlog b op off sz)"
    "nb_logs b' = nb_logs (eb_addlog b op off sz)" "log_current b' = log_current (eb_addlog b op off sz)"
    "last_log b' = last_log (eb_addlog b op off sz)" "modified b' = modified (eb_addlog b op off sz)"
    "save_log b' = save_log (eb_addlog b op off sz)" "composite b' = composite (eb_addlog b op off sz)"
    "flags b' = flags (eb_addlog b op off sz)"
    by (subst e; simp)+
  show "log_repr b' (log_step b op off sz rs)"
    using ebuf_ok_repaged [OF _ b'] r(1) f by (intro log_repr_text_cong [OF r(1)]) (simp_all add: log_repr_def)
  show "logging b'" "nb_logs b' \<le> nb_logs b + 1" "last_log b' = op" "modified b'" "log_current b' = log_current b"
    "log_buffer b' \<noteq> None"
    using r f s l(2) by (simp_all add: logging_def same_text_ok_def)
qed

lemma undoable_step:
  assumes "undoable S t m b rs" "nb_logs b < NB_LOGS_MAX - 1"
    "op_in_range b op off sz" "op \<noteq> LOGOP_FREE" "off + sz < 2 ^ 31"
    "length buf = (if op = LOGOP_DELETE then 0 else nat sz)"
    "repaged (eb_addlog b op off sz) b'" "btext b' = apply_change op off sz buf (btext b)" "op \<in> S"
  shows "undoable S t m b' (log_step b op off sz rs)" "nb_logs b' \<le> nb_logs b + 1"
proof -
  have "(if log_step b op off sz rs = [] then modified b' else ur_modified (hd (log_step b op off sz rs))) = m"
    using assms(1) by (cases rs rule: rev_cases)
      (auto simp: undoable_def log_step_def coalesces_def new_record_def hd_append split: if_splits)
  moreover have "list_all (\<lambda>r. ur_op r \<in> S) (log_step b op off sz rs)"
    using assms(1,9) by (cases rs rule: rev_cases) (auto simp: undoable_def log_step_def coalesces_def new_record_def)
  ultimately show "undoable S t m b' (log_step b op off sz rs)" "nb_logs b' \<le> nb_logs b + 1"
    using assms logged_step [OF _ _ assms(2-5,7), of rs] rewind_log_step [OF _ assms(3,4,6), of rs]
    by (simp_all add: undoable_def)
qed

lemma undoable_ok: "undoable S t m b rs \<Longrightarrow> ebuf_ok b" "undoable S t m b rs \<Longrightarrow> \<not> readonly b"
  by (simp_all add: undoable_def log_repr_def logging_def)

lemma ebuf_size: "ebuf_ok b \<Longrightarrow> total_size b = int (length (btext b))"
  by (simp add: ebuf_ok_def buf_wf_def)

text \<open>One command: the records it adds undo it, and the size of the text is bounded.\<close>

definition tracked ::
  "LogOperation set \<Rightarrow> byte list \<Rightarrow> bool \<Rightarrow> 'a EditBuffer_scheme \<Rightarrow> int \<Rightarrow> int \<Rightarrow> 'a EditBuffer_scheme \<Rightarrow> bool" where
  "tracked S t m b logs growth b' \<longleftrightarrow> (\<exists>rs. undoable S t m b' rs) \<and> nb_logs b' \<le> nb_logs b + logs \<and>
     total_size b' \<le> total_size b + growth"

lemma insert_tracked:
  assumes "undoable S t m b rs" "nb_logs b < NB_LOGS_MAX - 1" "total_size b + int (length buf) < 2 ^ 31"
    "LOGOP_INSERT \<in> S"
  shows "tracked S t m b 1 (int (length buf)) (fst (eb_insert b off buf))"
proof (cases "off < 0 \<or> buf = []")
  case True
  with assms undoable_ok(2) [OF assms(1)] ebuf_size [OF undoable_ok(1) [OF assms(1)]] show ?thesis
    by (auto simp: eb_insert_def eb_insert_with_def tracked_def)
next
  case False
  note ok = undoable_ok [OF assms(1)]
  let ?off = "min off (total_size b)" and ?b = "fst (eb_insert b off buf)"
  have i: "repaged (eb_addlog b LOGOP_INSERT ?off (int (length buf))) ?b"
    "op_in_range b LOGOP_INSERT ?off (int (length buf))"
    "btext ?b = splice_at (nat ?off) 0 buf (btext b)"
    using False eb.insert_repaged [OF ok(1,2)] by (simp_all add: eb_insert_def)
  have "nat ?off \<le> length (btext b)" using ebuf_size [OF ok(1)] by auto
  then have "total_size ?b = total_size b + int (length buf)"
    using ebuf_size [OF ok(1)] ebuf_size [OF eb.insert_correct(2) [OF ok(1), folded eb_insert_def]] i(3)
    by (simp add: length_splice_at)
  moreover have "?off + int (length buf) < 2 ^ 31" using assms(3) by simp
  ultimately show ?thesis
    using undoable_step [OF assms(1,2) i(2) _ _ _ i(1), of buf] i(3) assms(4)
    by (auto simp: tracked_def apply_change_def)
qed

lemma delete_tracked:
  assumes "undoable S t m b rs" "nb_logs b < NB_LOGS_MAX - 1" "total_size b < 2 ^ 31"
    "LOGOP_DELETE \<in> S"
  shows "tracked S t m b 1 0 (fst (eb_delete b off sz))"
proof (cases "off < 0 \<or> off \<ge> total_size b \<or> sz \<le> 0")
  case True
  with assms undoable_ok(2) [OF assms(1)] show ?thesis
    by (auto simp: eb_delete_def eb_delete_with_def tracked_def)
next
  case False
  note ok = undoable_ok [OF assms(1)]
  let ?sz = "min sz (total_size b - off)" and ?b = "fst (eb_delete b off sz)"
  have i: "repaged (eb_addlog b LOGOP_DELETE off ?sz) ?b" "op_in_range b LOGOP_DELETE off ?sz"
    "btext ?b = splice_at (nat off) (nat ?sz) [] (btext b)"
    using False eb.delete_repaged [OF ok(1,2)] by (simp_all add: eb_delete_def)
  have "length (btext ?b) \<le> length (btext b)"
    unfolding i(3) by (simp add: splice_at_def)
  then have "total_size ?b \<le> total_size b"
    using ebuf_size [OF ok(1)] ebuf_size [OF eb.delete_correct(2) [OF ok(1), folded eb_delete_def]] by simp
  moreover have "off + ?sz < 2 ^ 31" using assms(3) by simp
  ultimately show ?thesis
    using undoable_step [OF assms(1,2) i(2) _ _ _ i(1), of "[]"] i(3) assms(4) False
    by (auto simp: tracked_def apply_change_def)
qed

lemma overwrite_tracked:
  assumes "undoable S t m b rs" "nb_logs b < NB_LOGS_MAX - 1" "total_size b < 2 ^ 31"
    "off + int (length buf) \<le> total_size b" "LOGOP_WRITE \<in> S"
  shows "tracked S t m b 1 0 (fst (eb_write b off buf))"
proof (cases "off < 0 \<or> buf = []")
  case True
  with assms undoable_ok(2) [OF assms(1)] show ?thesis
    by (auto simp: eb_write_def eb_write_with_def tracked_def)
next
  case False
  note ok = undoable_ok [OF assms(1)]
  let ?b = "fst (eb_write b off buf)"
  have i: "repaged (eb_addlog b LOGOP_WRITE off (int (length buf))) ?b" "op_in_range b LOGOP_WRITE off (int (length buf))"
    "btext ?b = splice_at (nat off) (length buf) buf (btext b)"
    using False eb.write_repaged [OF ok(1,2)] assms(4) by (simp_all add: eb_write_def)
  have "nat off + length buf \<le> length (btext b)" using ebuf_size [OF ok(1)] assms(4) False by auto
  then have "total_size ?b = total_size b"
    using ebuf_size [OF ok(1)] ebuf_size [OF eb.write_correct(2) [OF ok(1), folded eb_write_def]] i(3)
    by (simp add: length_splice_at)
  with undoable_step [OF assms(1,2) i(2) _ _ _ i(1), of buf] i(3) assms(3-5) False show ?thesis
    by (auto simp: tracked_def apply_change_def)
qed

lemma write_tracked:
  assumes "undoable S t m b rs" "nb_logs b < NB_LOGS_MAX - 2" "total_size b + int (length buf) < 2 ^ 31"
    "{LOGOP_WRITE, LOGOP_INSERT} \<subseteq> S"
  shows "tracked S t m b 2 (int (length buf)) (fst (eb_write b off buf))"
proof (cases "off < 0 \<or> off > total_size b \<or> off + int (length buf) \<le> total_size b")
  case True
  then consider "off + int (length buf) \<le> total_size b" | "off < 0 \<or> off > total_size b" by blast
  then show ?thesis
  proof cases
    case 1
    with overwrite_tracked [OF assms(1), of off buf] assms(2-4) show ?thesis by (auto simp: tracked_def)
  next
    case 2
    with assms(1) undoable_ok(2) [OF assms(1)] ebuf_size [OF undoable_ok(1) [OF assms(1)]] show ?thesis
      by (auto simp: eb_write_def eb_write_with_def tracked_def)
  qed
next
  case False
  note ok = undoable_ok [OF assms(1)]
  define n where "n = nat (total_size b - off)"
  define b1 where "b1 = fst (eb_write b off (take n buf))"
  have n: "off + int (length (take n buf)) = total_size b" "int (length (drop n buf)) \<le> int (length buf)"
    using False by (auto simp: n_def)
  have e: "fst (eb_write b off buf) = fst (eb_insert b1 (total_size b) (drop n buf))"
    unfolding eb_write_def eb_insert_def b1_def
    by (rule eb.write_beyond_end) (use False ok(2) in \<open>auto simp: n_def\<close>)
  have "tracked S t m b 1 0 b1"
    unfolding b1_def using overwrite_tracked [OF assms(1), of off "take n buf"] assms(2-4) n(1) by simp
  then obtain rs1 where b1: "undoable S t m b1 rs1" "nb_logs b1 \<le> nb_logs b + 1" "total_size b1 \<le> total_size b"
    by (auto simp: tracked_def)
  have "tracked S t m b1 1 (int (length (drop n buf))) (fst (eb_insert b1 (total_size b) (drop n buf)))"
    by (rule insert_tracked [OF b1(1)]) (use b1(2,3) assms(2-4) n(2) in simp_all)
  with b1(2,3) n(2) show ?thesis
    by (auto simp: e tracked_def)
qed


lemma run_edit_tracked:
  assumes "undoable S t m b rs" "nb_logs b < NB_LOGS_MAX - 2" "total_size b + edit_size e < 2 ^ 31"
    "edit_ops e \<subseteq> S"
  shows "tracked S t m b 2 (edit_size e) (run_edit e b)"
proof (cases e)
  case (Ins off buf)
  with insert_tracked [OF assms(1), of buf off] assms(2-4) show ?thesis by (auto simp: tracked_def)
next
  case (Del off sz)
  with delete_tracked [OF assms(1), of off sz] assms(2-4) show ?thesis by (auto simp: tracked_def)
next
  case (Wr off buf)
  with write_tracked [OF assms(1,2), of buf off] assms(3,4) show ?thesis by (simp add: tracked_def)
qed

lemma edit_size_nonneg [simp]: "0 \<le> edit_size e"
  by (cases e) simp_all

lemma run_edits_tracked:
  assumes "undoable S t m b rs" "nb_logs b + 2 * int (length es) < NB_LOGS_MAX"
    "total_size b + sum_list (map edit_size es) < 2 ^ 31"
    "list_all (\<lambda>e. edit_ops e \<subseteq> S) es"
  shows "tracked S t m b (2 * int (length es)) (sum_list (map edit_size es)) (fold run_edit es b)"
  using assms
proof (induction es arbitrary: b rs)
  case Nil
  then show ?case by (auto simp: tracked_def)
next
  case (Cons e es)
  have nn: "0 \<le> sum_list (map edit_size es)" by (induction es) simp_all
  have "tracked S t m b 2 (edit_size e) (run_edit e b)"
    using Cons.prems nn by (intro run_edit_tracked [OF Cons.prems(1)]) simp_all
  then obtain rs1 where 1: "undoable S t m (run_edit e b) rs1" "nb_logs (run_edit e b) \<le> nb_logs b + 2"
    "total_size (run_edit e b) \<le> total_size b + edit_size e"
    by (auto simp: tracked_def)
  with Cons.IH [OF 1(1)] Cons.prems(2-4) show ?case
    by (auto simp: tracked_def)
qed


section \<open>Undo\<close>

lemma eb_addlog_composite: "composite b \<Longrightarrow> eb_addlog b op off sz = b"
  by (simp add: eb_addlog_def)

lemma ebuf_ok_update [simp]:
  "ebuf_ok (b\<lparr>composite := x\<rparr>) = ebuf_ok b" "ebuf_ok (b\<lparr>save_log := x\<rparr>) = ebuf_ok b"
  "ebuf_ok (b\<lparr>log_current := i\<rparr>) = ebuf_ok b" "ebuf_ok (b\<lparr>last_log := lg\<rparr>) = ebuf_ok b"
  "ebuf_ok (b\<lparr>modified := x\<rparr>) = ebuf_ok b" "ebuf_ok (b\<lparr>log_new_index := i\<rparr>) = ebuf_ok b"
  by (simp_all add: ebuf_ok_def buf_wf_def)

lemma repaged_log:
  fixes b b' :: "'a EditBuffer_scheme"
  assumes "repaged b b'"
  shows "log_buffer b' = log_buffer b" "log_new_index b' = log_new_index b" "nb_logs b' = nb_logs b"
    "log_current b' = log_current b" "last_log b' = last_log b" "save_log b' = save_log b" "flags b' = flags b"
    "composite b' = composite b" "modified b' = modified b"
proof -
  from assms have e: "b' = b\<lparr>page_table := page_table b', total_size := total_size b', cur_page := cur_page b'\<rparr>"
    by (simp add: repaged_def)
  show "log_buffer b' = log_buffer b" "log_new_index b' = log_new_index b" "nb_logs b' = nb_logs b"
    "log_current b' = log_current b" "last_log b' = last_log b" "save_log b' = save_log b" "flags b' = flags b"
    "composite b' = composite b" "modified b' = modified b"
    by (subst e; simp)+
qed

text \<open>The phase of undo and redo that copies the data of a record back, with the log disabled.\<close>

lemma composite_restore:
  assumes l: "log_repr b rs" "logging b" "log_buffer b = Some l" "rs = ps @ r # qs"
    and r: "ur_op r \<noteq> LOGOP_INSERT" "ur_offset r \<le> total_size b1" and b1: "repaged (b\<lparr>composite := True\<rparr>) b1"
    and b3: "eb_insert_buffer b1 (ur_offset r) (the_log b1) (int (length (enc_log ps)) + SIZEOF_LB) (ur_size r) = (b3, l3, n)"
    and b4: "b4 = b3\<lparr>log_buffer := Some l3, composite := False\<rparr>"
  shows "log_repr b4 rs" "logging b4" "btext b4 = splice_at (nat (ur_offset r)) 0 (ur_data r) (btext b1)"
    "nb_logs b4 = nb_logs b" "log_current b4 = log_current b" "last_log b4 = last_log b" "log_buffer b4 = Some l3"
proof -
  note D = log_reprD [OF l(1,3)]
  have rok: "record_ok r" using D(7) l(4) by simp
  have ok1: "ebuf_ok b1"
    by (rule ebuf_ok_repaged [OF _ b1]) (simp add: D(8))
  note f1 = repaged_log [OF b1]
  have nr: "\<not> readonly b1" "composite b1" "the_log b1 = l"
    using l(2,3) f1 by (simp_all add: logging_def the_log_def)
  have idx: "0 \<le> int (length (enc_log ps)) + SIZEOF_LB"
    "int (length (enc_log ps)) + SIZEOF_LB < total_size l"
    "min (ur_size r) (total_size l - (int (length (enc_log ps)) + SIZEOF_LB)) = ur_size r"
    using leaf_size [OF D(1)] D(3) l(4) rok r(1) by (auto simp: SIZEOF_LB_def record_ok_def)
  have d: "take (nat (ur_size r)) (drop (nat (int (length (enc_log ps)) + SIZEOF_LB)) (btext l)) = ur_data r"
  proof -
    have "btext l = (enc_log ps @ enc_lb (ur_header r)) @ ur_data r @ enc32 (int (length (ur_data r))) @ enc_log qs"
      using D(3) l(4) by (simp add: enc_record_def)
    moreover have "nat (int (length (enc_log ps)) + SIZEOF_LB) = length (enc_log ps @ enc_lb (ur_header r))"
      by (simp add: SIZEOF_LB_def)
    ultimately show ?thesis
      using rok r(1) by (simp del: append_assoc add: record_ok_def)
  qed
  have ro: "0 \<le> ur_offset r" "0 < ur_size r" "min (ur_offset r) (total_size b1) = ur_offset r"
    using rok r(2) by (simp_all add: record_ok_def)
  note i = eb.insert_buffer_repaged [OF ok1 D(2) nr(1) ro(1) idx(1,2) ro(2),
      unfolded eb_addlog_composite [OF nr(2)] ro(3) idx(3) d]
  have eq: "eb_insert_buffer_with eb_addlog b1 (ur_offset r) l (int (length (enc_log ps)) + SIZEOF_LB) (ur_size r) = (b3, l3, n)"
    using b3 nr(3) by (simp add: eb_insert_buffer_def)
  have rp: "repaged b1 b3" "btext b3 = splice_at (nat (ur_offset r)) 0 (ur_data r) (btext b1)" "repaged l l3"
    using i(1,3,5) by (simp_all add: eq)
  have "l3 = l\<lparr>cur_page := cur_page l3\<rparr>"
    using insert_buffer_src [of eb_addlog b1 "ur_offset r" l "int (length (enc_log ps)) + SIZEOF_LB" "ur_size r"]
    by (simp only: eq fst_conv snd_conv)
  from arg_cong [OF this, of page_table] have l3: "page_table l3 = page_table l" "leaf_ok l3"
    using leaf.inv_repaged [OF D(1) rp(3)] by simp_all
  note f3 = repaged_log [OF rp(1)]
  have ok3: "ebuf_ok b3" by (rule ebuf_ok_repaged [OF ok1 rp(1)])
  show "log_repr b4 rs"
    using l(1,3) ok3 l3 f1 f3 D(3) by (simp add: b4 log_repr_def ebuf_ok_def buf_wf_def)
  show "logging b4" "btext b4 = splice_at (nat (ur_offset r)) 0 (ur_data r) (btext b1)"
    "nb_logs b4 = nb_logs b" "log_current b4 = log_current b" "last_log b4 = last_log b" "log_buffer b4 = Some l3"
    using l(2) f1 f3 rp(2) by (simp_all add: b4 logging_def)
qed


text \<open>What undo of a record logs: the inverse change, with the data of the text it leaves behind.\<close>

definition inverse_op :: "LogOperation \<Rightarrow> LogOperation" where
  "inverse_op op = (case op of LOGOP_INSERT \<Rightarrow> LOGOP_DELETE | LOGOP_DELETE \<Rightarrow> LOGOP_INSERT | _ \<Rightarrow> op)"

definition undone ::
  "'a EditBuffer_scheme \<Rightarrow> undo_record list \<Rightarrow> undo_record \<Rightarrow> byte list \<Rightarrow> 'a EditBuffer_scheme \<Rightarrow> undo_record \<Rightarrow> bool" where
  "undone b rs r t b' q \<longleftrightarrow> btext b' = t \<and> log_repr b' (rs @ [q]) \<and> logging b' \<and>
     nb_logs b' \<le> nb_logs b + 1 \<and> log_current b' = log_current b \<and> log_buffer b' \<noteq> None \<and>
     ur_op q = inverse_op (ur_op r) \<and> ur_offset q = ur_offset r \<and> ur_size q = ur_size r \<and>
     undo1 q t = Some (if ur_op r = LOGOP_WRITE then t else btext b)"

lemma no_coalesce: "last_log b = LOGOP_FREE \<or> op \<noteq> LOGOP_INSERT \<Longrightarrow>
    log_step b op off sz rs = rs @ [new_record b op off sz]"
  by (auto simp: log_step_def coalesces_def)

lemma undo_insert:
  assumes l: "log_repr b rs" "logging b" "rs = ps @ r # qs" and n: "nb_logs b < NB_LOGS_MAX - 1"
    and t: "undo1 r (btext b) = Some t" and op: "ur_op r = LOGOP_INSERT"
  shows "undone b rs r t (fst (eb_delete b (ur_offset r) (ur_size r))) (new_record b LOGOP_DELETE (ur_offset r) (ur_size r))"
proof -
  let ?b = "fst (eb_delete b (ur_offset r) (ur_size r))"
  have ok: "ebuf_ok b" "\<not> readonly b" "record_ok r"
    using l by (simp_all add: log_repr_def logging_def)
  then have r: "0 \<le> ur_offset r" "0 < ur_size r" "ur_offset r + ur_size r \<le> total_size b"
    "ur_offset r + ur_size r < 2 ^ 31" "ur_data r = []"
    using t op ebuf_size [OF ok(1)] by (auto simp: record_ok_def undo1_def split: if_splits)
  have lt: "ur_offset r < total_size b" and m: "min (ur_size r) (total_size b - ur_offset r) = ur_size r"
    using r by simp_all
  note d = eb.delete_repaged [OF ok(1,2) r(1) lt r(2), unfolded m, folded eb_delete_def]
  note s = logged_step [OF l(1,2) n d(2) _ r(4) d(1)]
  have "btext ?b = t"
    using d(3) t op r by (simp add: undo1_def split: if_splits)
  moreover have "undo1 (new_record b LOGOP_DELETE (ur_offset r) (ur_size r)) (btext ?b) = Some (btext b)"
    using undo1_new_record [OF d(2) eb.inv_wf [OF ok(1)], of "[]"] d(3) by (simp add: apply_change_def)
  ultimately show ?thesis
    using s op by (simp add: undone_def no_coalesce inverse_op_def) (simp add: new_record_def)
qed

lemma undo_delete:
  assumes l: "log_repr b rs" "logging b" "log_buffer b = Some l" "rs = ps @ r # qs" "last_log b = LOGOP_FREE"
    and n: "nb_logs b < NB_LOGS_MAX - 1" and t: "undo1 r (btext b) = Some t" and op: "ur_op r = LOGOP_DELETE"
    and b3: "eb_insert_buffer (b\<lparr>composite := True\<rparr>) (ur_offset r) (the_log b) (int (length (enc_log ps)) + SIZEOF_LB)
       (ur_size r) = (b3, l3, m)"
    and b4: "b4 = b3\<lparr>log_buffer := Some l3, composite := False\<rparr>"
  shows "undone b rs r t (eb_addlog b4 LOGOP_INSERT (ur_offset r) (ur_size r))
     (new_record b4 LOGOP_INSERT (ur_offset r) (ur_size r))"
proof -
  have ok: "ebuf_ok b" "record_ok r" using l by (simp_all add: log_repr_def)
  then have r: "0 \<le> ur_offset r" "0 < ur_size r" "ur_offset r \<le> total_size b"
    "ur_offset r + ur_size r < 2 ^ 31" "length (ur_data r) = nat (ur_size r)"
    using t op ebuf_size [OF ok(1)] by (auto simp: record_ok_def undo1_def split: if_splits)
  have b1: "repaged (b\<lparr>composite := True\<rparr>) (b\<lparr>composite := True\<rparr>)"
    by (rule repaged_refl) (use eb.inv_wf [of "b\<lparr>composite := True\<rparr>"] ok in simp)
  have tl: "the_log (b\<lparr>composite := True\<rparr>) = the_log b" by (simp add: the_log_def)
  have "ur_op r \<noteq> LOGOP_INSERT" "ur_offset r \<le> total_size (b\<lparr>composite := True\<rparr>)" using op r by simp_all
  note c = composite_restore [OF l(1-4) this b1 _ b4, unfolded tl, OF b3]
  have ok4: "ebuf_ok b4" using c(1) by (simp add: log_repr_def)
  have t4: "btext b4 = t" "nat (ur_offset r) \<le> length (btext b)"
    using c(3) t op ebuf_size [OF ok(1)] r by (auto simp: undo1_def split: if_splits)
  have rng: "op_in_range b4 LOGOP_INSERT (ur_offset r) (ur_size r)"
    using r ebuf_size [OF ok4] ebuf_size [OF ok(1)] c(3) t4(2) by (simp add: op_in_range_def length_splice_at)
  have rp: "repaged (eb_addlog b4 LOGOP_INSERT (ur_offset r) (ur_size r)) (eb_addlog b4 LOGOP_INSERT (ur_offset r) (ur_size r))"
    by (rule repaged_refl) (rule eb.inv_wf [OF eb.addlog_inv [OF ok4 rng]])
  have n4: "nb_logs b4 < NB_LOGS_MAX - 1" using n c(4) by simp
  note s = logged_step [OF c(1,2) n4 rng _ r(4) rp]
  have "undo1 (new_record b4 LOGOP_INSERT (ur_offset r) (ur_size r)) t = Some (btext b)"
    using splice_at_inverse [of "nat (ur_offset r)" 0 "btext b" "ur_data r"] c(3) t4 r ebuf_size [OF ok(1)]
    by (auto simp: undo1_def new_record_def log_data_def length_splice_at)
  moreover have "page_table (eb_addlog b4 LOGOP_INSERT (ur_offset r) (ur_size r)) = page_table b4"
    by (rule eb.addlog_pages [OF ok4])
  ultimately show ?thesis
    using s op c(4-7) l(5) t4(1) by (simp add: undone_def no_coalesce inverse_op_def) (simp add: new_record_def)
qed


lemma undo_write:
  assumes l: "log_repr b rs" "logging b" "log_buffer b = Some l" "rs = ps @ r # qs"
    and n: "nb_logs b < NB_LOGS_MAX - 1" and t: "undo1 r (btext b) = Some t" and op: "ur_op r = LOGOP_WRITE"
    and b1: "b1 = fst (eb_delete (b\<lparr>composite := True\<rparr>) (ur_offset r) (ur_size r))"
    and b3: "eb_insert_buffer b1 (ur_offset r) (the_log b1) (int (length (enc_log ps)) + SIZEOF_LB)
       (ur_size r) = (b3, l3, m)"
    and b4: "b4 = b3\<lparr>log_buffer := Some l3, composite := False\<rparr>"
  shows "undone b rs r t (eb_addlog b4 LOGOP_WRITE (ur_offset r) (ur_size r))
     (new_record b4 LOGOP_WRITE (ur_offset r) (ur_size r))"
proof -
  have ok: "ebuf_ok b" "record_ok r" "\<not> readonly b" using l by (simp_all add: log_repr_def logging_def)
  then have r: "0 \<le> ur_offset r" "0 < ur_size r" "ur_offset r + ur_size r \<le> total_size b"
    "ur_offset r + ur_size r < 2 ^ 31" "length (ur_data r) = nat (ur_size r)"
    using t op ebuf_size [OF ok(1)] by (auto simp: record_ok_def undo1_def split: if_splits)
  have okc: "ebuf_ok (b\<lparr>composite := True\<rparr>)" "\<not> readonly (b\<lparr>composite := True\<rparr>)"
    "ur_offset r < total_size (b\<lparr>composite := True\<rparr>)"
    "min (ur_size r) (total_size (b\<lparr>composite := True\<rparr>) - ur_offset r) = ur_size r"
    using ok r by simp_all
  have "eb_addlog (b\<lparr>composite := True\<rparr>) o' i z = b\<lparr>composite := True\<rparr>" for o' i z
    by (rule eb_addlog_composite) simp
  note d = eb.delete_repaged [OF okc(1,2) r(1) okc(3) r(2), unfolded okc(4) this, folded eb_delete_def, folded b1]
  have len: "nat (ur_offset r) + nat (ur_size r) \<le> length (btext b)"
    using r ebuf_size [OF ok(1)] by auto
  have t1: "btext b1 = splice_at (nat (ur_offset r)) (nat (ur_size r)) [] (btext b)" using d(3) by simp
  have ok1: "ebuf_ok b1" by (rule ebuf_ok_repaged [OF okc(1) d(1)])
  have "total_size b1 = total_size b - ur_size r"
    using ebuf_size [OF ok(1)] ebuf_size [OF ok1] len r by (simp add: t1 length_splice_at)
  then have b1r: "ur_op r \<noteq> LOGOP_INSERT" "ur_offset r \<le> total_size b1" using op r by simp_all
  note c = composite_restore [OF l(1-4) b1r d(1) b3 b4]
  have ok4: "ebuf_ok b4" using c(1) by (simp add: log_repr_def)
  have t4: "btext b4 = t"
    using c(3) t op t1 len by (auto simp: undo1_def splice_at_def split: if_splits)
  moreover have "length t = length (btext b)"
    using t op length_splice_at [OF len, of "ur_data r"] r(5) len by (simp add: undo1_def split: if_splits)
  ultimately have sz4: "total_size b4 = total_size b"
    using ebuf_size [OF ok(1)] ebuf_size [OF ok4] by simp
  then have rng: "op_in_range b4 LOGOP_WRITE (ur_offset r) (ur_size r)" using r by (simp add: op_in_range_def)
  have rp: "repaged (eb_addlog b4 LOGOP_WRITE (ur_offset r) (ur_size r)) (eb_addlog b4 LOGOP_WRITE (ur_offset r) (ur_size r))"
    by (rule repaged_refl) (rule eb.inv_wf [OF eb.addlog_inv [OF ok4 rng]])
  have n4: "nb_logs b4 < NB_LOGS_MAX - 1" using n c(4) by simp
  note s = logged_step [OF c(1,2) n4 rng _ r(4) rp]
  have "splice_at k j (take j (drop k xs)) xs = xs" for k j and xs :: "byte list"
    by (simp add: splice_at_def take_drop_split)
  then have "undo1 (new_record b4 LOGOP_WRITE (ur_offset r) (ur_size r)) t = Some t"
    using r sz4 ebuf_size [OF ok4] t4 by (simp add: undo1_def new_record_def log_data_def)
  moreover have "page_table (eb_addlog b4 LOGOP_WRITE (ur_offset r) (ur_size r)) = page_table b4"
    by (rule eb.addlog_pages [OF ok4])
  ultimately show ?thesis
    using s op c(4-7) t4 by (simp add: undone_def no_coalesce inverse_op_def) (simp add: new_record_def)
qed

lemma play_undo_correct:
  assumes l: "log_repr b rs" "logging b" "log_buffer b = Some l" "rs = ps @ r # qs" "last_log b = LOGOP_FREE"
    and n: "nb_logs b < NB_LOGS_MAX - 1" and t: "undo1 r (btext b) = Some t"
  obtains b' q where
    "play_undo b (ur_header r) (int (length (enc_log ps)) + SIZEOF_LB) =
       Some (b', if ur_op r = LOGOP_INSERT then ur_offset r else ur_offset r + ur_size r)"
    "undone b rs r t b' q"
proof -
  have "record_ok r" using l(1,4) by (simp add: log_repr_def)
  then consider "ur_op r = LOGOP_INSERT" | "ur_op r = LOGOP_DELETE" | "ur_op r = LOGOP_WRITE"
    by (cases "ur_op r") (auto simp: record_ok_def)
  then show thesis
  proof cases
    case 1
    from that [OF _ undo_insert [OF l(1,2,4) n t 1]] 1 show thesis by (simp add: ur_header_def)
  next
    case 2
    obtain b3 l3 m where b3: "eb_insert_buffer (b\<lparr>composite := True\<rparr>) (ur_offset r) (the_log b)
        (int (length (enc_log ps)) + SIZEOF_LB) (ur_size r) = (b3, l3, m)" by (metis prod_cases3)
    from that [OF _ undo_delete [OF l n t 2 b3 refl]] 2 b3 show thesis
      by (simp add: ur_header_def the_log_def)
  next
    case 3
    define b1 where "b1 = fst (eb_delete (b\<lparr>composite := True\<rparr>) (ur_offset r) (ur_size r))"
    obtain b3 l3 m where b3: "eb_insert_buffer b1 (ur_offset r) (the_log b1)
        (int (length (enc_log ps)) + SIZEOF_LB) (ur_size r) = (b3, l3, m)" by (metis prod_cases3)
    from that [OF _ undo_write [OF l(1-4) n t 3 b1_def b3 refl]] 3 b3 show thesis
      by (simp add: ur_header_def flip: b1_def)
  qed
qed

text \<open>
  The record that \<^verbatim>\<open>do_undo\<close> will play: the last one of the log when the previous
  command was not undo or redo, else the last one before \<^verbatim>\<open>log_current\<close>.
\<close>

definition undo_prefix :: "'a EditBuffer_scheme EditState \<Rightarrow> undo_record list \<Rightarrow> undo_record list \<Rightarrow> bool" where
  "undo_prefix s rs ps \<longleftrightarrow>
     (if es_last_cmd_undo s \<and> log_current (es_b s) \<noteq> 0
      then log_current (es_b s) = int (length (enc_log ps)) + 1 \<and> (\<exists>qs. rs = ps @ qs)
      else ps = rs)"

lemma do_undo_step:
  assumes l: "log_repr (es_b s) rs" "logging (es_b s)" "log_buffer (es_b s) \<noteq> None"
    and p: "undo_prefix s rs (ps @ [r])"
    and n: "nb_logs (es_b s) < NB_LOGS_MAX - 1" and t: "undo1 r (btext (es_b s)) = Some t"
  obtains s' q where "do_undo s = Some s'" "btext (es_b s') = t" "log_repr (es_b s') (rs @ [q])" "logging (es_b s')"
    "nb_logs (es_b s') \<le> nb_logs (es_b s) + 1" "log_current (es_b s') = int (length (enc_log ps)) + 1"
    "log_buffer (es_b s') \<noteq> None" "modified (es_b s') = ur_modified r"
    "ur_op q = inverse_op (ur_op r)" "ur_offset q = ur_offset r" "ur_size q = ur_size r"
    "undo1 q t = Some (if ur_op r = LOGOP_WRITE then t else btext (es_b s))"
    "es_last_cmd_undo s' = es_last_cmd_undo s"
    "es_offset s' = (if ur_op r = LOGOP_INSERT then ur_offset r else ur_offset r + ur_size r)"
    "es_status s' = ''Undo!''"
proof -
  define b where "b = es_b s"
  obtain lg where lg: "log_buffer b = Some lg" using l(3) by (auto simp: b_def)
  note D = log_reprD [OF l(1) [folded b_def] lg]
  obtain qs where qs: "rs = ps @ r # qs"
    using p by (auto simp: undo_prefix_def split: if_splits)
  have rok: "record_ok r" using D(7) qs by simp
  define b1 where "b1 = (if es_last_cmd_undo s then b else b\<lparr>log_current := 0\<rparr>)"
  define idx where "idx = (if log_current b1 = 0 then log_new_index b1 else log_current b1 - 1)"
  have idx: "idx = int (length (enc_log (ps @ [r])))" "idx \<noteq> 0"
    using p D(4) by (auto simp: idx_def b1_def undo_prefix_def b_def split: if_splits)
  have b1: "the_log b1 = lg" "log_buffer b1 = Some lg"
    using lg by (simp_all add: b1_def the_log_def)
  define lg1 where "lg1 = snd (eb_read lg (idx - SIZEOF_INT) SIZEOF_INT)"
  note lg1 = leaf_read [OF D(1), of "idx - SIZEOF_INT" SIZEOF_INT, folded lg1_def]
  have tr: "fst (eb_read lg (idx - SIZEOF_INT) SIZEOF_INT) = enc32 (int (length (ur_data r)))"
    "dec32 (enc32 (int (length (ur_data r)))) = int (length (ur_data r))"
    using read_trailer [OF D(2) _ rok, of ps qs "idx - SIZEOF_INT"] D(3) qs idx(1) by simp_all
  have i2: "idx - SIZEOF_INT - (int (length (ur_data r)) + SIZEOF_LB) = int (length (enc_log ps))"
    using idx(1) by (simp add: SIZEOF_INT_def SIZEOF_LB_def)
  then have i3: "idx + (- SIZEOF_INT - int (length (ur_data r))) = int (length (enc_log ps)) + SIZEOF_LB" by simp
  define lg2 where "lg2 = snd (eb_read lg1 (int (length (enc_log ps))) SIZEOF_LB)"
  note lg2 = leaf_read [OF lg1(1), of "int (length (enc_log ps))" SIZEOF_LB, folded lg2_def]
  have hd: "fst (eb_read lg1 (int (length (enc_log ps))) SIZEOF_LB) = enc_lb (ur_header r)"
    "dec_lb (enc_lb (ur_header r)) = ur_header r"
    using read_header [of lg1 ps r qs] lg1 D(3) qs rok by (simp_all add: leaf_ok_def)
  define b2 where "b2 = b1\<lparr>log_buffer := Some lg2, log_current := int (length (enc_log ps)) + 1, last_log := LOGOP_FREE\<rparr>"
  have e: "do_undo s = map_option (\<lambda>(b3, off). s\<lparr>es_region_style := 0, es_b := b3\<lparr>modified := ur_modified r\<rparr>,
        es_offset := off, es_status := ''Undo!''\<rparr>) (play_undo b2 (ur_header r) (int (length (enc_log ps)) + SIZEOF_LB))"
    using lg idx(2) b1(1) tr hd i2
    unfolding do_undo_def Let_def b_def [symmetric] b1_def [symmetric] idx_def [symmetric]
    by (simp add: case_prod_beta lg1_def [symmetric] lg2_def [symmetric] b2_def [symmetric] del: play_undo.simps)
       (simp add: ur_header_def i3 del: play_undo.simps)
  have 2: "log_repr b2 rs" "logging b2" "log_buffer b2 = Some lg2" "last_log b2 = LOGOP_FREE"
    "nb_logs b2 < NB_LOGS_MAX - 1" "undo1 r (btext b2) = Some t"
    using D lg l(2) lg2 lg1 n t
    by (simp_all add: b2_def b1_def log_repr_def logging_def b_def [symmetric] ebuf_ok_def buf_wf_def)
  obtain b3 q where b3: "play_undo b2 (ur_header r) (int (length (enc_log ps)) + SIZEOF_LB) =
       Some (b3, if ur_op r = LOGOP_INSERT then ur_offset r else ur_offset r + ur_size r)"
    "undone b2 rs r t b3 q"
    by (rule play_undo_correct [OF 2(1-3) qs 2(4-6)])
  have "nb_logs b2 = nb_logs (es_b s)" "btext b2 = btext (es_b s)" "log_current b2 = int (length (enc_log ps)) + 1"
    by (simp_all add: b2_def b1_def b_def)
  note 3 = b3(2) [unfolded undone_def this]
  show thesis
    by (rule that [of _ q, OF e [unfolded b3(1) option.map prod.case]])
       (use 3 in \<open>simp_all add: log_repr_def logging_def split: option.splits\<close>)
qed


fun undo_times :: "nat \<Rightarrow> 'a EditBuffer_scheme EditState \<Rightarrow> 'a EditBuffer_scheme EditState option" where
  "undo_times 0 s = Some s"
| "undo_times (Suc n) s = Option.bind (do_undo s) (\<lambda>s'. undo_times n (s'\<lparr>es_last_cmd_undo := True\<rparr>))"

lemma undo_all_records:
  assumes "log_repr (es_b s) rs" "logging (es_b s)" "log_buffer (es_b s) \<noteq> None" "undo_prefix s rs ps"
    "nb_logs (es_b s) + int (length ps) < NB_LOGS_MAX" "rewind ps (btext (es_b s)) = Some t"
  obtains s' qs where "undo_times (length ps) s = Some s'" "btext (es_b s') = t" "logging (es_b s')"
    "log_repr (es_b s') (rs @ qs)" "length qs = length ps" "log_buffer (es_b s') \<noteq> None"
    "ps \<noteq> [] \<longrightarrow> modified (es_b s') = ur_modified (hd ps) \<and> es_last_cmd_undo s' \<and> log_current (es_b s') = 1"
  using assms
proof (induction ps arbitrary: s rs thesis rule: rev_induct)
  case Nil
  then show ?case by (auto intro: Nil.prems(1) [of s "[]"])
next
  case (snoc r ps)
  from snoc.prems(7) obtain t1 where t1: "undo1 r (btext (es_b s)) = Some t1" "rewind ps t1 = Some t"
    by (auto split: bind_splits)
  have n: "nb_logs (es_b s) < NB_LOGS_MAX - 1" using snoc.prems(6) by simp
  obtain s1 q where s1: "do_undo s = Some s1" "btext (es_b s1) = t1" "log_repr (es_b s1) (rs @ [q])" "logging (es_b s1)"
    "nb_logs (es_b s1) \<le> nb_logs (es_b s) + 1" "log_current (es_b s1) = int (length (enc_log ps)) + 1"
    "log_buffer (es_b s1) \<noteq> None" "modified (es_b s1) = ur_modified r"
    by (rule do_undo_step [OF snoc.prems(2-5) n t1(1)])
  define s2 where "s2 = s1\<lparr>es_last_cmd_undo := True\<rparr>"
  have "\<exists>qs. rs @ [q] = ps @ qs"
    using snoc.prems(5) by (auto simp: undo_prefix_def split: if_splits)
  then have p: "undo_prefix s2 (rs @ [q]) ps"
    using s1(6) by (simp add: undo_prefix_def s2_def)
  have s2: "log_repr (es_b s2) (rs @ [q])" "logging (es_b s2)" "log_buffer (es_b s2) \<noteq> None"
    "nb_logs (es_b s2) + int (length ps) < NB_LOGS_MAX" "rewind ps (btext (es_b s2)) = Some t"
    using s1 snoc.prems(6) t1(2) by (simp_all add: s2_def)
  obtain s' qs where s': "undo_times (length ps) s2 = Some s'" "btext (es_b s') = t" "logging (es_b s')"
    "log_repr (es_b s') ((rs @ [q]) @ qs)" "length qs = length ps" "log_buffer (es_b s') \<noteq> None"
    "ps \<noteq> [] \<longrightarrow> modified (es_b s') = ur_modified (hd ps) \<and> es_last_cmd_undo s' \<and> log_current (es_b s') = 1"
    by (rule snoc.IH [OF _ s2(1-3) p s2(4,5)])
  have "modified (es_b s') = ur_modified (hd (ps @ [r])) \<and> es_last_cmd_undo s' \<and> log_current (es_b s') = 1"
    using s'(1,7) s1(6,8) by (cases ps) (auto simp: s2_def)
  then show ?case
    using snoc.prems(1) [of s' "q # qs"] s' s1(1) by (simp add: s2_def)
qed

text \<open>With everything undone, a further undo only reports it.\<close>

lemma undo_exhausted:
  assumes "log_buffer (es_b s) \<noteq> None" "es_last_cmd_undo s" "log_current (es_b s) = 1"
  shows "do_undo s = Some (s\<lparr>es_region_style := 0, es_status := ''No further undo information''\<rparr>)"
  using assms by (cases s) (auto simp: do_undo_def Let_def)


section \<open>Redo\<close>

definition replayed :: "'a EditBuffer_scheme \<Rightarrow> undo_record list \<Rightarrow> byte list \<Rightarrow> 'a EditBuffer_scheme \<Rightarrow> bool" where
  "replayed b rs t b' \<longleftrightarrow> btext b' = t \<and> log_repr b' rs \<and> logging b' \<and> nb_logs b' = nb_logs b \<and>
     log_current b' = log_current b \<and> log_buffer b' \<noteq> None"

text \<open>With the log switched off, a change leaves the log alone.\<close>

lemma eb_addlog_unlogged:
  assumes "ebuf_ok b" "\<not> composite b" "\<not> save_log b"
  shows "ebuf_ok (eb_addlog b op off sz)" "page_table (eb_addlog b op off sz) = page_table b"
    "log_buffer (eb_addlog b op off sz) = log_buffer b" "log_new_index (eb_addlog b op off sz) = log_new_index b"
    "nb_logs (eb_addlog b op off sz) = nb_logs b" "log_current (eb_addlog b op off sz) = log_current b"
    "composite (eb_addlog b op off sz) = composite b" "flags (eb_addlog b op off sz) = flags b"
proof -
  define b1 where "b1 = call_callbacks eb_style_callback (first_callback b) b op off sz"
  have "same_core b b1" "ebuf_ok b1" "log_buffer b1 = log_buffer b"
    using call_callbacks_core [OF eb_style_callback_core] call_callbacks_ok [OF assms(1)] by (auto simp: b1_def)
  moreover from this have "eb_addlog b op off sz = b1\<lparr>modified := True\<rparr>"
    using assms(2,3) by (simp add: eb_addlog_def Let_def same_core_def flip: b1_def)
  ultimately show "ebuf_ok (eb_addlog b op off sz)" "page_table (eb_addlog b op off sz) = page_table b"
    "log_buffer (eb_addlog b op off sz) = log_buffer b" "log_new_index (eb_addlog b op off sz) = log_new_index b"
    "nb_logs (eb_addlog b op off sz) = nb_logs b" "log_current (eb_addlog b op off sz) = log_current b"
    "composite (eb_addlog b op off sz) = composite b" "flags (eb_addlog b op off sz) = flags b"
    by (simp_all add: same_core_def)
qed

lemma replay_insert:
  assumes l: "log_repr b rs" "logging b" "log_buffer b \<noteq> None" "record_ok r"
    and t: "undo1 r (btext b) = Some t" and op: "ur_op r = LOGOP_INSERT"
  shows "replayed b rs t ((fst (eb_delete (b\<lparr>save_log := False\<rparr>) (ur_offset r) (ur_size r)))\<lparr>save_log := True\<rparr>)"
proof -
  define b1 where "b1 = b\<lparr>save_log := False\<rparr>"
  define b2 where "b2 = fst (eb_delete b1 (ur_offset r) (ur_size r))"
  have ok: "ebuf_ok b1" "\<not> readonly b1" "\<not> composite b1" "\<not> save_log b1" "page_table b1 = page_table b"
    using l by (simp_all add: log_repr_def logging_def b1_def)
  have r: "0 \<le> ur_offset r" "0 < ur_size r" "ur_offset r + ur_size r \<le> total_size b1" "ur_data r = []"
    using t op l(4) ebuf_size [OF ok(1)] ok(5) by (auto simp: record_ok_def undo1_def split: if_splits)
  have lt: "ur_offset r < total_size b1" and m: "min (ur_size r) (total_size b1 - ur_offset r) = ur_size r"
    using r by simp_all
  note d = eb.delete_repaged [OF ok(1,2) r(1) lt r(2), unfolded m, folded eb_delete_def, folded b2_def]
  note a = eb_addlog_unlogged [OF ok(1,3,4)] and f = repaged_log [OF d(1)]
  have "ebuf_ok b2" by (rule ebuf_ok_repaged [OF a(1) d(1)])
  moreover have "btext b2 = t"
    using d(3) ok(5) t op r(4) by (simp add: undo1_def split: if_splits)
  moreover from this have "log_repr (b2\<lparr>save_log := True\<rparr>) rs"
    using f a \<open>ebuf_ok b2\<close> by (intro log_repr_text_cong [OF l(1)]) (simp_all add: b1_def)
  ultimately show ?thesis
    using l(2,3) f a unfolding b2_def [symmetric] b1_def [symmetric]
    by (simp add: replayed_def logging_def) (simp add: b1_def)
qed

lemma replay_restored:
  assumes b4: "log_repr b4 rs" "logging b4" "btext b4 = t" "nb_logs b4 = nb_logs b"
    "log_current b4 = log_current b" "log_buffer b4 \<noteq> None"
  shows "replayed b rs t ((eb_addlog (b4\<lparr>save_log := False\<rparr>) op off sz)\<lparr>save_log := True\<rparr>)"
proof -
  define b5 where "b5 = b4\<lparr>save_log := False\<rparr>"
  have ok: "ebuf_ok b5" "\<not> composite b5" "\<not> save_log b5"
    using b4 by (simp_all add: log_repr_def logging_def b5_def)
  note a = eb_addlog_unlogged [OF this, of op off sz]
  have "log_repr ((eb_addlog b5 op off sz)\<lparr>save_log := True\<rparr>) rs"
    using a by (intro log_repr_text_cong [OF b4(1)]) (simp_all add: b5_def)
  with a b4 show ?thesis
    unfolding b5_def [symmetric]
    by (simp add: replayed_def logging_def) (simp add: b5_def)
qed

lemma play_redo_correct:
  assumes l: "log_repr b rs" "logging b" "log_buffer b = Some l" "rs = ps @ r # qs"
    and t: "undo1 r (btext b) = Some t"
  obtains b' where
    "play_redo b (ur_header r) (int (length (enc_log ps)) + SIZEOF_LB) =
       Some (b', if ur_op r = LOGOP_INSERT then ur_offset r else ur_offset r + ur_size r)"
    "replayed b rs t b'"
proof -
  have rok: "record_ok r" and ok: "ebuf_ok b" "\<not> readonly b" using l(1,2,4) by (simp_all add: log_repr_def logging_def)
  define c where "c = b\<lparr>composite := True\<rparr>"
  have c: "ebuf_ok c" "\<not> readonly c" "total_size c = total_size b" "page_table c = page_table b" "composite c"
    using ok by (simp_all add: c_def)
  have wfc: "repaged (b\<lparr>composite := True\<rparr>) c"
    by (simp add: repaged_refl eb.inv_wf [OF c(1)] flip: c_def)
  consider "ur_op r = LOGOP_INSERT" | "ur_op r = LOGOP_DELETE" | "ur_op r = LOGOP_WRITE"
    using rok by (cases "ur_op r") (auto simp: record_ok_def)
  then show thesis
  proof cases
    case 1
    from that [OF _ replay_insert [OF l(1,2) _ rok t 1]] 1 l(3) show thesis by (simp add: ur_header_def)
  next
    case 2
    obtain b3 l3 m where b3: "eb_insert_buffer c (ur_offset r) (the_log c)
        (int (length (enc_log ps)) + SIZEOF_LB) (ur_size r) = (b3, l3, m)" by (metis prod_cases3)
    define b4 where "b4 = b3\<lparr>log_buffer := Some l3, composite := False\<rparr>"
    have "ur_op r \<noteq> LOGOP_INSERT" "ur_offset r \<le> total_size c"
      using 2 t ebuf_size [OF ok(1)] c(3) by (auto simp: undo1_def split: if_splits)
    note s = composite_restore [OF l this wfc b3 b4_def]
    have "btext b4 = t" using s(3) t 2 c(4) by (simp add: undo1_def split: if_splits)
    note f = replay_restored [OF s(1,2) this s(4,5), of LOGOP_INSERT "ur_offset r" "ur_size r"]
    from that [OF _ f] 2 b3 s(7) show thesis
      by (simp add: ur_header_def b4_def flip: c_def)
  next
    case 3
    have r: "0 \<le> ur_offset r" "0 < ur_size r" "ur_offset r + ur_size r \<le> total_size c"
      using 3 t rok ebuf_size [OF ok(1)] c(3) by (auto simp: record_ok_def undo1_def split: if_splits)
    define b1 where "b1 = fst (eb_delete c (ur_offset r) (ur_size r))"
    have lt: "ur_offset r < total_size c" and m: "min (ur_size r) (total_size c - ur_offset r) = ur_size r"
      using r by simp_all
    note d = eb.delete_repaged [OF c(1,2) r(1) lt r(2), unfolded m eb_addlog_composite [OF c(5)], folded eb_delete_def, folded b1_def]
    have len: "nat (ur_offset r) + nat (ur_size r) \<le> length (btext b)"
      using r ebuf_size [OF ok(1)] c(3) by auto
    have t1: "btext b1 = splice_at (nat (ur_offset r)) (nat (ur_size r)) [] (btext b)" using d(3) c(4) by simp
    have "total_size b1 = total_size b - ur_size r"
      using ebuf_size [OF ok(1)] ebuf_size [OF ebuf_ok_repaged [OF c(1) d(1)]] len r by (simp add: t1 length_splice_at)
    then have b1: "ur_op r \<noteq> LOGOP_INSERT" "ur_offset r \<le> total_size b1" using 3 r c(3) by simp_all
    obtain b3 l3 m where b3: "eb_insert_buffer b1 (ur_offset r) (the_log b1)
        (int (length (enc_log ps)) + SIZEOF_LB) (ur_size r) = (b3, l3, m)" by (metis prod_cases3)
    define b4 where "b4 = b3\<lparr>log_buffer := Some l3, composite := False\<rparr>"
    note s = composite_restore [OF l b1 d(1) [unfolded c_def] b3 b4_def]
    have "btext b4 = t" using s(3) t 3 t1 len by (auto simp: undo1_def splice_at_def split: if_splits)
    note f = replay_restored [OF s(1,2) this s(4,5), of LOGOP_WRITE "ur_offset r" "ur_size r"]
    from that [OF _ f] 3 b3 s(7) show thesis
      by (simp add: ur_header_def b4_def flip: b1_def c_def)
  qed
qed


lemma drop_last_record:
  assumes "leaf_ok l" "btext l = enc_log (rs @ [q])" "i = int (length (enc_log rs))"
    "n = int (length (enc_log (rs @ [q]))) - i"
  shows "leaf_ok (fst (eb_delete0 l i n))" "btext (fst (eb_delete0 l i n)) = enc_log rs"
proof -
  have "\<not> readonly l" using assms(1) by (simp add: leaf_ok_def)
  then show "btext (fst (eb_delete0 l i n)) = enc_log rs"
    using leaf.delete_correct(1) [OF assms(1), of i n] assms(2-4)
    by (simp add: eb_delete0_def splice_at_def nat_add_distrib)
qed (rule log_delete_ok [OF assms(1)])

lemma do_redo_step:
  assumes l: "log_repr (es_b s) (rs @ [q])" "logging (es_b s)" "log_buffer (es_b s) \<noteq> None"
    and c: "es_last_cmd_undo s" "log_current (es_b s) = int (length (enc_log ps)) + 1" "rs = ps @ r # qs"
    and t: "undo1 q (btext (es_b s)) = Some t"
  obtains s' where "do_redo s = Some s'" "btext (es_b s') = t" "log_repr (es_b s') rs" "logging (es_b s')"
    "nb_logs (es_b s') = nb_logs (es_b s)" "log_buffer (es_b s') \<noteq> None" "modified (es_b s') = ur_modified q"
    "log_current (es_b s') = (if qs = [] then 0 else int (length (enc_log (ps @ [r]))) + 1)"
    "es_last_cmd_undo s'"
    "es_offset s' = (if ur_op q = LOGOP_INSERT then ur_offset q else ur_offset q + ur_size q)"
    "es_status s' = ''Redo!''"
proof -
  define b where "b = es_b s"
  obtain lg where lg: "log_buffer b = Some lg" using l(3) by (auto simp: b_def)
  note D = log_reprD [OF l(1) [folded b_def] lg]
  have ok: "record_ok r" "record_ok q" using D(7) c(3) by simp_all
  define fwd where "fwd = int (length (enc_log ps))"
  define lg0 where "lg0 = snd (eb_read lg fwd SIZEOF_LB)"
  note lg0 = leaf_read [OF D(1), of fwd SIZEOF_LB, folded lg0_def]
  have hf: "fst (eb_read lg fwd SIZEOF_LB) = enc_lb (ur_header r)" "dec_lb (enc_lb (ur_header r)) = ur_header r"
    using read_header [OF D(2), of ps r "qs @ [q]"] D(3) c(3) ok by (simp_all add: fwd_def)
  define cur where "cur = fwd + SIZEOF_LB + (if lb_op (ur_header r) \<noteq> op_code LOGOP_INSERT then lb_size (ur_header r) else 0) + SIZEOF_INT + 1"
  have cur: "cur = int (length (enc_log (ps @ [r]))) + 1"
    using ok(1) by (cases "ur_op r") (auto simp: cur_def fwd_def ur_header_def SIZEOF_LB_def SIZEOF_INT_def record_ok_def)
  define idx where "idx = log_new_index b - SIZEOF_INT"
  define lg1 where "lg1 = snd (eb_read lg0 idx SIZEOF_INT)"
  note lg1 = leaf_read [OF lg0(1), of idx SIZEOF_INT, folded lg1_def]
  have tr: "fst (eb_read lg0 idx SIZEOF_INT) = enc32 (int (length (ur_data q)))"
    "dec32 (enc32 (int (length (ur_data q)))) = int (length (ur_data q))"
    using read_trailer [of lg0 rs q "[]" idx] lg0 D(3,4) ok by (simp_all add: idx_def leaf_ok_def)
  define i2 where "i2 = int (length (enc_log rs))"
  have i2: "idx - (int (length (ur_data q)) + SIZEOF_LB) = i2"
    using D(4) by (simp add: i2_def idx_def SIZEOF_INT_def SIZEOF_LB_def)
  define lg2 where "lg2 = snd (eb_read lg1 i2 SIZEOF_LB)"
  note lg2 = leaf_read [OF lg1(1), of i2 SIZEOF_LB, folded lg2_def]
  have hd: "fst (eb_read lg1 i2 SIZEOF_LB) = enc_lb (ur_header q)" "dec_lb (enc_lb (ur_header q)) = ur_header q"
    using read_header [of lg1 rs q "[]"] lg0 lg1 D(3) ok by (simp_all add: leaf_ok_def i2_def)
  define b2 where "b2 = b\<lparr>log_buffer := Some lg2, log_current := cur\<rparr>"
  have pos: "log_current b \<noteq> 0" "log_new_index b \<noteq> 0" "log_current b - 1 = fwd"
    using c(2) D(4) by (simp_all add: fwd_def b_def)
  have 2: "log_repr b2 (rs @ [q])" "logging b2" "log_buffer b2 = Some lg2" "undo1 q (btext b2) = Some t"
    using D lg l(2) lg2 lg1 lg0 t
    by (simp_all add: b2_def log_repr_def logging_def b_def [symmetric] ebuf_ok_def buf_wf_def)
  obtain b3 where b3: "play_redo b2 (ur_header q) (i2 + SIZEOF_LB) =
       Some (b3, if ur_op q = LOGOP_INSERT then ur_offset q else ur_offset q + ur_size q)"
    "replayed b2 (rs @ [q]) t b3"
    using play_redo_correct [OF 2(1-3) refl 2(4)] unfolding i2_def .
  define b4 where "b4 = b3\<lparr>modified := ur_modified q\<rparr>"
  define lg3 where "lg3 = fst (eb_delete0 (the_log b4) i2 (log_new_index b4 - i2))"
  define b5 where "b5 = b4\<lparr>log_buffer := Some lg3, log_new_index := i2,
      log_current := (if log_current b4 \<ge> i2 + 1 then 0 else log_current b4)\<rparr>"
  have e: "do_redo s = Some (s\<lparr>es_region_style := 0, es_b := b5,
        es_offset := (if ur_op q = LOGOP_INSERT then ur_offset q else ur_offset q + ur_size q), es_status := ''Redo!''\<rparr>)"
    using lg pos(1,2)
    unfolding do_redo_def Let_def b_def [symmetric] eqTrueI [OF c(1)] if_True case_prod_beta D(6) pos(3) hf tr
      lg0_def [symmetric] cur_def [symmetric] idx_def [symmetric] lg1_def [symmetric] i2 lg2_def [symmetric] hd
      b2_def [symmetric] b3(1)
    by (simp add: b5_def b4_def lg3_def ur_header_def)
  have lg4: "log_repr b4 (rs @ [q])" "logging b4" "log_buffer b4 \<noteq> None" "btext b4 = t" "nb_logs b4 = nb_logs b"
     "log_current b4 = cur" "modified b4 = ur_modified q"
    using b3(2) by (auto simp: replayed_def b4_def log_repr_def logging_def b2_def split: option.splits)
  obtain l4 where l4: "log_buffer b4 = Some l4" using lg4(3) by blast
  note D4 = log_reprD [OF lg4(1) l4]
  have lg3: "leaf_ok lg3" "btext lg3 = enc_log rs"
    using drop_last_record [OF D4(1,3) i2_def] D4(4,6) by (simp_all add: lg3_def)
  have "log_repr b5 rs"
    using D4 lg3 by (simp add: b5_def log_repr_def ebuf_ok_def buf_wf_def i2_def)
  moreover have "log_current b5 = (if qs = [] then 0 else int (length (enc_log (ps @ [r]))) + 1)"
    using lg4(6) cur c(3) by (cases qs) (simp_all add: b5_def i2_def)
  ultimately show thesis
    by (intro that [OF e]) (use lg4 c(1) in \<open>simp_all add: b5_def logging_def b_def\<close>)
qed


fun redo_times :: "nat \<Rightarrow> 'a EditBuffer_scheme EditState \<Rightarrow> 'a EditBuffer_scheme EditState option" where
  "redo_times 0 s = Some s"
| "redo_times (Suc n) s = Option.bind (do_redo s) (\<lambda>s'. redo_times n (s'\<lparr>es_last_cmd_undo := True\<rparr>))"

lemma redo_times_Suc_right:
  "redo_times (Suc n) s = Option.bind (redo_times n s) (\<lambda>s'. map_option (\<lambda>s''. s''\<lparr>es_last_cmd_undo := True\<rparr>) (do_redo s'))"
proof (induction n arbitrary: s)
  case 0
  then show ?case by (cases "do_redo s") simp_all
next
  case (Suc n)
  show ?case
    by (cases "do_redo s") (simp_all add: Suc [unfolded redo_times.simps(2)])
qed

lemma undo_redo_records:
  assumes "log_repr (es_b s) rs" "logging (es_b s)" "log_buffer (es_b s) \<noteq> None" "undo_prefix s rs (ps1 @ ps)"
    "nb_logs (es_b s) + int (length ps) < NB_LOGS_MAX" "rewind ps (btext (es_b s)) = Some t"
    "list_all (\<lambda>r. ur_op r \<noteq> LOGOP_WRITE) ps"
  shows "\<exists>s' s''. undo_times (length ps) s = Some s' \<and> btext (es_b s') = t \<and>
    redo_times (length ps) s' = Some s'' \<and> btext (es_b s'') = btext (es_b s) \<and>
    log_repr (es_b s'') rs \<and> logging (es_b s'') \<and> log_buffer (es_b s'') \<noteq> None \<and> undo_prefix s'' rs (ps1 @ ps)"
  using assms
proof (induction ps arbitrary: s rs rule: rev_induct)
  case Nil
  then show ?case by simp
next
  case (snoc r ps)
  from snoc.prems(6) obtain t1 where t1: "undo1 r (btext (es_b s)) = Some t1" "rewind ps t1 = Some t"
    by (auto split: bind_splits)
  have n: "nb_logs (es_b s) < NB_LOGS_MAX - 1" and p: "undo_prefix s rs ((ps1 @ ps) @ [r])"
    using snoc.prems(4,5) by simp_all
  obtain s1 q where s1: "do_undo s = Some s1" "btext (es_b s1) = t1" "log_repr (es_b s1) (rs @ [q])" "logging (es_b s1)"
    "nb_logs (es_b s1) \<le> nb_logs (es_b s) + 1" "log_current (es_b s1) = int (length (enc_log (ps1 @ ps))) + 1"
    "log_buffer (es_b s1) \<noteq> None" "undo1 q t1 = Some (if ur_op r = LOGOP_WRITE then t1 else btext (es_b s))"
    by (rule do_undo_step [OF snoc.prems(1-3) p n t1(1)])
  obtain qs where qs: "rs = (ps1 @ ps) @ r # qs"
    using p by (auto simp: undo_prefix_def split: if_splits)
  define s2 where "s2 = s1\<lparr>es_last_cmd_undo := True\<rparr>"
  have s2: "log_repr (es_b s2) (rs @ [q])" "logging (es_b s2)" "log_buffer (es_b s2) \<noteq> None"
    "undo_prefix s2 (rs @ [q]) (ps1 @ ps)" "nb_logs (es_b s2) + int (length ps) < NB_LOGS_MAX"
    "rewind ps (btext (es_b s2)) = Some t" "list_all (\<lambda>r. ur_op r \<noteq> LOGOP_WRITE) ps"
    using s1 snoc.prems(5,7) t1(2) qs by (simp_all add: s2_def undo_prefix_def)
  obtain s' s3 where s': "undo_times (length ps) s2 = Some s'" "btext (es_b s') = t"
    "redo_times (length ps) s' = Some s3" "btext (es_b s3) = t1" "log_repr (es_b s3) (rs @ [q])"
    "logging (es_b s3)" "log_buffer (es_b s3) \<noteq> None" "undo_prefix s3 (rs @ [q]) (ps1 @ ps)"
    using snoc.IH [OF s2] s1(2) by (auto simp: s2_def)
  have c: "es_last_cmd_undo s3" "log_current (es_b s3) = int (length (enc_log (ps1 @ ps))) + 1"
    using s'(8) qs by (auto simp: undo_prefix_def split: if_splits)
  have "undo1 q (btext (es_b s3)) = Some (btext (es_b s))"
    using s1(8) s'(4) snoc.prems(7) by simp
  then obtain s4 where s4: "do_redo s3 = Some s4" "btext (es_b s4) = btext (es_b s)" "log_repr (es_b s4) rs"
    "logging (es_b s4)" "log_buffer (es_b s4) \<noteq> None"
    "log_current (es_b s4) = (if qs = [] then 0 else int (length (enc_log ((ps1 @ ps) @ [r]))) + 1)" "es_last_cmd_undo s4"
    by (rule do_redo_step [OF s'(5-7) c qs])
  have "undo_prefix (s4\<lparr>es_last_cmd_undo := True\<rparr>) rs (ps1 @ ps @ [r])"
    using s4(6) qs by (auto simp: undo_prefix_def)
  moreover have "redo_times (length (ps @ [r])) s' = Some (s4\<lparr>es_last_cmd_undo := True\<rparr>)"
    using s'(3) s4(1) by (simp add: redo_times_Suc_right del: redo_times.simps)
  moreover have "undo_times (length (ps @ [r])) s = Some s'"
    using s'(1) s1(1) by (simp add: s2_def)
  ultimately show ?case
    using s4 s'(2) by auto
qed


section \<open>Sessions\<close>

definition unlogged_start :: "'a EditBuffer_scheme \<Rightarrow> bool" where
  "unlogged_start b \<longleftrightarrow> ebuf_ok b \<and> logging b \<and> log_buffer b = None \<and> nb_logs b = 0 \<and> log_current b = 0"

lemma unlogged_start_undoable: "unlogged_start b \<Longrightarrow> undoable S (btext b) (modified b) b []"
  by (simp add: unlogged_start_def undoable_def log_repr_def)

lemma session_undoable:
  assumes "unlogged_start b" "2 * int (length es) < NB_LOGS_MAX"
    "total_size b + sum_list (map edit_size es) < 2 ^ 31" "list_all (\<lambda>e. edit_ops e \<subseteq> S) es"
  obtains rs where "undoable S (btext b) (modified b) (fold run_edit es b) rs" "length rs \<le> 2 * length es"
    "nb_logs (fold run_edit es b) \<le> 2 * int (length es)"
proof -
  have "nb_logs b + 2 * int (length es) < NB_LOGS_MAX" "nb_logs b = 0"
    using assms(1,2) by (simp_all add: unlogged_start_def)
  from run_edits_tracked [OF unlogged_start_undoable [OF assms(1)] this(1) assms(3,4)] this(2)
  obtain rs where rs: "undoable S (btext b) (modified b) (fold run_edit es b) rs"
    "nb_logs (fold run_edit es b) \<le> 2 * int (length es)"
    by (auto simp: tracked_def)
  then have "int (length rs) \<le> 2 * int (length es)"
    by (auto simp: undoable_def log_repr_def split: option.splits)
  with rs that show thesis by auto
qed

section \<open>Properties\<close>

text \<open>
  C1. Undo is exact: after any session of insertions, deletions and overwrites on a buffer
  without a log, a bounded number of undo commands brings back the text and the modified
  flag the session started from.
\<close>

theorem undo_session_restores:
  assumes "unlogged_start b" "4 * int (length es) < NB_LOGS_MAX"
    "total_size b + sum_list (map edit_size es) < 2 ^ 31"
    "es_b s = fold run_edit es b" "\<not> es_last_cmd_undo s"
  shows "\<exists>n s'. n \<le> 2 * length es \<and> undo_times n s = Some s' \<and>
    btext (es_b s') = btext b \<and> modified (es_b s') = modified b"
proof -
  have "2 * int (length es) < NB_LOGS_MAX" using assms(2) by simp
  then obtain rs where rs: "undoable UNIV (btext b) (modified b) (es_b s) rs" "length rs \<le> 2 * length es"
    "nb_logs (es_b s) \<le> 2 * int (length es)"
    using session_undoable [OF assms(1) _ assms(3), of UNIV] assms(4) by (auto simp: list_all_iff)
  show ?thesis
  proof (cases "rs = []")
    case True
    with rs(1) show ?thesis by (intro exI [of _ 0]) (simp add: undoable_def)
  next
    case False
    with rs(1) have "log_buffer (es_b s) \<noteq> None" by (auto simp: undoable_def log_repr_def split: option.splits)
    moreover have "undo_prefix s rs rs" using assms(5) by (simp add: undo_prefix_def)
    moreover have "nb_logs (es_b s) + int (length rs) < NB_LOGS_MAX" using rs(2,3) assms(2) by linarith
    ultimately obtain s' qs where "undo_times (length rs) s = Some s'" "btext (es_b s') = btext b"
      "modified (es_b s') = ur_modified (hd rs)"
      using rs(1) undo_all_records [of s rs rs "btext b"] False by (auto simp: undoable_def)
    with rs(1,2) False show ?thesis by (auto simp: undoable_def)
  qed
qed

definition sample_buffer :: EditBuffer where
  "sample_buffer = EditBuffer0.extend ((eb_new0 BF_SAVELOG)\<lparr>page_table := [new_page [97, 98, 99, 10]], total_size := 4\<rparr>)
     \<lparr>log_buffer = None, b_styles = None\<rparr>"

definition sample_window :: "EditBuffer \<Rightarrow> EditBuffer EditState" where
  "sample_window b = \<lparr>es_b = b, es_offset = 0, es_region_style = 0, es_last_cmd_undo = False, es_status = ''''\<rparr>"

lemma sample_start: "unlogged_start sample_buffer" "total_size sample_buffer = 4"
  by (simp_all add: unlogged_start_def sample_buffer_def ebuf_ok_def buf_wf_def eb_new0_def eb_add_callback_def
     EditBuffer0.extend_def pages_ok_def new_page_def MAX_PAGE_SIZE_def content_def logging_def
     BF_SAVELOG_def BF_STYLES_def BF_UTF8_def BF_READONLY_def)

theorem undo_session_restores_witness:
  "\<exists>n s'. n \<le> 6 \<and> undo_times n (sample_window (fold run_edit [Ins 1 [120, 121], Del 0 2, Wr 3 [65, 66, 67]] sample_buffer))
     = Some s' \<and> btext (es_b s') = btext sample_buffer \<and> modified (es_b s') = modified sample_buffer"
  using undo_session_restores [OF sample_start(1), of "[Ins 1 [120, 121], Del 0 2, Wr 3 [65, 66, 67]]"
    "sample_window (fold run_edit [Ins 1 [120, 121], Del 0 2, Wr 3 [65, 66, 67]] sample_buffer)"]
  by (simp add: sample_start(2) NB_LOGS_MAX_def sample_window_def del: fold.simps)

text \<open>
  C2. Redo is the inverse of undo for sessions of insertions and deletions: undoing the
  whole session and redoing as many times brings back the text the session produced.
\<close>

theorem redo_session_restores:
  assumes "unlogged_start b" "4 * int (length es) < NB_LOGS_MAX"
    "total_size b + sum_list (map edit_size es) < 2 ^ 31"
    "list_all (\<lambda>e. edit_ops e \<subseteq> {LOGOP_INSERT, LOGOP_DELETE}) es"
    "es_b s = fold run_edit es b" "\<not> es_last_cmd_undo s"
  shows "\<exists>n s1 s2. undo_times n s = Some s1 \<and> btext (es_b s1) = btext b \<and>
    redo_times n s1 = Some s2 \<and> btext (es_b s2) = btext (es_b s)"
proof -
  have "2 * int (length es) < NB_LOGS_MAX" using assms(2) by simp
  then obtain rs where rs: "undoable {LOGOP_INSERT, LOGOP_DELETE} (btext b) (modified b) (es_b s) rs"
    "length rs \<le> 2 * length es" "nb_logs (es_b s) \<le> 2 * int (length es)"
    using session_undoable [OF assms(1) _ assms(3,4)] assms(5) by auto
  show ?thesis
  proof (cases "rs = []")
    case True
    with rs(1) show ?thesis by (intro exI [of _ 0]) (simp add: undoable_def)
  next
    case False
    with rs(1) have "log_buffer (es_b s) \<noteq> None" by (auto simp: undoable_def log_repr_def split: option.splits)
    moreover have "undo_prefix s rs ([] @ rs)" using assms(6) by (simp add: undo_prefix_def)
    moreover have "nb_logs (es_b s) + int (length rs) < NB_LOGS_MAX" using rs(2,3) assms(2) by linarith
    moreover have "list_all (\<lambda>r. ur_op r \<noteq> LOGOP_WRITE) rs" using rs(1) by (auto simp: undoable_def list_all_iff)
    ultimately show ?thesis
      using rs(1) undo_redo_records [of s rs "[]" rs "btext b"] by (auto simp: undoable_def)
  qed
qed

theorem redo_session_restores_witness:
  "\<exists>n s1 s2. undo_times n (sample_window (fold run_edit [Ins 1 [120, 121], Del 0 2] sample_buffer)) = Some s1 \<and>
     btext (es_b s1) = btext sample_buffer \<and> redo_times n s1 = Some s2 \<and>
     btext (es_b s2) = btext (fold run_edit [Ins 1 [120, 121], Del 0 2] sample_buffer)"
  using redo_session_restores [OF sample_start(1), of "[Ins 1 [120, 121], Del 0 2]"
    "sample_window (fold run_edit [Ins 1 [120, 121], Del 0 2] sample_buffer)"]
  by (simp add: sample_start(2) NB_LOGS_MAX_def sample_window_def del: fold.simps)

text \<open>
  C3. An overwrite cannot be redone: undo restores the overwritten bytes before it logs
  them, so its record holds the old bytes twice, and redo leaves the text as undo left it.
\<close>

theorem redo_of_overwrite_is_lost:
  assumes "unlogged_start b" "total_size b < 2 ^ 31" "0 \<le> off" "buf \<noteq> []" "off + int (length buf) \<le> total_size b"
    "es_b s = fst (eb_write b off buf)" "\<not> es_last_cmd_undo s"
  shows "btext (es_b s) = splice_at (nat off) (length buf) buf (btext b) \<and>
    (\<exists>s1 s2. do_undo s = Some s1 \<and> btext (es_b s1) = btext b \<and>
       do_redo (s1\<lparr>es_last_cmd_undo := True\<rparr>) = Some s2 \<and> btext (es_b s2) = btext b)"
proof -
  have ok: "ebuf_ok b" "\<not> readonly b" "logging b" "nb_logs b = 0"
    using assms(1) by (auto simp: unlogged_start_def logging_def)
  note w = eb.write_repaged [OF ok(1,2) assms(3-5), folded eb_write_def]
  let ?n = "int (length buf)"
  have u: "undoable UNIV (btext b) (modified b) b []" by (rule unlogged_start_undoable [OF assms(1)])
  have n: "nb_logs b < NB_LOGS_MAX - 1" "off + ?n < 2 ^ 31"
    using ok(4) assms(2,5) by (simp_all add: NB_LOGS_MAX_def)
  have step: "log_step b LOGOP_WRITE off ?n [] = [new_record b LOGOP_WRITE off ?n]"
    by (simp add: log_step_def coalesces_def)
  have u1: "undoable UNIV (btext b) (modified b) (es_b s) [new_record b LOGOP_WRITE off ?n]"
    "nb_logs (es_b s) \<le> nb_logs b + 1"
    using undoable_step [OF u n(1) w(2) _ n(2) _ w(1), of buf] w(3) assms(6)
    by (simp_all add: step apply_change_def)
  have l: "log_repr (es_b s) [new_record b LOGOP_WRITE off ?n]" "logging (es_b s)"
    "undo1 (new_record b LOGOP_WRITE off ?n) (btext (es_b s)) = Some (btext b)"
    using u1(1) rewind_snoc [of "[]"] by (auto simp: undoable_def split: bind_splits)
  then have lb: "log_buffer (es_b s) \<noteq> None" by (auto simp: log_repr_def split: option.splits)
  have p: "undo_prefix s [new_record b LOGOP_WRITE off ?n] ([] @ [new_record b LOGOP_WRITE off ?n])"
    using assms(7) by (simp add: undo_prefix_def)
  have n1: "nb_logs (es_b s) < NB_LOGS_MAX - 1" using u1(2) ok(4) by (simp add: NB_LOGS_MAX_def)
  obtain s1 q where s1: "do_undo s = Some s1" "btext (es_b s1) = btext b"
    "log_repr (es_b s1) ([new_record b LOGOP_WRITE off ?n] @ [q])" "logging (es_b s1)" "log_buffer (es_b s1) \<noteq> None"
    "log_current (es_b s1) = int (length (enc_log [])) + 1" "undo1 q (btext b) = Some (btext b)"
    by (rule do_undo_step [OF l(1,2) lb p n1 l(3)]) (simp add: new_record_def)
  let ?s = "s1\<lparr>es_last_cmd_undo := True\<rparr>"
  obtain s2 where "do_redo ?s = Some s2" "btext (es_b s2) = btext b"
    by (rule do_redo_step [of ?s "[new_record b LOGOP_WRITE off ?n]" q "[]" "new_record b LOGOP_WRITE off ?n" "[]" "btext b"])
       (use s1 in simp_all)
  with s1(1,2) w(3) assms(6) show ?thesis by auto
qed

theorem redo_of_overwrite_is_lost_witness:
  "btext (fst (eb_write sample_buffer 1 [120, 121])) = splice_at 1 2 [120, 121] (btext sample_buffer) \<and>
   (\<exists>s1 s2. do_undo (sample_window (fst (eb_write sample_buffer 1 [120, 121]))) = Some s1 \<and>
      btext (es_b s1) = btext sample_buffer \<and>
      do_redo (s1\<lparr>es_last_cmd_undo := True\<rparr>) = Some s2 \<and> btext (es_b s2) = btext sample_buffer)"
  using redo_of_overwrite_is_lost [OF sample_start(1), of 1 "[120, 121]"
    "sample_window (fst (eb_write sample_buffer 1 [120, 121]))"]
  by (simp add: sample_start(2) sample_window_def numeral_2_eq_2)

text \<open>
  C4. The log refines a list of records: \<^verbatim>\<open>eb_addlog\<close> changes the bytes of the log
  buffer into the encoding of the list that \<open>log_step\<close> computes, extending the last
  insertion or adding a record that holds the bytes about to be destroyed.
\<close>

theorem eb_addlog_refines_log_step:
  assumes "log_repr b rs" "save_log b" "\<not> composite b" "nb_logs b < NB_LOGS_MAX - 1"
    "op_in_range b op off sz" "op \<noteq> LOGOP_FREE" "off + sz < 2 ^ 31"
  shows "log_repr (eb_addlog b op off sz) (log_step b op off sz rs) \<and>
    btext (eb_addlog b op off sz) = btext b \<and> modified (eb_addlog b op off sz)"
  using eb_addlog_repr [OF assms] eb.addlog_pages [of b] assms(1) by (simp add: log_repr_def)

theorem eb_addlog_refines_log_step_witness:
  "log_repr (eb_addlog sample_buffer LOGOP_DELETE 1 2)
     [\<lparr>ur_op = LOGOP_DELETE, ur_modified = False, ur_offset = 1, ur_size = 2, ur_data = [98, 99]\<rparr>] \<and>
   btext (eb_addlog sample_buffer LOGOP_DELETE 1 2) = btext sample_buffer \<and>
   modified (eb_addlog sample_buffer LOGOP_DELETE 1 2)"
proof -
  have e: "log_step sample_buffer LOGOP_DELETE 1 2 [] =
      [\<lparr>ur_op = LOGOP_DELETE, ur_modified = False, ur_offset = 1, ur_size = 2, ur_data = [98, 99]\<rparr>]"
    by (simp add: log_step_def coalesces_def new_record_def log_data_def sample_buffer_def eb_new0_def
       eb_add_callback_def EditBuffer0.extend_def content_def new_page_def)
  have "log_repr sample_buffer []" "save_log sample_buffer" "\<not> composite sample_buffer"
    "nb_logs sample_buffer < NB_LOGS_MAX - 1" "op_in_range sample_buffer LOGOP_DELETE 1 2"
    using unlogged_start_undoable [OF sample_start(1), of UNIV] sample_start
    by (simp_all add: undoable_def logging_def unlogged_start_def NB_LOGS_MAX_def op_in_range_def)
  from eb_addlog_refines_log_step [OF this] show ?thesis by (simp add: e)
qed

text \<open>
  The header of a log record survives the trip through the bytes of the log buffer
  for every offset and size that fits a 32-bit integer.
\<close>

theorem log_header_roundtrip:
  assumes "fits32 (lb_offset lb)" "fits32 (lb_size lb)"
  shows "dec_lb (enc_lb lb) = lb \<and> length (enc_lb lb) = 12"
  using dec_lb_enc_lb [OF assms, of "[]"] by simp

theorem log_header_roundtrip_witness:
  "dec_lb (enc_lb \<lparr>lb_op = 3, lb_was_modified = 1, lb_offset = 70000, lb_size = -5\<rparr>) =
     \<lparr>lb_op = 3, lb_was_modified = 1, lb_offset = 70000, lb_size = -5\<rparr> \<and>
   length (enc_lb \<lparr>lb_op = 3, lb_was_modified = 1, lb_offset = 70000, lb_size = -5\<rparr>) = 12"
  by (rule log_header_roundtrip) (simp_all add: fits32_def)

text \<open>
  Undo on a log that is used up reports it and leaves the buffer alone, and undo on a
  buffer without a log does nothing else than say so.
\<close>

theorem undo_without_record:
  assumes "log_buffer (es_b s) = None \<or> es_last_cmd_undo s \<and> log_current (es_b s) = 1"
  shows "\<exists>s'. do_undo s = Some s' \<and> es_b s' = es_b s \<and>
    es_status s' = (if log_buffer (es_b s) = None then ''No undo information'' else ''No further undo information'')"
proof (cases "log_buffer (es_b s) = None")
  case True
  then show ?thesis by (simp add: do_undo_def)
next
  case False
  with undo_exhausted [of s] assms show ?thesis by auto
qed

theorem undo_without_record_witness:
  "\<exists>s'. do_undo (sample_window sample_buffer) = Some s' \<and> es_b s' = sample_buffer \<and> es_status s' = ''No undo information''"
  using undo_without_record [of "sample_window sample_buffer"] sample_start(1)
  by (simp add: sample_window_def unlogged_start_def)

end
