(* ===== verification/BufferLaws.thy ===== *)
theory BufferLaws
  imports UndoHistory
begin

text \<open>
  The laws of the buffer primitives on a logged buffer: the text each one produces, what
  logging leaves alone, how marks and the style buffer follow the text, and the properties
  of pages and of the page cache.
\<close>

section \<open>What logging leaves alone\<close>

definition log_only :: "'a EditBuffer_scheme \<Rightarrow> 'a EditBuffer_scheme \<Rightarrow> bool" where
  "log_only b b' \<longleftrightarrow> mark b' = mark b \<and> point b' = point b \<and> ext_offsets b' = ext_offsets b \<and>
     property_list b' = property_list b \<and> b_styles b' = b_styles b \<and> cur_style b' = cur_style b \<and>
     style_shift b' = style_shift b \<and> char_shift b' = char_shift b \<and> first_callback b' = first_callback b"

lemma log_only_trans: "log_only b b' \<Longrightarrow> log_only b' b'' \<Longrightarrow> log_only b b''"
  by (simp add: log_only_def)

lemma log_only_parts:
  "log_only b (ensure_log b)" "log_only b (drop_oldest_log b)"
  "coalesce_log b op off sz = Inl b' \<or> coalesce_log b op off sz = Inr b' \<Longrightarrow> log_only b b'"
  by (auto simp: log_only_def ensure_log_def drop_oldest_log_def coalesce_log_def Let_def case_prod_beta
      split: option.splits if_splits)

lemma log_only_append: "log_only b (append_log b op off sz wm)"
proof -
  have "log_only (b\<lparr>last_log := op\<rparr>) (fst (snd (eb_insert_buffer_with eb_addlog0 l i (b\<lparr>last_log := op\<rparr>) off sz)))" for l i
    by (subst insert_buffer_src) (simp add: log_only_def)
  then show ?thesis
    by (simp add: append_log_def Let_def case_prod_beta log_only_def)
qed

definition notified :: "'a EditBuffer_scheme \<Rightarrow> LogOperation \<Rightarrow> int \<Rightarrow> int \<Rightarrow> 'a EditBuffer_scheme" where
  "notified b op off sz = call_callbacks eb_style_callback (first_callback b) b op off sz"

lemma eb_addlog_log_only:
  assumes "\<not> composite b"
  shows "log_only (notified b op off sz) (eb_addlog b op off sz)"
proof -
  define b2 where "b2 = (notified b op off sz)\<lparr>modified := True\<rparr>"
  define b4 where "b4 = (if nb_logs (ensure_log b2) \<ge> NB_LOGS_MAX - 1 then drop_oldest_log (ensure_log b2) else ensure_log b2)"
  have 2: "log_only (notified b op off sz) b2" by (simp add: b2_def log_only_def)
  have 4: "log_only (notified b op off sz) b4"
    using log_only_trans [OF 2 log_only_parts(1)] log_only_trans [OF log_only_trans [OF 2 log_only_parts(1)] log_only_parts(2)]
    by (simp add: b4_def)
  have "eb_addlog b op off sz = (if \<not> save_log b2 then b2 else case coalesce_log b4 op off sz of Inl b5 \<Rightarrow> b5
      | Inr b5 \<Rightarrow> append_log b5 op off sz (modified (notified b op off sz)))"
    using assms unfolding eb_addlog_def Let_def b4_def b2_def notified_def by simp
  then show ?thesis
    using 2 log_only_trans [OF 4 log_only_parts(3), of op off sz]
      log_only_trans [OF log_only_trans [OF 4 log_only_parts(3)] log_only_append, of op off sz _ op off sz]
    by (cases "coalesce_log b4 op off sz") auto
qed

lemma log_only_repaged:
  assumes "repaged b b'"
  shows "log_only b b'"
proof -
  from assms have e: "b' = b\<lparr>page_table := page_table b', total_size := total_size b', cur_page := cur_page b'\<rparr>"
    by (simp add: repaged_def)
  show ?thesis by (subst e) (simp add: log_only_def)
qed

lemma change_log_only:
  assumes "\<not> composite b" "repaged (eb_addlog b op off sz) b'"
  shows "log_only (notified b op off sz) b'"
  using log_only_trans [OF eb_addlog_log_only [OF assms(1)] log_only_repaged [OF assms(2)]] .

section \<open>Marks\<close>

definition mark_calls :: "EditBufferCallbackList list \<Rightarrow> EditBufferCallbackList list" where
  "mark_calls ls = filter (\<lambda>l. cb_callback l = OffsetCallback \<and> cb_opaque l = PtrMark) ls"

lemma update_offset_mark: "mark (update_offset p f b) = (if p = PtrMark then f (mark b) else mark b)"
  by (cases p) simp_all

lemma eb_set_style_mark: "mark (eb_set_style b st op off sz) = mark b"
  by (simp add: eb_set_style_def Let_def split: option.split LogOperation.split)

lemma call_callbacks_mark:
  "mark (call_callbacks eb_style_callback ls b op off sz) =
   fold (\<lambda>l p. eb_offset_callback p (cb_arg l) op off sz) (mark_calls ls) (mark b)"
  by (induction ls arbitrary: b)
     (auto simp: mark_calls_def update_offset_mark eb_style_callback_def eb_set_style_mark split: callback_fn.splits)


text \<open>One step of the callback, against the text it describes.\<close>

lemma offset_callback_insert:
  assumes "0 \<le> off" "off \<le> int (length t)" "0 \<le> p" "p \<le> int (length t)" "0 < length buf"
  defines "p' \<equiv> eb_offset_callback p 0 LOGOP_INSERT off (int (length buf))"
    and "t' \<equiv> splice_at (nat off) 0 buf t"
  shows "if p \<le> off then p' = p \<and> take (nat p') t' = take (nat p) t else drop (nat p') t' = drop (nat p) t"
    "0 \<le> p'" "p' \<le> int (length t')"
proof -
  have e: "p' = (if p \<le> off then p else p + int (length buf))"
    by (auto simp: p'_def eb_offset_callback_def)
  have l: "int (length t') = int (length t) + int (length buf)"
    using assms(2) by (simp add: t'_def splice_at_def)
  show "0 \<le> p'" "p' \<le> int (length t')" unfolding l unfolding e using assms(1-5) by auto
  show "if p \<le> off then p' = p \<and> take (nat p') t' = take (nat p) t else drop (nat p') t' = drop (nat p) t"
  proof (cases "p \<le> off")
    case True
    then have "nat p \<le> nat off" by simp
    with True assms(2) show ?thesis by (simp add: e t'_def splice_at_def min_absorb1)
  next
    case False
    then obtain k where k: "nat p = nat off + k" "nat off \<le> length t"
      using assms(1,2) by (metis le_iff_add nat_le_iff nat_mono not_le order_less_imp_le)
    have "nat p' = nat off + length buf + k" using False k assms(1) by (simp add: e)
    with False k show ?thesis by (simp add: t'_def splice_at_def add.commute)
  qed
qed

lemma offset_callback_delete:
  fixes edge :: int
  assumes "0 \<le> off" "0 < sz" "off + sz \<le> int (length t)" "0 \<le> p" "p \<le> int (length t)"
  defines "p' \<equiv> eb_offset_callback p edge LOGOP_DELETE off sz"
    and "t' \<equiv> splice_at (nat off) (nat sz) [] t"
  shows "if p \<le> off then p' = p \<and> take (nat p') t' = take (nat p) t
     else if p < off + sz then p' = off else drop (nat p') t' = drop (nat p) t"
    "0 \<le> p'" "p' \<le> int (length t')"
proof -
  have e: "p' = (if p \<le> off then p else if p < off + sz then off else p - sz)"
    by (auto simp: p'_def eb_offset_callback_def Let_def)
  have "nat off + nat sz \<le> length t" using assms(1,2,3) by simp
  then have l: "int (length t') = int (length t) - sz"
    using assms(2) by (simp add: t'_def splice_at_def of_nat_diff)
  show "0 \<le> p'" "p' \<le> int (length t')" unfolding l unfolding e using assms(1-5) by auto
  show "if p \<le> off then p' = p \<and> take (nat p') t' = take (nat p) t
     else if p < off + sz then p' = off else drop (nat p') t' = drop (nat p) t"
  proof (cases "p \<le> off \<or> p < off + sz")
    case True
    then have "p \<le> off \<Longrightarrow> nat p \<le> nat off" by simp
    with True assms(1-3) show ?thesis by (auto simp: e t'_def splice_at_def min_absorb1)
  next
    case False
    define k where "k = nat (p - (off + sz))"
    have k: "nat p = nat off + nat sz + k" "nat (p - sz) = nat off + k" "nat off \<le> length t"
      using False assms(1-3) unfolding k_def by linarith+
    with False show ?thesis by (simp add: e t'_def splice_at_def add.commute add.left_commute)
  qed
qed


section \<open>Styles\<close>

lemma style_fill_add:
  assumes "2 ^ k dvd m" "2 ^ k dvd n"
  shows "style_fill k st (m + n) = style_fill k st m @ style_fill k st n"
proof -
  from assms obtain a b where "m = 2 ^ k * a" "n = 2 ^ k * b" by (auto elim!: dvdE)
  then have "(m + n) div 2 ^ k = m div 2 ^ k + n div 2 ^ k" by (simp flip: distrib_left)
  then show ?thesis by (simp add: style_fill_def replicate_add)
qed

lemma length_style_unit [simp]: "length (style_unit k st) = 2 ^ k"
  by (simp add: style_unit_def)

lemma length_style_fill: "2 ^ k dvd n \<Longrightarrow> length (style_fill k st n) = n"
  by (auto simp: style_fill_def length_concat comp_def sum_list_replicate)

lemma pow_dvd_256: "k \<le> 8 \<Longrightarrow> (2::nat) ^ k dvd 256"
  using le_imp_power_dvd [of k 8 "2::nat"] by simp

lemma splice_at_nothing_more: "k \<le> length xs \<Longrightarrow>
  splice_at (k + length ys) 0 zs (splice_at k 0 ys xs) = splice_at k 0 (ys @ zs) xs"
  by (simp add: splice_at_def)

lemma set_style_loop_insert:
  assumes "leaf_ok s" "k \<le> 8" "2 ^ k dvd n" "off \<le> length (btext s)"
  shows "btext (set_style_loop k st LOGOP_INSERT s (int off) (int n)) = splice_at off 0 (style_fill k st n) (btext s)"
    "leaf_ok (set_style_loop k st LOGOP_INSERT s (int off) (int n))"
proof -
  show "leaf_ok (set_style_loop k st LOGOP_INSERT s (int off) (int n))"
    by (rule set_style_loop_ok [OF assms(1)])
  show "btext (set_style_loop k st LOGOP_INSERT s (int off) (int n)) = splice_at off 0 (style_fill k st n) (btext s)"
    using assms
  proof (induction n arbitrary: s off rule: less_induct)
    case (less n)
    show ?case
    proof (cases "n = 0")
      case True
      then show ?thesis by (simp add: set_style_loop.simps style_fill_def)
    next
      case False
      define m where "m = min n 256"
      have m: "m \<le> n" "0 < m" "min (int n) 256 = int m" "2 ^ k dvd m" "2 ^ k dvd (n - m)"
        using False less.prems(3) pow_dvd_256 [OF less.prems(2)] by (auto simp: m_def min_def dvd_diff_nat)
      define s' where "s' = fst (eb_insert0 s (int off) (style_fill k st m))"
      have "\<not> readonly s" "total_size s = int (length (btext s))"
        using less.prems(1) by (simp_all add: leaf_ok_def buf_wf_def)
      with less.prems(4) leaf.insert_correct [OF less.prems(1), of "int off" "style_fill k st m"]
      have s': "btext s' = splice_at off 0 (style_fill k st m) (btext s)" "leaf_ok s'"
        by (simp_all add: s'_def eb_insert0_def min_absorb1)
      have off': "off + m \<le> length (btext s')"
        using s'(1) less.prems(4) length_style_fill [OF m(4)] by (simp add: splice_at_def)
      have "set_style_loop k st LOGOP_INSERT s (int off) (int n) =
          set_style_loop k st LOGOP_INSERT s' (int (off + m)) (int (n - m))"
        using False m(1,3) by (subst set_style_loop.simps) (simp add: s'_def of_nat_diff Let_def)
      then have "btext (set_style_loop k st LOGOP_INSERT s (int off) (int n)) =
          splice_at (off + m) 0 (style_fill k st (n - m)) (btext s')"
        using less.IH [of "n - m", OF _ s'(2) less.prems(2) m(5) off'] m(1,2) by simp
      then show ?thesis
        using splice_at_nothing_more [OF less.prems(4), of "style_fill k st m" "style_fill k st (n - m)"]
          style_fill_add [OF m(4,5), of st] m(1) length_style_fill [OF m(4)] s'(1) by simp
    qed
  qed
qed

definition style_calls :: "EditBufferCallbackList list \<Rightarrow> EditBufferCallbackList list" where
  "style_calls ls = filter (\<lambda>l. cb_callback l = StyleCallback) ls"

lemma update_offset_style [simp]:
  "cur_style (update_offset p f b) = cur_style b" "style_shift (update_offset p f b) = style_shift b"
  "char_shift (update_offset p f b) = char_shift b"
  by (cases p; simp)+

lemma eb_set_style_params [simp]:
  "cur_style (eb_set_style b st op off sz) = cur_style b" "style_shift (eb_set_style b st op off sz) = style_shift b"
  "char_shift (eb_set_style b st op off sz) = char_shift b"
  by (simp_all add: eb_set_style_def Let_def split: option.split LogOperation.split)

lemma call_callback_style_params:
  "cur_style (call_callback eb_style_callback l b op off sz) = cur_style b"
  "style_shift (call_callback eb_style_callback l b op off sz) = style_shift b"
  "char_shift (call_callback eb_style_callback l b op off sz) = char_shift b"
  "cb_callback l \<noteq> StyleCallback \<Longrightarrow> b_styles (call_callback eb_style_callback l b op off sz) = b_styles b"
  by (simp_all add: eb_style_callback_def split: callback_fn.split)

lemma call_callbacks_no_style:
  "style_calls ls = [] \<Longrightarrow> b_styles (call_callbacks eb_style_callback ls b op off sz) = b_styles b"
  by (induction ls arbitrary: b)
     (simp_all add: style_calls_def call_callback_style_params del: call_callback.simps split: if_splits)

lemma eb_set_style_cong:
  "b_styles b = b_styles b' \<Longrightarrow> style_shift b = style_shift b' \<Longrightarrow> char_shift b = char_shift b' \<Longrightarrow>
   b_styles (eb_set_style b st op off sz) = b_styles (eb_set_style b' st op off sz)"
  by (simp add: eb_set_style_def Let_def split: option.split LogOperation.split)

lemma call_callbacks_style:
  assumes "style_calls ls = [l]"
  shows "b_styles (call_callbacks eb_style_callback ls b op off sz) = b_styles (eb_set_style b (cur_style b) op off sz)"
  using assms
proof (induction ls arbitrary: b)
  case (Cons a ls)
  show ?case
  proof (cases "cb_callback a = StyleCallback")
    case True
    with Cons.prems have "style_calls ls = []" by (simp add: style_calls_def)
    with True show ?thesis
      by (simp add: call_callbacks_no_style) (simp add: eb_style_callback_def)
  next
    case False
    with Cons.prems have "style_calls ls = [l]" by (simp add: style_calls_def)
    then have "b_styles (call_callbacks eb_style_callback (a # ls) b op off sz) =
        b_styles (eb_set_style (call_callback eb_style_callback a b op off sz) (cur_style b) op off sz)"
      by (simp add: Cons.IH call_callback_style_params del: call_callback.simps)
    also have "\<dots> = b_styles (eb_set_style b (cur_style b) op off sz)"
      by (rule eb_set_style_cong) (simp_all only: call_callback_style_params(2,3) call_callback_style_params(4) [OF False])
    finally show ?thesis .
  qed
qed (simp add: style_calls_def)


section \<open>Properties\<close>

lemma sample_ok: "ebuf_ok sample_buffer" "\<not> readonly sample_buffer" "\<not> composite sample_buffer"
  "btext sample_buffer = [97, 98, 99, 10]"
  using sample_start(1) by (simp_all add: unlogged_start_def logging_def)
    (simp add: sample_buffer_def content_def new_page_def eb_new0_def eb_add_callback_def EditBuffer0.extend_def)

text \<open>
  C5. Insertion: the bytes are spliced in at the offset, clipped to the end of the text; a
  read-only buffer and a negative offset leave the text alone. The invariant is kept and the
  number of inserted bytes is returned.
\<close>

theorem eb_insert_text:
  assumes "ebuf_ok b"
  shows "btext (fst (eb_insert b off buf)) =
      (if readonly b \<or> off < 0 then btext b else splice_at (nat (min off (total_size b))) 0 buf (btext b)) \<and>
    ebuf_ok (fst (eb_insert b off buf)) \<and>
    snd (eb_insert b off buf) = (if readonly b \<or> off < 0 then 0 else int (length buf))"
  using eb.insert_correct [OF assms] ebuf_size [OF assms]
  by (auto simp: eb_insert_def eb_insert_with_def Let_def split: if_splits)

theorem eb_insert_text_witness:
  "btext (fst (eb_insert sample_buffer 9 [120])) = splice_at 4 0 [120] (btext sample_buffer) \<and>
   ebuf_ok (fst (eb_insert sample_buffer 9 [120])) \<and> snd (eb_insert sample_buffer 9 [120]) = 1"
proof -
  have "ebuf_ok sample_buffer" "\<not> readonly sample_buffer"
    using sample_start(1) by (simp_all add: unlogged_start_def logging_def)
  with eb_insert_text [OF this(1), of 9 "[120]"] sample_start(2) show ?thesis by simp
qed

text \<open>
  C6. Deletion removes exactly the requested range, clipped to the text; a read-only
  buffer and a negative offset leave it alone. The invariant is kept.
\<close>

theorem eb_delete_text:
  assumes "ebuf_ok b"
  shows "btext (fst (eb_delete b off sz)) =
      (if readonly b \<or> off < 0 then btext b else splice_at (nat off) (nat sz) [] (btext b)) \<and>
    ebuf_ok (fst (eb_delete b off sz)) \<and>
    snd (eb_delete b off sz) = total_size b - total_size (fst (eb_delete b off sz))"
proof -
  note d = eb.delete_correct [OF assms, of off sz, folded eb_delete_def]
  have "snd (eb_delete b off sz) = total_size b - total_size (fst (eb_delete b off sz))"
    using eb.addlog_size [OF assms]
    by (auto simp: eb_delete_def eb_delete_with_def Let_def split: prod.split)
  with d show ?thesis by simp
qed

theorem eb_delete_text_witness:
  "btext (fst (eb_delete sample_buffer 1 99)) = [97] \<and> ebuf_ok (fst (eb_delete sample_buffer 1 99)) \<and>
   snd (eb_delete sample_buffer 1 99) = total_size sample_buffer - total_size (fst (eb_delete sample_buffer 1 99))"
  using eb_delete_text [OF sample_ok(1), of 1 99] sample_ok by (simp add: splice_at_def)

text \<open>
  C7. Overwriting replaces the bytes at the offset and extends the text when the data
  reach beyond its end; an offset outside the text changes nothing.
\<close>

theorem eb_write_text:
  assumes "ebuf_ok b"
  shows "btext (fst (eb_write b off buf)) =
      (if readonly b \<or> off < 0 \<or> off > total_size b then btext b
       else splice_at (nat off) (length buf) buf (btext b)) \<and>
    ebuf_ok (fst (eb_write b off buf))"
  using eb.write_correct(1,2) [OF assms, of off buf] by (simp add: eb_write_def)

theorem eb_write_text_witness:
  "btext (fst (eb_write sample_buffer 3 [65, 66])) = [97, 98, 99, 65, 66] \<and>
   ebuf_ok (fst (eb_write sample_buffer 3 [65, 66]))"
  using eb_write_text [OF sample_ok(1), of 3 "[65, 66]"] sample_ok sample_start(2)
  by (simp add: splice_at_def numeral_eq_Suc)

text \<open>
  C8. Copying between buffers inserts the clipped range of the source, page by page, and
  changes nothing but the page cache of the source.
\<close>

theorem eb_insert_buffer_text:
  assumes "ebuf_ok dest" "buf_wf src"
  shows "btext (fst (eb_insert_buffer dest off src so sz)) =
      (if readonly dest \<or> off < 0 \<or> so < 0 then btext dest
       else splice_at (nat (min off (total_size dest))) 0 (take (nat sz) (drop (nat so) (btext src))) (btext dest)) \<and>
    ebuf_ok (fst (eb_insert_buffer dest off src so sz)) \<and>
    (\<exists>c. fst (snd (eb_insert_buffer dest off src so sz)) = src\<lparr>cur_page := c\<rparr>)"
proof -
  note i = eb.insert_buffer_correct [OF assms, of off so sz]
  have "\<exists>c. fst (snd (eb_insert_buffer_with eb_addlog dest off src so sz)) = src\<lparr>cur_page := c\<rparr>"
    using insert_buffer_src [of eb_addlog dest off src so sz] by metis
  with i(1,2) show ?thesis by (simp add: eb_insert_buffer_def)
qed

theorem eb_insert_buffer_text_witness:
  "btext (fst (eb_insert_buffer sample_buffer 0 sample_buffer 2 9)) = [99, 10, 97, 98, 99, 10] \<and>
   ebuf_ok (fst (eb_insert_buffer sample_buffer 0 sample_buffer 2 9)) \<and>
   (\<exists>c. fst (snd (eb_insert_buffer sample_buffer 0 sample_buffer 2 9)) = sample_buffer\<lparr>cur_page := c\<rparr>)"
  using eb_insert_buffer_text [OF sample_ok(1) eb.inv_wf [OF sample_ok(1)], of 0 2 9] sample_ok sample_start(2)
  by (simp add: splice_at_def numeral_eq_Suc)

text \<open>
  C9. Replacing a range, whether done as an overwrite or as a deletion and an insertion,
  gives the text with the range exchanged.
\<close>

theorem eb_replace_text:
  assumes "ebuf_ok b" "\<not> readonly b" "0 \<le> off" "0 \<le> sz" "off + sz \<le> total_size b"
  shows "btext (fst (eb_replace b off sz buf)) = splice_at (nat off) (nat sz) buf (btext b) \<and>
    ebuf_ok (fst (eb_replace b off sz buf))"
  using eb.replace_correct [OF assms, of buf] by (simp add: eb_replace_def)

theorem eb_replace_text_witness:
  "btext (fst (eb_replace sample_buffer 1 2 [65])) = [97, 65, 10] \<and> ebuf_ok (fst (eb_replace sample_buffer 1 2 [65]))"
  using eb_replace_text [OF sample_ok(1,2), of 1 2 "[65]"] sample_ok sample_start(2)
  by (simp add: splice_at_def numeral_eq_Suc)

text \<open>
  C11. The page cache is invisible: whatever page a valid cache points to, locating an
  offset finds the page and position that a search from the first page finds, and leaves a
  valid cache.
\<close>

theorem find_page_ignores_cache:
  assumes "pages_ok pt" "cache_ok pt cache" "off < length (content pt)"
  shows "fst (find_page pt cache off) = find_page_from pt 0 off \<and> cache_ok pt (snd (find_page pt cache off))"
proof -
  obtain i po c where 1: "find_page pt cache off = ((i, po), c)" "i < length pt" "po < psize (pt ! i)"
    "off = length (content (take i pt)) + po" "cache_ok pt c"
    using find_page_correct [OF assms(2,3)] by blast
  have "find_page_from pt j (length (content (take i pt)) + po) = (j + i, po)" if "i < length pt" "po < psize (pt ! i)" for j
    using that
  proof (induction pt arbitrary: i j)
    case (Cons p ps)
    then show ?case by (cases i) simp_all
  qed simp
  from this [of 0] 1 show ?thesis by simp
qed

theorem find_page_ignores_cache_witness:
  "fst (find_page [new_page [1, 2], new_page [3, 4, 5]] (Some (1, 2)) 3) =
     find_page_from [new_page [1, 2], new_page [3, 4, 5]] 0 3 \<and>
   cache_ok [new_page [1, 2], new_page [3, 4, 5]] (snd (find_page [new_page [1, 2], new_page [3, 4, 5]] (Some (1, 2)) 3))"
  by (rule find_page_ignores_cache) (simp_all add: pages_ok_def cache_ok_def content_def new_page_def MAX_PAGE_SIZE_def)

text \<open>
  C10. Copy on write and cache coherence: every page of the table after an insertion, a
  deletion, an overwrite or a copy is a page of the table before, untouched, or a private
  page whose cached line, column, character and colour information is marked invalid; no
  page is empty or longer than the page size.
\<close>

theorem changed_pages_are_private:
  assumes "ebuf_ok b" "buf_wf src"
    "b' \<in> {fst (eb_insert b off buf), fst (eb_delete b off sz), fst (eb_write b off buf), fst (eb_insert_buffer b off src so sz)}"
    "p \<in> set (page_table b')"
  shows "(p \<in> set (page_table b) \<or>
     \<not> pg_read_only p \<and> \<not> pg_valid_pos p \<and> \<not> pg_valid_char p \<and> \<not> pg_valid_colors p) \<and>
    0 < psize p \<and> psize p \<le> MAX_PAGE_SIZE"
proof -
  have "pages_from (page_table b) (page_table b')" "ebuf_ok b'"
    using assms(3) eb.insert_correct(2,4) [OF assms(1)] eb.delete_correct(2,4) [OF assms(1)]
      eb.write_correct(2,4) [OF assms(1)] eb.insert_buffer_correct(2,4) [OF assms(1,2)]
    by (auto simp: eb_insert_def eb_delete_def eb_write_def eb_insert_buffer_def)
  then show ?thesis
    using assms(4) by (auto simp: pages_from_def page_stale_def list_all_iff ebuf_ok_def buf_wf_def pages_ok_def)
qed

lemma sample_inserted_page: "new_page [120, 97, 98, 99, 10] \<in> set (page_table (fst (eb_insert sample_buffer 0 [120])))"
proof -
  have "page_table (eb_addlog sample_buffer LOGOP_INSERT 0 1) = [new_page [97, 98, 99, 10]]"
    using eb.addlog_pages [OF sample_ok(1)] by (simp add: sample_buffer_def EditBuffer0.extend_def)
  then show ?thesis
    using sample_ok(2) sample_start(2)
    by (simp add: eb_insert_def eb_insert_with_def insert_lowlevel_def eb_insert_lowlevel_def eb_insert1_def
        new_page_def update_page_def MAX_PAGE_SIZE_def Let_def)
qed

theorem changed_pages_are_private_witness:
  "(new_page [120, 97, 98, 99, 10] \<in> set (page_table sample_buffer) \<or>
     \<not> pg_read_only (new_page [120, 97, 98, 99, 10]) \<and> \<not> pg_valid_pos (new_page [120, 97, 98, 99, 10]) \<and>
     \<not> pg_valid_char (new_page [120, 97, 98, 99, 10]) \<and> \<not> pg_valid_colors (new_page [120, 97, 98, 99, 10])) \<and>
   0 < psize (new_page [120, 97, 98, 99, 10]) \<and> psize (new_page [120, 97, 98, 99, 10]) \<le> MAX_PAGE_SIZE"
  using changed_pages_are_private [OF sample_ok(1) eb.inv_wf [OF sample_ok(1)] _ sample_inserted_page, of 0 "[120]" 0 0]
  by simp



definition sample_marked :: EditBuffer where
  "sample_marked = sample_buffer\<lparr>mark := 3\<rparr>"


lemma styles_insert:
  assumes "ebuf_ok b" "\<not> readonly b" "\<not> composite b" "style_calls (first_callback b) = [l]" "char_shift b = 0"
    "style_shift b \<le> 3" "b_styles b = Some s" "length (btext s) = 2 ^ style_shift b * length (btext b)"
    "0 \<le> off" "off \<le> total_size b" "buf \<noteq> []"
  shows "\<exists>s'. b_styles (fst (eb_insert b off buf)) = Some s' \<and>
      btext s' = splice_at (nat off * 2 ^ style_shift b) 0
        (concat (replicate (length buf) (style_unit (style_shift b) (cur_style b)))) (btext s) \<and>
      length (btext s') = 2 ^ style_shift b * length (btext (fst (eb_insert b off buf)))"
proof -
  let ?k = "style_shift b"
  have s: "leaf_ok s" using assms(1,7) by (simp add: ebuf_ok_def)
  have e: "min off (total_size b) = off" using assms(10) by simp
  note i = eb.insert_repaged [OF assms(1,2,9,11), folded eb_insert_def, unfolded e]
  have bi: "b_styles (fst (eb_insert b off buf)) = b_styles (eb_set_style b (cur_style b) LOGOP_INSERT off (int (length buf)))"
    using change_log_only [OF assms(3) i(1)]
    by (simp add: log_only_def notified_def call_callbacks_style [OF assms(4)])
  have pos: "nat off * 2 ^ ?k \<le> length (btext s)" "nat off \<le> length (btext b)"
    using assms(8-10) ebuf_size [OF assms(1)] by (simp_all add: mult.commute)
  have off: "off * 2 ^ ?k = int (nat off * 2 ^ ?k)" "int (length buf) * 2 ^ ?k = int (length buf * 2 ^ ?k)"
    using assms(9) by simp_all
  define si where "si = set_style_loop ?k (cur_style b) LOGOP_INSERT s (int (nat off * 2 ^ ?k)) (int (length buf * 2 ^ ?k))"
  have "?k \<le> 8" using assms(6) by simp
  from set_style_loop_insert(1) [OF s this _ pos(1), of "length buf * 2 ^ ?k" "cur_style b"]
  have si: "btext si = splice_at (nat off * 2 ^ ?k) 0 (concat (replicate (length buf) (style_unit ?k (cur_style b)))) (btext s)"
    by (simp add: si_def style_fill_def)
  have "b_styles (fst (eb_insert b off buf)) = Some si"
    using assms(5,7,9,11) by (simp add: bi eb_set_style_def Let_def si_def flip: off)
  moreover have "length (btext si) = 2 ^ ?k * length (btext (fst (eb_insert b off buf)))"
    unfolding si i(3) using pos(1,2) assms(8)
    by (simp add: length_splice_at length_concat comp_def sum_list_replicate algebra_simps)
  ultimately show ?thesis using si by blast
qed

lemma styles_delete:
  assumes "ebuf_ok b" "\<not> readonly b" "\<not> composite b" "style_calls (first_callback b) = [l]" "char_shift b = 0"
    "b_styles b = Some s" "length (btext s) = 2 ^ style_shift b * length (btext b)"
    "0 \<le> off" "0 < sz" "off + sz \<le> total_size b"
  shows "\<exists>s'. b_styles (fst (eb_delete b off sz)) = Some s' \<and>
      btext s' = splice_at (nat off * 2 ^ style_shift b) (nat sz * 2 ^ style_shift b) [] (btext s) \<and>
      length (btext s') = 2 ^ style_shift b * length (btext (fst (eb_delete b off sz)))"
proof -
  let ?k = "style_shift b"
  have s: "leaf_ok s" "\<not> readonly s" using assms(1,6) by (simp_all add: ebuf_ok_def leaf_ok_def)
  have "off < total_size b" and e: "min sz (total_size b - off) = sz" using assms(9,10) by simp_all
  note d = eb.delete_repaged [OF assms(1,2,8) \<open>off < total_size b\<close> assms(9), folded eb_delete_def, unfolded e]
  have bd: "b_styles (fst (eb_delete b off sz)) = b_styles (eb_set_style b (cur_style b) LOGOP_DELETE off sz)"
    using change_log_only [OF assms(3) d(1)]
    by (simp add: log_only_def notified_def call_callbacks_style [OF assms(4)])
  have pos: "nat off + nat sz \<le> length (btext b)" "nat off * 2 ^ ?k + nat sz * 2 ^ ?k \<le> length (btext s)"
    using assms(7-10) ebuf_size [OF assms(1)] by (simp_all add: mult.commute add_mult_distrib [symmetric])
  have off: "off * 2 ^ ?k = int (nat off * 2 ^ ?k)" "sz * 2 ^ ?k = int (nat sz * 2 ^ ?k)"
    using assms(8,9) by simp_all
  define sd where "sd = fst (eb_delete0 s (int (nat off * 2 ^ ?k)) (int (nat sz * 2 ^ ?k)))"
  have sd: "btext sd = splice_at (nat off * 2 ^ ?k) (nat sz * 2 ^ ?k) [] (btext s)"
    using leaf.delete_correct(1) [OF s(1), of "int (nat off * 2 ^ ?k)" "int (nat sz * 2 ^ ?k)"] s(2)
    by (simp add: sd_def eb_delete0_def del: of_nat_mult of_nat_power)
  have "b_styles (fst (eb_delete b off sz)) = Some sd"
    using assms(5,6,8,9) by (simp add: bd eb_set_style_def Let_def sd_def flip: off)
  moreover have "length (btext sd) = 2 ^ ?k * length (btext (fst (eb_delete b off sz)))"
    unfolding sd d(3) length_splice_at [OF pos(1)] length_splice_at [OF pos(2)] assms(7)
    using pos(1) by (simp add: diff_mult_distrib2 mult.commute)
  ultimately show ?thesis using sd by blast
qed


definition sample_styled :: EditBuffer where
  "sample_styled = sample_buffer\<lparr>b_styles := Some ((eb_new0 BF_IS_STYLE)\<lparr>page_table := [new_page [1, 2, 3, 4]], total_size := 4\<rparr>),
     cur_style := 7, first_callback := [\<lparr>cb_callback = StyleCallback, cb_opaque = NullPtr, cb_arg = 0\<rparr>]\<rparr>"


end
