(* ===== verification/Utf8.thy ===== *)
theory Utf8
  imports Prelude
begin

text \<open>
  UTF-8 (\<^verbatim>\<open>src/util.c\<close>, section ``UTF-8 specific tables''): the lax decoder that
  accepts every 32-bit code, the strict decoder, and the encoder. A decoder is given the
  bytes from \<^verbatim>\<open>*pp\<close> on and returns the code and the number of bytes by which it
  advances the pointer; the end of the list stands for the terminating zero byte.
\<close>

section \<open>Tables\<close>

definition utf8_length_table :: "nat list" where
  "utf8_length_table = replicate 128 1 @ replicate 64 1 @ replicate 32 2 @ replicate 16 3 @
     replicate 8 4 @ replicate 4 5 @ replicate 2 6 @ [1, 1]"

definition utf8_length :: "byte \<Rightarrow> nat" where
  "utf8_length c = utf8_length_table ! unat c"

definition utf8_min_code :: "char32 list" where
  "utf8_min_code = [0, 0, 0x80, 0x800, 0x10000, 0x00200000, 0x04000000]"

definition utf8x_length_table :: "nat list" where
  "utf8x_length_table = replicate 32 2 @ replicate 16 3 @ replicate 8 4 @ replicate 4 5 @
     replicate 2 6 @ replicate 2 6"

definition utf8x_bits_table :: "nat list" where
  "utf8x_bits_table = [0..<32] @ [0..<16] @ [0..<8] @ [0..<4] @ [0..<2] @ [2..<4]"

definition utf8_is_trailing_byte :: "byte \<Rightarrow> bool" where
  "utf8_is_trailing_byte c \<longleftrightarrow> c AND 0xC0 = 0x80"

definition INVALID_CHAR :: char32 where "INVALID_CHAR = 0xfffd"

section \<open>Decoding\<close>

fun decode_trail :: "nat \<Rightarrow> char32 \<Rightarrow> byte list \<Rightarrow> char32 option" where
  "decode_trail 0 c bs = Some c"
| "decode_trail (Suc n) c [] = None"
| "decode_trail (Suc n) c (b # bs) =
     (let c1 = b XOR 0x80
      in if c1 > 0x3f then None else decode_trail n (push_bit 6 c + ucast c1) bs)"

fun utf8_decode :: "byte list \<Rightarrow> char32 \<times> nat" where
  "utf8_decode [] = (0, 1)"
| "utf8_decode (b # bs) =
     (if b < 0xC0 then (ucast b, 1)
      else let len = utf8x_length_table ! (unat b - 0xC0);
               c = of_nat (utf8x_bits_table ! (unat b - 0xC0))
           in case decode_trail (len - 1) c bs of
                Some c' \<Rightarrow> (c', len)
              | None \<Rightarrow> (ucast b, 1))"

text \<open>The loop of the strict decoder; on a failure the good trailing bytes stay consumed.\<close>

fun strict_trail :: "nat \<Rightarrow> char32 \<Rightarrow> byte list \<Rightarrow> nat \<Rightarrow> char32 option \<times> nat" where
  "strict_trail 0 c bs k = (Some c, k)"
| "strict_trail (Suc n) c [] k = (None, k)"
| "strict_trail (Suc n) c (b # bs) k =
     (let c1 = b XOR 0x80
      in if c1 > 0x3f then (None, k) else strict_trail n (push_bit 6 c + ucast c1) bs (Suc k))"

fun utf8_decode_strict :: "byte list \<Rightarrow> char32 \<times> nat" where
  "utf8_decode_strict [] = (0, 1)"
| "utf8_decode_strict (b # bs) =
     (if b < 128 then (ucast b, 1)
      else let len = utf8_length b
           in if len < 2 then (INVALID_CHAR, 1)
              else case strict_trail (len - 1) (ucast b AND drop_bit len 0x7c) bs 1 of
                (None, k) \<Rightarrow> (INVALID_CHAR, k)
              | (Some c, k) \<Rightarrow>
                  if c < utf8_min_code ! len then (INVALID_CHAR, k)
                  else if c \<ge> 0xd800 \<and> c \<le> 0xdfff then (INVALID_CHAR, k)
                  else if c = 0xfffe \<or> c = 0xffff \<or> c > 0x10ffff then (INVALID_CHAR, k)
                  else (c, k))"

section \<open>Encoding\<close>

definition trail_byte :: "nat \<Rightarrow> char32 \<Rightarrow> byte" where
  "trail_byte k c = ucast (drop_bit k c AND 0x3f) OR 0x80"

definition utf8_encode :: "char32 \<Rightarrow> byte list" where
  "utf8_encode c =
     (if c < 0x80 then [ucast c]
      else if c < 0x800 then [ucast (drop_bit 6 c) OR 0xc0, trail_byte 0 c]
      else if c < 0x10000 then [ucast (drop_bit 12 c) OR 0xe0, trail_byte 6 c, trail_byte 0 c]
      else if c < 0x00200000 then
        [ucast (drop_bit 18 c) OR 0xf0, trail_byte 12 c, trail_byte 6 c, trail_byte 0 c]
      else if c < 0x04000000 then
        [ucast (drop_bit 24 c) OR 0xf8, trail_byte 18 c, trail_byte 12 c, trail_byte 6 c, trail_byte 0 c]
      else
        [ucast (drop_bit 30 c) OR 0xfc, trail_byte 24 c, trail_byte 18 c, trail_byte 12 c,
         trail_byte 6 c, trail_byte 0 c])"

text \<open>Conversion of a string to an array of \<^verbatim>\<open>dest_length\<close> code points: the array written,
  with its terminating zero, and the number of characters.\<close>

fun utf8_chars :: "nat \<Rightarrow> byte list \<Rightarrow> char32 list" where
  "utf8_chars 0 s = []"
| "utf8_chars (Suc n) s =
     (let (c, k) = utf8_decode s in if c = 0 then [] else c # utf8_chars n (drop k s))"

definition utf8_to_char32 :: "int \<Rightarrow> byte list \<Rightarrow> char32 list \<times> nat" where
  "utf8_to_char32 dest_length str =
     (if dest_length \<le> 0 then ([], 0)
      else let cs = utf8_chars (nat dest_length - 1) str in (cs @ [0], length cs))"

section \<open>Bits\<close>

lemma mask6: "(x :: 'a::len word) AND 0x3f = take_bit 6 x"
  by (simp add: take_bit_eq_mask mask_eq_exp_minus_1)

lemma bit_0x80: "bit (0x80 :: byte) n \<longleftrightarrow> n = 7"
proof -
  have "(0x80 :: byte) = push_bit 7 1" by simp
  then show ?thesis by (simp only: bit_push_bit_iff bit_1_iff) auto
qed

lemma trail_byte_xor: "trail_byte k c XOR 0x80 = ucast (take_bit 6 (drop_bit k c))"
proof (rule bit_eqI)
  fix n
  show "bit (trail_byte k c XOR 0x80) n = bit (ucast (take_bit 6 (drop_bit k c)) :: byte) n"
    unfolding trail_byte_def mask6 bit_xor_iff bit_or_iff bit_0x80 by (auto simp: bit_simps)
qed

lemma take6_small: "(ucast (take_bit 6 (x :: char32)) :: byte) \<le> 0x3f"
proof -
  have "unat (take_bit 6 x) = take_bit 6 (unat x)" by (simp add: unsigned_take_bit_eq)
  then have "unat (take_bit 6 x) < 64" by (simp add: take_bit_eq_mod)
  then show ?thesis by (simp add: word_le_nat_alt unsigned_ucast_eq take_bit_nat_eq_self)
qed

lemma ucast_take6: "(ucast (ucast (take_bit 6 (x :: char32)) :: byte) :: char32) = take_bit 6 x"
  by (rule bit_eqI) (auto simp: bit_simps)

lemma join6: "push_bit 6 (drop_bit (6 + k) c) + take_bit 6 (drop_bit k c) = drop_bit k (c :: char32)"
proof -
  have "push_bit 6 (drop_bit (6 + k) c) + take_bit 6 (drop_bit k c) =
      push_bit 6 (drop_bit (6 + k) c) OR take_bit 6 (drop_bit k c)"
    by (rule disjunctive_add) (auto simp: bit_simps)
  also have "\<dots> = drop_bit k c"
    by (rule bit_eqI) (auto simp: bit_simps)
  finally show ?thesis .
qed

lemma decode_trail_step:
  "decode_trail (Suc n) (drop_bit (6 + k) c) (trail_byte k c # bs) = decode_trail n (drop_bit k c) bs"
  using take6_small [of "drop_bit k c"]
  by (simp add: trail_byte_xor ucast_take6 join6 not_less [symmetric] Let_def)


section \<open>Round trip\<close>

text \<open>The lead byte: a marker in the high bits and the top bits of the code below it.\<close>

lemma unat_drop_less:
  fixes c :: char32
  assumes "unat c < 2 ^ (k + j)"
  shows "unat (drop_bit k c) < 2 ^ j"
proof -
  have "unat (drop_bit k c) = unat c div 2 ^ k"
    using unsigned_drop_bit_eq [of k c, where 'a = nat] take_bit_nat_eq_self [OF unsigned_less [of c]]
    by (simp flip: drop_bit_eq_div)
  also have "\<dots> < 2 ^ j"
    using assms by (simp add: less_mult_imp_div_less mult.commute power_add)
  finally show ?thesis .
qed

lemma unat_lead:
  fixes x :: char32
  assumes "unat x < 2 ^ j" "j \<le> 6" "(m :: byte) = push_bit j (m')" "unat m + 2 ^ j \<le> 256"
  shows "unat ((ucast x :: byte) OR m) = unat m + unat x"
proof -
  have x: "unat (ucast x :: byte) = unat x"
    using assms(1,2) power_increasing [of j 6 "2::nat"] by (simp add: unsigned_ucast_eq take_bit_nat_eq_self)
  have "(ucast x :: byte) OR m = ucast x + m"
  proof (rule disjunctive_add [symmetric])
    fix n
    show "\<not> bit (ucast x :: byte) n \<or> \<not> bit m n"
    proof (cases "n < j")
      case True
      then show ?thesis by (simp add: assms(3) bit_push_bit_iff)
    next
      case False
      have "take_bit j (unat x) = unat x" using assms(1) by (simp add: take_bit_nat_eq_self)
      with False have "\<not> bit (unat x) n" by (metis bit_take_bit_iff)
      then show ?thesis by (simp add: bit_simps)
    qed
  qed
  moreover have "unat (ucast x :: byte) + unat m < 2 ^ LENGTH(8)" using x assms(1,4) by simp
  ultimately show ?thesis using x unat_add_lem [of "ucast x :: byte" m] by simp
qed

lemma lead_bytes:
  fixes x :: char32
  shows "unat x < 32 \<Longrightarrow> unat ((ucast x :: byte) OR 0xc0) = 192 + unat x"
    "unat x < 16 \<Longrightarrow> unat ((ucast x :: byte) OR 0xe0) = 224 + unat x"
    "unat x < 8 \<Longrightarrow> unat ((ucast x :: byte) OR 0xf0) = 240 + unat x"
    "unat x < 4 \<Longrightarrow> unat ((ucast x :: byte) OR 0xf8) = 248 + unat x"
    "unat x < 4 \<Longrightarrow> unat ((ucast x :: byte) OR 0xfc) = 252 + unat x"
  using unat_lead [of x 5 "0xc0" 6] unat_lead [of x 4 "0xe0" 14] unat_lead [of x 3 "0xf0" 30]
    unat_lead [of x 2 "0xf8" 62] unat_lead [of x 2 "0xfc" 63]
  by simp_all

lemma decode_lead:
  assumes "unat b = 192 + i" "i < 64" "utf8x_length_table ! i = Suc n" "of_nat (utf8x_bits_table ! i) = c"
    "decode_trail n c bs = Some c'"
  shows "utf8_decode (b # bs) = (c', Suc n)"
proof -
  have "\<not> b < 0xC0" using assms(1) by (simp add: word_less_nat_alt)
  with assms show ?thesis by (simp add: Let_def)
qed

lemma of_nat_unat_char32 [simp]: "(of_nat (unat (x :: char32)) :: char32) = x"
  by simp

lemma utf8_tables:
  "i < 32 \<Longrightarrow> utf8x_length_table ! i = 2 \<and> utf8x_bits_table ! i = i"
  "i < 16 \<Longrightarrow> utf8x_length_table ! (32 + i) = 3 \<and> utf8x_bits_table ! (32 + i) = i"
  "i < 8 \<Longrightarrow> utf8x_length_table ! (48 + i) = 4 \<and> utf8x_bits_table ! (48 + i) = i"
  "i < 4 \<Longrightarrow> utf8x_length_table ! (56 + i) = 5 \<and> utf8x_bits_table ! (56 + i) = i"
  "i < 4 \<Longrightarrow> utf8x_length_table ! (60 + i) = 6 \<and> utf8x_bits_table ! (60 + i) = i"
  by (simp_all add: utf8x_length_table_def utf8x_bits_table_def nth_append del: upt_rec_numeral upt_conv_Cons_Cons)
    auto

lemma decode_chain:
  "decode_trail 1 (drop_bit 6 c) (trail_byte 0 c # r) = Some c"
  "decode_trail 2 (drop_bit 12 c) (trail_byte 6 c # trail_byte 0 c # r) = Some c"
  "decode_trail 3 (drop_bit 18 c) (trail_byte 12 c # trail_byte 6 c # trail_byte 0 c # r) = Some c"
  "decode_trail 4 (drop_bit 24 c) (trail_byte 18 c # trail_byte 12 c # trail_byte 6 c # trail_byte 0 c # r) = Some c"
  "decode_trail 5 (drop_bit 30 c) (trail_byte 24 c # trail_byte 18 c # trail_byte 12 c # trail_byte 6 c # trail_byte 0 c # r) = Some c"
proof -
  note st = decode_trail_step [of 0 0 c] decode_trail_step [of "Suc 0" 6 c] decode_trail_step [of "Suc (Suc 0)" 12 c]
    decode_trail_step [of "Suc (Suc (Suc 0))" 18 c] decode_trail_step [of "Suc (Suc (Suc (Suc 0)))" 24 c]
  show "decode_trail 1 (drop_bit 6 c) (trail_byte 0 c # r) = Some c"
    "decode_trail 2 (drop_bit 12 c) (trail_byte 6 c # trail_byte 0 c # r) = Some c"
    "decode_trail 3 (drop_bit 18 c) (trail_byte 12 c # trail_byte 6 c # trail_byte 0 c # r) = Some c"
    "decode_trail 4 (drop_bit 24 c) (trail_byte 18 c # trail_byte 12 c # trail_byte 6 c # trail_byte 0 c # r) = Some c"
    "decode_trail 5 (drop_bit 30 c) (trail_byte 24 c # trail_byte 18 c # trail_byte 12 c # trail_byte 6 c # trail_byte 0 c # r) = Some c"
    using st by (simp_all add: eval_nat_numeral del: decode_trail.simps(3))
qed

lemma decode_ascii: "unat (c :: char32) < 192 \<Longrightarrow> utf8_decode (ucast c # bs) = (c, 1)"
proof -
  assume "unat c < 192"
  then have "(ucast c :: byte) < 0xC0" "(ucast (ucast c :: byte) :: char32) = c"
    by (simp_all add: word_less_nat_alt word_unat_eq_iff unsigned_ucast_eq unsigned_take_bit_eq take_bit_nat_eq_self)
  then show ?thesis by simp
qed

lemma decode_encode: "utf8_decode (utf8_encode c @ rest) = (c, length (utf8_encode c))"
proof -
  note lt = word_less_nat_alt [where 'a = 32]
  consider "c < 0x80" | "\<not> c < 0x80" "c < 0x800" | "\<not> c < 0x800" "c < 0x10000" | "\<not> c < 0x10000" "c < 0x00200000"
    | "\<not> c < 0x00200000" "c < 0x04000000" | "\<not> c < 0x04000000" by blast
  then show ?thesis
  proof cases
    case 1
    with decode_ascii [of c rest] show ?thesis by (simp add: utf8_encode_def lt)
  next
    case 2
    then have x: "unat (drop_bit 6 c) < 32" using unat_drop_less [of c 6 5] by (simp add: lt)
    have "utf8_decode ((ucast (drop_bit 6 c) OR 0xc0) # trail_byte 0 c # rest) = (c, Suc 1)"
      by (rule decode_lead [OF lead_bytes(1) [OF x]]) (use x utf8_tables(1) [OF x] decode_chain(1) in simp_all)
    with 2 show ?thesis by (simp add: utf8_encode_def lt)
  next
    case 3
    then have x: "unat (drop_bit 12 c) < 16" using unat_drop_less [of c 12 4] by (simp add: lt)
    have "utf8_decode ((ucast (drop_bit 12 c) OR 0xe0) # trail_byte 6 c # trail_byte 0 c # rest) = (c, Suc 2)"
      by (rule decode_lead [where i = "32 + unat (drop_bit 12 c)"])
         (use x lead_bytes(2) [OF x] utf8_tables(2) [OF x] decode_chain(2) in simp_all)
    with 3 show ?thesis by (simp add: utf8_encode_def lt)
  next
    case 4
    then have x: "unat (drop_bit 18 c) < 8" using unat_drop_less [of c 18 3] by (simp add: lt)
    have "utf8_decode ((ucast (drop_bit 18 c) OR 0xf0) # trail_byte 12 c # trail_byte 6 c # trail_byte 0 c # rest) = (c, Suc 3)"
      by (rule decode_lead [where i = "48 + unat (drop_bit 18 c)"])
         (use x lead_bytes(3) [OF x] utf8_tables(3) [OF x] decode_chain(3) in simp_all)
    with 4 show ?thesis by (simp add: utf8_encode_def lt)
  next
    case 5
    then have x: "unat (drop_bit 24 c) < 4" using unat_drop_less [of c 24 2] by (simp add: lt)
    have "utf8_decode ((ucast (drop_bit 24 c) OR 0xf8) # trail_byte 18 c # trail_byte 12 c # trail_byte 6 c # trail_byte 0 c # rest) = (c, Suc 4)"
      by (rule decode_lead [where i = "56 + unat (drop_bit 24 c)"])
         (use x lead_bytes(4) [OF x] utf8_tables(4) [OF x] decode_chain(4) in simp_all)
    with 5 show ?thesis by (simp add: utf8_encode_def lt)
  next
    case 6
    have x: "unat (drop_bit 30 c) < 4" using unat_drop_less [of c 30 2] unsigned_less [of c, where 'a = nat] by simp
    have "utf8_decode ((ucast (drop_bit 30 c) OR 0xfc) # trail_byte 24 c # trail_byte 18 c # trail_byte 12 c #
        trail_byte 6 c # trail_byte 0 c # rest) = (c, Suc 5)"
      by (rule decode_lead [where i = "60 + unat (drop_bit 30 c)"])
         (use x lead_bytes(5) [OF x] utf8_tables(5) [OF x] decode_chain(5) in simp_all)
    with 6 show ?thesis by (simp add: utf8_encode_def lt)
  qed
qed


lemma decode_trail_length: "decode_trail n c bs = Some c' \<Longrightarrow> n \<le> length bs"
  by (induction n c bs rule: decode_trail.induct) (auto simp: Let_def split: if_splits)

lemma utf8x_length_bounds: "i < 64 \<Longrightarrow> 2 \<le> utf8x_length_table ! i \<and> utf8x_length_table ! i \<le> 6"
  by (simp add: utf8x_length_table_def nth_append)

lemma decode_consumes:
  "1 \<le> snd (utf8_decode bs) \<and> snd (utf8_decode bs) \<le> 6 \<and> (bs \<noteq> [] \<longrightarrow> snd (utf8_decode bs) \<le> length bs)"
proof (cases bs)
  case (Cons b bs')
  have "unat b - 192 < 64" using unsigned_less [of b, where 'a = nat] by simp
  from utf8x_length_bounds [OF this] Cons show ?thesis
    by (auto simp: Let_def dest!: decode_trail_length split: option.split)
qed simp

section \<open>Strict decoding\<close>

lemma trail_step:
  assumes "b XOR 0x80 \<le> (0x3f :: byte)" "unat (c :: char32) < 2 ^ 26"
  defines "c' \<equiv> push_bit 6 c + ucast (b XOR 0x80)"
  shows "drop_bit 6 c' = c" "trail_byte 0 c' = b" "unat c' < 2 ^ 6 * (unat c + 1)"
proof -
  define x where "x = b XOR 0x80"
  have "unat x < 64" using assms(1) by (simp add: x_def word_le_nat_alt)
  then have x: "take_bit 6 x = x" by (simp add: word_unat_eq_iff unsigned_take_bit_eq take_bit_nat_eq_self)
  have "\<not> bit x n" if "n \<ge> 6" for n
    using that by (metis x bit_take_bit_iff not_le)
  note hi = this
  have "take_bit 26 c = c" using assms(2) by (simp add: word_unat_eq_iff unsigned_take_bit_eq take_bit_nat_eq_self)
  then have chi: "n < 26" if "bit c n" for n
    using that by (metis bit_take_bit_iff)
  have e: "c' = push_bit 6 c OR ucast x"
    unfolding c'_def x_def [symmetric] by (rule disjunctive_add) (use hi in \<open>auto simp: bit_simps\<close>)
  show "drop_bit 6 c' = c"
    unfolding e by (rule bit_eqI) (use hi chi in \<open>auto simp: bit_simps not_less\<close>)
  have "ucast (take_bit 6 c') = x"
    unfolding e by (rule bit_eqI) (use hi in \<open>auto simp: bit_simps\<close>)
  then have "trail_byte 0 c' = x OR 0x80"
    by (simp add: trail_byte_def mask6)
  also have "\<dots> = b"
  proof (rule bit_eqI)
    fix n
    show "bit (x OR 0x80) n = bit b n"
      using hi [of 7] unfolding x_def bit_xor_iff bit_or_iff bit_0x80 by auto
  qed
  finally show "trail_byte 0 c' = b" .
  have "unat (push_bit 6 c) = 64 * unat c"
    using assms(2) by (simp add: push_bit_eq_mult unat_word_ariths)
  moreover have "unat (ucast x :: char32) = unat x"
    using \<open>unat x < 64\<close> by (simp add: unsigned_ucast_eq take_bit_nat_eq_self)
  ultimately show "unat c' < 2 ^ 6 * (unat c + 1)"
    using \<open>unat x < 64\<close> unfolding c'_def x_def [symmetric]
    by (simp add: unat_word_ariths)
qed


lemma strict_trail_inv:
  assumes "strict_trail n c bs k = (Some c', k')" "unat c < 2 ^ j" "j + 6 * n \<le> 32"
  shows "n \<le> length bs \<and> k' = k + n \<and> drop_bit (6 * n) c' = c \<and> unat c' < 2 ^ (j + 6 * n) \<and>
    take n bs = map (\<lambda>i. trail_byte (6 * i) c') (rev [0..<n])"
  using assms
proof (induction n c bs k arbitrary: j rule: strict_trail.induct)
  case (3 n c b bs k)
  define d where "d = push_bit 6 c + ucast (b XOR 0x80)"
  have ok: "b XOR 0x80 \<le> 0x3f" and rec: "strict_trail n d bs (Suc k) = (Some c', k')"
    using 3(2) by (auto simp: Let_def d_def split: if_splits)
  have j: "j \<le> 26" using 3(4) by simp
  have "unat c < 2 ^ 26" using 3(3) power_increasing [OF j, of "2::nat"] by simp
  note t = trail_step [OF ok this, folded d_def]
  have "2 ^ 6 * (unat c + 1) \<le> 2 ^ 6 * 2 ^ j" using 3(3) by (intro mult_left_mono) simp_all
  with t(3) have dj: "unat d < 2 ^ (j + 6)" by (simp add: power_add)
  have IH: "n \<le> length bs \<and> k' = Suc k + n \<and> drop_bit (6 * n) c' = d \<and> unat c' < 2 ^ (j + 6 + 6 * n) \<and>
    take n bs = map (\<lambda>i. trail_byte (6 * i) c') (rev [0..<n])"
    using 3(1) [of "b XOR 0x80", OF refl] ok rec dj 3(4) by (simp add: d_def not_less)
  have "drop_bit (6 * Suc n) c' = drop_bit 6 (drop_bit (6 * n) c')" by (simp add: drop_bit_drop_bit add.commute)
  then have "drop_bit (6 * Suc n) c' = c" using IH t(1) by simp
  moreover have "trail_byte (6 * n) c' = b"
    using IH t(2) by (simp add: trail_byte_def)
  ultimately show ?case using IH by (simp add: add.assoc)
qed auto

lemma drop_bit_less:
  assumes "drop_bit k (c :: char32) = x" "unat x < 2 ^ j"
  shows "unat c < 2 ^ (k + j)"
proof -
  have "unat x = unat c div 2 ^ k"
    using unsigned_drop_bit_eq [of k c, where 'a = nat] take_bit_nat_eq_self [OF unsigned_less [of c]] assms(1)
    by (simp flip: drop_bit_eq_div)
  then show ?thesis using assms(2) by (simp add: power_add mult.commute div_less_iff_less_mult)
qed

lemma utf8_length_nth:
  "i < 128 \<Longrightarrow> utf8_length_table ! i = 1" "i < 64 \<Longrightarrow> utf8_length_table ! (128 + i) = 1"
  "i < 32 \<Longrightarrow> utf8_length_table ! (192 + i) = 2" "i < 16 \<Longrightarrow> utf8_length_table ! (224 + i) = 3"
  "i < 8 \<Longrightarrow> utf8_length_table ! (240 + i) = 4" "i < 4 \<Longrightarrow> utf8_length_table ! (248 + i) = 5"
  "i < 2 \<Longrightarrow> utf8_length_table ! (252 + i) = 6" "i < 2 \<Longrightarrow> utf8_length_table ! (254 + i) = 1"
  by (simp_all add: utf8_length_table_def nth_append) (auto simp: less_2_cases_iff)

lemma utf8_length_range:
  assumes "lo \<le> unat b" "unat b < lo + k" "\<And>i. i < k \<Longrightarrow> utf8_length_table ! (lo + i) = n"
  shows "utf8_length b = n"
  using assms(3) [of "unat b - lo"] assms(1,2) by (simp add: utf8_length_def)

lemma utf8_length_cases:
  "utf8_length b = (if b < 0xC0 then 1 else if b < 0xE0 then 2 else if b < 0xF0 then 3 else if b < 0xF8 then 4
     else if b < 0xFC then 5 else if b < 0xFE then 6 else 1)"
proof -
  have u: "unat b < 256" using unsigned_less [of b, where 'a = nat] by simp
  note r = utf8_length_range [of 0 b 128 1] utf8_length_range [of 128 b 64 1] utf8_length_range [of 192 b 32 2]
    utf8_length_range [of 224 b 16 3] utf8_length_range [of 240 b 8 4] utf8_length_range [of 248 b 4 5]
    utf8_length_range [of 252 b 2 6] utf8_length_range [of 254 b 2 1]
  show ?thesis
    using u r utf8_length_nth by (cases "unat b < 128") (simp_all add: word_less_nat_alt not_less)
qed

lemma upt_small: "[0..<1] = [0]" "[0..<2] = [0, 1]" "[0..<3] = [0, 1, 2]"
  by (simp_all add: upt_rec)

lemma unat_ucast32: "unat (ucast (b :: byte) :: char32) = unat b"
proof -
  have "unat b < 256" using unsigned_less [of b, where 'a = nat] by simp
  then show ?thesis by (simp add: unsigned_ucast_eq take_bit_nat_eq_self)
qed

lemma ucast_ucast_byte: "(ucast (ucast (b :: byte) :: char32) :: byte) = b"
  by (rule bit_eqI) (auto simp: bit_simps)

lemma split_lead:
  fixes b m :: byte
  assumes "unat m \<le> unat b" "unat b < unat m + 2 ^ j" "m = push_bit j m'" "j \<le> 6" "unat m + 2 ^ j \<le> 256"
    "2 ^ j dvd unat m" "x = (ucast b :: char32) AND mask j"
  shows "unat x < 2 ^ j" "ucast x OR m = b"
proof -
  have "x = take_bit j (ucast b)" using assms(7) by (simp add: take_bit_eq_mask)
  then have "unat x = take_bit j (unat b)" by (simp only: unsigned_take_bit_eq unat_ucast32)
  also have "\<dots> = unat b mod 2 ^ j" by (rule take_bit_eq_mod)
  also have "\<dots> = unat b - unat m"
  proof -
    obtain r where r: "unat b = unat m + r" "r < 2 ^ j" using assms(1,2) by (metis le_iff_add nat_add_left_cancel_less)
    have "(unat m + r) mod 2 ^ j = r" using assms(6) r(2) by (simp add: mod_add_eq [symmetric, of "unat m"])
    with r show ?thesis by simp
  qed
  finally have x: "unat x = unat b - unat m" .
  then show l: "unat x < 2 ^ j" using assms(1,2) by simp
  from unat_lead [OF l assms(4,3,5)] x assms(1) have "unat (ucast x OR m) = unat b" by simp
  then show "ucast x OR m = b" by (simp add: word_unat_eq_iff)
qed


lemma strict_lead:
  assumes "strict_trail n ((ucast b :: char32) AND mask j) bs 1 = (Some c, k)" "ucast ((ucast b :: char32) AND mask j) OR m = b"
    "unat ((ucast b :: char32) AND mask j) < 2 ^ j" "j + 6 * n \<le> 32"
  shows "n \<le> length bs" "k = Suc n" "unat c < 2 ^ (j + 6 * n)" "drop_bit (6 * n) c = ucast b AND mask j"
    "take k (b # bs) = (ucast (drop_bit (6 * n) c) OR m) # map (\<lambda>i. trail_byte (6 * i) c) (rev [0..<n])"
  using strict_trail_inv [OF assms(1,3,4)] assms(2) by simp_all

lemma strict_canonical:
  assumes "utf8_decode_strict bs = (c, n)" "c \<noteq> INVALID_CHAR" "bs \<noteq> []"
  shows "n \<le> length bs \<and> take n bs = utf8_encode c"
proof -
  obtain b r where bs: "bs = b # r" using assms(3) by (cases bs) auto
  note lt = word_less_nat_alt
  show ?thesis
  proof (cases "b < 128")
    case True
    then have "c = ucast b" "n = 1" using assms(1) by (simp_all add: bs)
    moreover have "(ucast b :: char32) < 0x80" using True by (simp add: lt unat_ucast32)
    ultimately show ?thesis by (simp add: bs utf8_encode_def ucast_ucast_byte)
  next
    case False
    define len where "len = utf8_length b"
    obtain k d where st: "strict_trail (len - 1) (ucast b AND drop_bit len 0x7c) r 1 = (Some d, k)"
      "2 \<le> len" "c = d" "n = k" "\<not> c < utf8_min_code ! len" "\<not> c > 0x10ffff"
      using assms(1,2) False unfolding bs
      by (auto simp: Let_def len_def split: if_splits option.splits prod.splits)
    have "len \<in> {2, 3, 4, 5, 6}"
      using st(2) by (auto simp: len_def utf8_length_cases split: if_splits)
    then consider "len = 2" | "len = 3" | "len = 4" | "5 \<le> len" by auto
    then show ?thesis
    proof cases
      case 1
      then have b: "0xC0 \<le> unat b" "unat b < 0xE0"
        by (auto simp: len_def utf8_length_cases lt not_less split: if_splits)
      have sp: "unat ((ucast b :: char32) AND mask 5) < 2 ^ 5" "ucast ((ucast b :: char32) AND mask 5) OR 0xC0 = b"
        by (rule split_lead [where m = "0xC0" and j = 5 and m' = 6]; use b in simp)+
      have "strict_trail 1 ((ucast b :: char32) AND mask 5) r 1 = (Some c, n)"
        using st(1,3,4) 1 by (simp add: mask_eq_exp_minus_1)
      note l = strict_lead [OF this sp(2,1), simplified]
      have "n \<le> length bs" using l(1,2) by (simp add: bs)
      moreover have "unat c < 2 ^ 11" using l(3) by simp
      moreover have "take n bs = [ucast (drop_bit 6 c) OR 0xC0, trail_byte 0 c]"
        unfolding bs l(5) by (simp add: upt_small)
      moreover have "\<not> c < 0x80" using st(5) 1 by (simp add: utf8_min_code_def)
      ultimately show ?thesis by (simp add: utf8_encode_def lt)
    next
      case 2
      then have b: "0xE0 \<le> unat b" "unat b < 0xF0"
        by (auto simp: len_def utf8_length_cases lt not_less split: if_splits)
      have sp: "unat ((ucast b :: char32) AND mask 4) < 2 ^ 4" "ucast ((ucast b :: char32) AND mask 4) OR 0xE0 = b"
        by (rule split_lead [where m = "0xE0" and j = 4 and m' = 14]; use b in simp)+
      have "strict_trail 2 ((ucast b :: char32) AND mask 4) r 1 = (Some c, n)"
        using st(1,3,4) 2 by (simp add: mask_eq_exp_minus_1)
      note l = strict_lead [OF this sp(2,1), simplified]
      have "n \<le> length bs" using l(1,2) by (simp add: bs)
      moreover have "unat c < 2 ^ 16" using l(3) by simp
      moreover have "take n bs = [ucast (drop_bit 12 c) OR 0xE0, trail_byte 6 c, trail_byte 0 c]"
        unfolding bs l(5) by (simp add: upt_small)
      moreover have "\<not> c < 0x800" using st(5) 2 by (simp add: utf8_min_code_def)
      ultimately show ?thesis by (simp add: utf8_encode_def lt)
    next
      case 3
      then have b: "0xF0 \<le> unat b" "unat b < 0xF8"
        by (auto simp: len_def utf8_length_cases lt not_less split: if_splits)
      have sp: "unat ((ucast b :: char32) AND mask 3) < 2 ^ 3" "ucast ((ucast b :: char32) AND mask 3) OR 0xF0 = b"
        by (rule split_lead [where m = "0xF0" and j = 3 and m' = 30]; use b in simp)+
      have "strict_trail 3 ((ucast b :: char32) AND mask 3) r 1 = (Some c, n)"
        using st(1,3,4) 3 by (simp add: mask_eq_exp_minus_1)
      note l = strict_lead [OF this sp(2,1), simplified]
      have "n \<le> length bs" using l(1,2) by (simp add: bs)
      moreover have "unat c < 2 ^ 21" using l(3) by simp
      moreover have "take n bs = [ucast (drop_bit 18 c) OR 0xF0, trail_byte 12 c, trail_byte 6 c, trail_byte 0 c]"
        unfolding bs l(5) by (simp add: upt_small)
      moreover have "\<not> c < 0x10000" using st(5) 3 by (simp add: utf8_min_code_def)
      ultimately show ?thesis by (simp add: utf8_encode_def lt)
    next
      case 4
      with \<open>len \<in> _\<close> st(5,6) have False by (auto simp: utf8_min_code_def lt)
      then show ?thesis ..
    qed
  qed
qed

section \<open>Properties\<close>

lemma utf8_chars_encode:
  assumes "0 \<notin> set cs"
  shows "utf8_chars n (concat (map utf8_encode cs)) = take n cs"
  using assms
proof (induction cs arbitrary: n)
  case Nil
  then show ?case by (cases n) simp_all
next
  case (Cons c cs)
  then show ?case by (cases n) (simp_all add: decode_encode)
qed

text \<open>C25. Decoding the encoding of any 32-bit code point, whatever bytes follow, gives the code
  point back and advances by exactly the bytes of the encoding; and an array of non-zero code
  points written as UTF-8 is read back by \<^const>\<open>utf8_to_char32\<close>, cut to the size of the
  destination.\<close>

theorem utf8_roundtrip:
  "utf8_decode (utf8_encode c @ rest) = (c, length (utf8_encode c)) \<and>
   (0 \<notin> set cs \<longrightarrow> 0 < n \<longrightarrow>
     utf8_to_char32 n (concat (map utf8_encode cs)) = (take (nat n - 1) cs @ [0], length (take (nat n - 1) cs)))"
  by (simp add: decode_encode utf8_to_char32_def utf8_chars_encode)

theorem utf8_roundtrip_witness:
  "utf8_to_char32 3 (concat (map utf8_encode [0x20AC, 0x41, 0x1F600])) = ([0x20AC, 0x41, 0], 2)"
  using utf8_roundtrip [of 0 "[]" "[0x20AC, 0x41, 0x1F600]" 3] by simp



text \<open>C26. The strict decoder accepts a sequence only when it is the canonical encoding: a result
  other than the replacement character is re-encoded to exactly the bytes read, so overlong
  forms, surrogates and codes beyond the Unicode range are all refused.\<close>

theorem utf8_strict_canonical:
  assumes "utf8_decode_strict bs = (c, n)" "c \<noteq> INVALID_CHAR" "bs \<noteq> []"
  shows "n \<le> length bs \<and> take n bs = utf8_encode c \<and> c \<le> 0x10ffff \<and> \<not> (0xd800 \<le> c \<and> c \<le> 0xdfff)"
proof -
  have "c \<le> 0x10ffff \<and> \<not> (0xd800 \<le> c \<and> c \<le> 0xdfff)"
  proof (cases "hd bs < 128")
    case True
    then have "c = ucast (hd bs)" using assms(1,3) by (cases bs) simp_all
    then have "unat c < 128" using True by (simp add: word_less_nat_alt unat_ucast32)
    then show ?thesis by (simp add: word_le_nat_alt)
  next
    case False
    then show ?thesis using assms
      by (cases bs) (auto simp: Let_def not_less split: if_splits option.splits prod.splits)
  qed
  with strict_canonical [OF assms] show ?thesis by simp
qed

theorem utf8_strict_canonical_witness:
  "take 3 [0xE2, 0x82, 0xAC, 0x41] = utf8_encode 0x20AC"
proof -
  have "utf8_decode_strict [0xE2, 0x82, 0xAC, 0x41] = (0x20AC, 3)"
    by code_simp
  from utf8_strict_canonical [OF this] show ?thesis by (simp add: INVALID_CHAR_def)
qed

end
