(* ===== verification/Strings.thy ===== *)
theory Strings
  imports Utf8
begin

text \<open>
  Strings (\<^verbatim>\<open>src/cutils.c\<close>, \<^verbatim>\<open>src/util.c\<close>, \<^verbatim>\<open>src/util.h\<close>): character classes,
  bounded copies, comparisons, word lists and patterns. A C string is the list of its bytes;
  the end of the list is the terminating zero, which \<open>char_at\<close> reads. A destination
  array is represented by the string it holds, and a function with an output pointer
  returns the remaining string or the number of bytes before it.
\<close>

definition cstr :: "string \<Rightarrow> byte list" where
  "cstr s = map of_char s"

abbreviation ch :: "char \<Rightarrow> byte" where
  "ch c \<equiv> of_char c"

abbreviation wch :: "char \<Rightarrow> char32" where
  "wch c \<equiv> of_char c"

definition char_at :: "byte list \<Rightarrow> nat \<Rightarrow> byte" where
  "char_at s i = (if i < length s then s ! i else 0)"

fun head0 :: "('a :: zero) list \<Rightarrow> 'a" where
  "head0 [] = 0"
| "head0 (c # s) = c"

section \<open>Character classes (util.h)\<close>

definition qe_inrange :: "char32 \<Rightarrow> char32 \<Rightarrow> char32 \<Rightarrow> bool" where
  "qe_inrange c a b \<longleftrightarrow> c - a \<le> b - a"

definition qe_digit_value_table :: "nat list" where
  "qe_digit_value_table = replicate 48 255 @ [0..<10] @ replicate 6 255 @
     [255] @ [10..<25] @ [25..<36] @ replicate 5 255 @ [255] @ [10..<25] @ [25..<36] @ replicate 5 255"

definition qe_digit_value :: "char32 \<Rightarrow> nat" where
  "qe_digit_value c = (if c < 128 then qe_digit_value_table ! unat c else 255)"

definition qe_isspace :: "char32 \<Rightarrow> bool" where
  "qe_isspace c \<longleftrightarrow> c = wch CHR '' '' \<or> c = 9 \<or> c = 10 \<or> c = 13 \<or> c = 160"

definition qe_isblank :: "char32 \<Rightarrow> bool" where
  "qe_isblank c \<longleftrightarrow> c = wch CHR '' '' \<or> c = 9 \<or> c = 160"

definition qe_isdigit :: "char32 \<Rightarrow> bool" where
  "qe_isdigit c = qe_inrange c (wch CHR ''0'') (wch CHR ''9'')"

definition qe_isupper :: "char32 \<Rightarrow> bool" where
  "qe_isupper c = qe_inrange c (wch CHR ''A'') (wch CHR ''Z'')"

definition qe_islower :: "char32 \<Rightarrow> bool" where
  "qe_islower c = qe_inrange c (wch CHR ''a'') (wch CHR ''z'')"

definition qe_isalpha :: "char32 \<Rightarrow> bool" where
  "qe_isalpha c = qe_inrange (c OR (wch CHR ''a'' - wch CHR ''A'')) (wch CHR ''a'') (wch CHR ''z'')"

definition qe_isxdigit :: "char32 \<Rightarrow> bool" where
  "qe_isxdigit c \<longleftrightarrow> qe_digit_value c < 16"

definition qe_isalnum :: "char32 \<Rightarrow> bool" where
  "qe_isalnum c \<longleftrightarrow> qe_digit_value c < 36"

definition qe_isalnum_u :: "char32 \<Rightarrow> bool" where
  "qe_isalnum_u c \<longleftrightarrow> qe_digit_value c < 36 \<or> c = wch CHR ''_''"

definition qe_isword :: "char32 \<Rightarrow> bool" where
  "qe_isword c \<longleftrightarrow> qe_isalnum_u c \<or> c \<ge> 128"

definition qe_tolower :: "char32 \<Rightarrow> char32" where
  "qe_tolower c = (if qe_inrange c (wch CHR ''A'') (wch CHR ''Z'') then c + wch CHR ''a'' - wch CHR ''A'' else c)"

definition qe_toupper :: "char32 \<Rightarrow> char32" where
  "qe_toupper c = (if qe_inrange c (wch CHR ''a'') (wch CHR ''z'') then c + wch CHR ''A'' - wch CHR ''a'' else c)"

section \<open>Bounded copies (cutils.c)\<close>

fun copy_chars :: "nat \<Rightarrow> byte list \<Rightarrow> byte list" where
  "copy_chars 0 s = []"
| "copy_chars (Suc n) [] = []"
| "copy_chars (Suc n) (c # s) = (if c = 0 then [] else c # copy_chars n s)"

definition pstrcpy :: "byte list \<Rightarrow> int \<Rightarrow> byte list \<Rightarrow> byte list" where
  "pstrcpy buf sz str = (if sz > 0 then copy_chars (nat (sz - 1)) str else buf)"

definition strnlen :: "byte list \<Rightarrow> int \<Rightarrow> int" where
  "strnlen buf sz = min (int (length buf)) sz"

definition pstrcat :: "byte list \<Rightarrow> int \<Rightarrow> byte list \<Rightarrow> byte list" where
  "pstrcat buf sz s =
     (let len = strnlen buf sz
      in if len < sz then take (nat len) buf @ pstrcpy [] (sz - len) s else buf)"

definition pstrncpy :: "byte list \<Rightarrow> int \<Rightarrow> byte list \<Rightarrow> int \<Rightarrow> byte list" where
  "pstrncpy buf sz s len =
     (if sz > 0 then copy_chars (nat (if len \<ge> sz then sz - 1 else len)) s else buf)"

definition pstrncat :: "byte list \<Rightarrow> int \<Rightarrow> byte list \<Rightarrow> int \<Rightarrow> byte list" where
  "pstrncat buf sz s slen =
     (let len = strnlen buf sz
      in if len < sz then take (nat len) buf @ pstrncpy [] (sz - len) s slen else buf)"

section \<open>Prefixes, suffixes and comparisons\<close>

text \<open>On success the rest of the string after the prefix.\<close>

fun strstart :: "byte list \<Rightarrow> byte list \<Rightarrow> byte list option" where
  "strstart str [] = Some str"
| "strstart [] (v # val) = None"
| "strstart (c # str) (v # val) = (if c \<noteq> v then None else strstart str val)"

definition strend :: "byte list \<Rightarrow> byte list \<Rightarrow> nat option" where
  "strend str val =
     (let len1 = length str; len2 = length val
      in if len1 \<ge> len2 \<and> drop (len1 - len2) str = val then Some (len1 - len2) else None)"

definition up :: "byte \<Rightarrow> char32" where
  "up c = qe_toupper (ucast c)"

definition is_sep :: "byte \<Rightarrow> bool" where
  "is_sep c \<longleftrightarrow> c = ch CHR ''-'' \<or> c = ch CHR ''_'' \<or> c = ch CHR '' ''"

lemma is_sep_nonempty: "is_sep (head0 p) \<Longrightarrow> p \<noteq> []"
  by (auto simp: is_sep_def)

fun stristart :: "byte list \<Rightarrow> byte list \<Rightarrow> byte list option" where
  "stristart p [] = Some p"
| "stristart p (v # q) = (if up (head0 p) \<noteq> up v then None else stristart (tl p) q)"

function strxstart :: "byte list \<Rightarrow> byte list \<Rightarrow> byte list option" where
  "strxstart p [] = Some p"
| "strxstart p (v # q) =
     (if up (head0 p) \<noteq> up v then
        (if is_sep v then strxstart p q
         else if is_sep (head0 p) then strxstart (tl p) (v # q)
         else None)
      else strxstart (tl p) q)"
  by pat_completeness auto
termination
  by (relation "measure (\<lambda>(p, q). length p + length q)") (auto dest: is_sep_nonempty simp: neq_Nil_conv)

function strxcmp :: "byte list \<Rightarrow> byte list \<Rightarrow> int" where
  "strxcmp str1 str2 =
     (let c1 = head0 str1; c2 = head0 str2; d = sint (up c1 - up c2)
      in if d \<noteq> 0 then
           (if is_sep c2 then strxcmp str1 (tl str2)
            else if is_sep c1 then strxcmp (tl str1) str2
            else if d < 0 then -1 else 1)
         else if c1 = 0 then 0
         else strxcmp (tl str1) (tl str2))"
  by pat_completeness auto
termination
proof (relation "measure (\<lambda>(p, q). length p + length q)")
qed (auto dest!: is_sep_nonempty simp: neq_Nil_conv, (case_tac str1; case_tac str2; simp)+)

fun qe_memicmp :: "byte list \<Rightarrow> byte list \<Rightarrow> nat \<Rightarrow> int" where
  "qe_memicmp s1 s2 0 = 0"
| "qe_memicmp s1 s2 (Suc count) =
     (let c1 = head0 s1; c2 = head0 s2
      in if c1 \<noteq> c2 \<and> up c1 \<noteq> up c2 then (if up c2 < up c1 then 1 else 0) - (if up c1 < up c2 then 1 else 0)
         else qe_memicmp (tl s1) (tl s2) count)"

fun stristr_loop :: "byte list \<Rightarrow> byte \<Rightarrow> byte list \<Rightarrow> byte list option" where
  "stristr_loop [] c s2 = None"
| "stristr_loop (d # s1) c s2 =
     (if (d = ucast (qe_toupper (ucast c)) \<or> d = ucast (qe_tolower (ucast c)))
         \<and> qe_memicmp s1 s2 (length s2) = 0
      then Some (d # s1) else stristr_loop s1 c s2)"

definition qe_stristr :: "byte list \<Rightarrow> byte list \<Rightarrow> byte list option" where
  "qe_stristr s1 s2 = (case s2 of [] \<Rightarrow> Some s1 | c # s \<Rightarrow> stristr_loop s1 c s)"

definition strmatchword :: "byte list \<Rightarrow> byte list \<Rightarrow> byte list option" where
  "strmatchword str val =
     (case strstart str val of
        Some rest \<Rightarrow> if qe_isword (ucast (head0 rest)) then None else Some rest
      | None \<Rightarrow> None)"

function (sequential) strmatch_pat :: "byte list \<Rightarrow> byte list \<Rightarrow> bool \<Rightarrow> bool"
  and strmatch_star :: "byte \<Rightarrow> byte list \<Rightarrow> byte list \<Rightarrow> bool \<Rightarrow> bool" where
  "strmatch_pat str [] start = (start \<or> str = [])"
| "strmatch_pat str (c1 # pat) start =
     (if c1 = ch CHR ''*'' then (case pat of [] \<Rightarrow> True | c # pat' \<Rightarrow> strmatch_star c pat' str start)
      else case str of [] \<Rightarrow> False | c2 # str' \<Rightarrow> c1 = c2 \<and> strmatch_pat str' pat start)"
| "strmatch_star c1 pat [] start = False"
| "strmatch_star c1 pat (c2 # str) start =
     (c1 = c2 \<and> strmatch_pat str pat start \<or> strmatch_star c1 pat str start)"
  by pat_completeness auto
termination
  by (relation "measure (\<lambda>x. case x of Inl (str, pat, start) \<Rightarrow> length str + length pat
      | Inr (c1, pat, str, start) \<Rightarrow> length str + length pat)") auto

section \<open>Searching\<close>

text \<open>\<^verbatim>\<open>strmem\<close> and \<^verbatim>\<open>memstr\<close>: the offset of the match. The loop tries the
  \<open>n\<close> first positions.\<close>

fun mem_loop :: "nat \<Rightarrow> byte list \<Rightarrow> byte \<Rightarrow> byte list \<Rightarrow> nat \<Rightarrow> nat option" where
  "mem_loop 0 p c p1 i = None"
| "mem_loop (Suc n) p c p1 i =
     (if p \<noteq> [] \<and> hd p = c \<and> take (length p1) (tl p) = p1 then Some i
      else mem_loop n (tl p) c p1 (Suc i))"

definition strmem :: "byte list \<Rightarrow> byte list \<Rightarrow> int \<Rightarrow> nat option" where
  "strmem str mem sz =
     (if sz \<le> 0 then (if sz < 0 then None else Some 0)
      else let n = nat sz - 1; c = hd mem; p1 = take n (tl mem); len = length str
           in if c = 0 then None
              else if n \<ge> len then None
              else mem_loop (len - n) str c p1 0)"

definition memstr :: "byte list \<Rightarrow> byte list \<Rightarrow> nat option" where
  "memstr buf str =
     (case str of [] \<Rightarrow> Some 0
      | c # s \<Rightarrow> if length s \<ge> length buf then None else mem_loop (length buf - length s) buf c s 0)"

section \<open>Lists of words separated by bars\<close>

abbreviation BAR :: byte where "BAR \<equiv> ch CHR ''|''"

fun double_bar :: "byte list \<Rightarrow> bool" where
  "double_bar [] = False"
| "double_bar (c # q) = (c = BAR \<and> head0 q = BAR \<or> double_bar q)"

function memfind_words :: "byte list \<Rightarrow> byte list \<Rightarrow> nat \<Rightarrow> bool" where
  "memfind_words q s len =
     (if q = [] then False
      else let w = takeWhile (\<lambda>c. c \<noteq> BAR) q; rest = drop (Suc (length w)) q
           in if length w = len \<and> w = take len s then True
              else memfind_words rest s len)"
  by pat_completeness auto
termination
  by (relation "measure (\<lambda>(q, s, len). length q)") auto

declare memfind_words.simps [simp del]

definition memfind :: "byte list option \<Rightarrow> byte list \<Rightarrow> nat \<Rightarrow> bool" where
  "memfind list s len =
     (case list of None \<Rightarrow> False
      | Some q \<Rightarrow> if len = 0 then double_bar q else memfind_words q s len)"

definition strfind :: "byte list option \<Rightarrow> byte list \<Rightarrow> bool" where
  "strfind keytable str = memfind keytable str (length str)"

text \<open>The scan of \<^verbatim>\<open>strxfind\<close>: \<open>p\<close> runs through the string \<open>s\<close>, \<open>q\<close> through
  the list; on a mismatch the rest of the word is skipped and \<open>p\<close> restarts.\<close>

definition skip_word :: "byte list \<Rightarrow> byte list option" where
  "skip_word q = (case dropWhile (\<lambda>c. c \<noteq> BAR) q of [] \<Rightarrow> None | b # q' \<Rightarrow> Some q')"

lemma skip_word_length: "skip_word q = Some q' \<Longrightarrow> length q' < length q"
  using length_dropWhile_le [of "\<lambda>c. c \<noteq> BAR" q] by (auto simp: skip_word_def split: list.splits)

lemma up_0 [simp]: "up 0 = 0"
  by (simp add: up_def qe_toupper_def qe_inrange_def)

lemma tl_skip_length: "up (head0 (dropWhile is_sep q)) \<noteq> 0 \<Longrightarrow> length (tl (dropWhile is_sep q)) < length q"
  using length_dropWhile_le [of is_sep q] by (cases "dropWhile is_sep q") auto

function strxfind_scan :: "byte list \<Rightarrow> byte list \<Rightarrow> byte list \<Rightarrow> bool" where
  "strxfind_scan s p q =
     (let p' = dropWhile is_sep p; q' = dropWhile is_sep q; c1 = up (head0 p'); c2 = up (head0 q')
      in if c1 = 0 then
           (if c2 = 0 \<or> c2 = wch CHR ''|'' then True
            else case skip_word (tl q') of None \<Rightarrow> False | Some q'' \<Rightarrow> strxfind_scan s s q'')
         else if c1 \<noteq> c2 then
           (if c2 = wch CHR ''|'' then strxfind_scan s s (tl q')
            else if c2 = 0 then False
            else case skip_word (tl q') of None \<Rightarrow> False | Some q'' \<Rightarrow> strxfind_scan s s q'')
         else strxfind_scan s (tl p') (tl q'))"
  by pat_completeness auto
termination
  by (relation "measure (\<lambda>(s, p, q). length q)") 
    (auto dest!: skip_word_length dest: tl_skip_length intro: less_trans simp: tl_skip_length tl_skip_length [simplified])

declare strxfind_scan.simps [simp del]

definition strxfind :: "byte list option \<Rightarrow> byte list \<Rightarrow> bool" where
  "strxfind list s =
     (case list of None \<Rightarrow> False
      | Some q \<Rightarrow> if s = [] then double_bar q else strxfind_scan s s q)"

definition qe_strtobool :: "byte list option \<Rightarrow> int \<Rightarrow> int" where
  "qe_strtobool s def =
     (case s of Some (c # r) \<Rightarrow> if strxfind (Some (cstr ''1|y|yes|t|true'')) (c # r) then 1 else 0
      | _ \<Rightarrow> def)"

text \<open>The \<open>n\<close>-th word of a list, \<^verbatim>\<open>None\<close> for the null string, and the first token with the
  position after its separator.\<close>

function bstr_get_nth :: "byte list \<Rightarrow> int \<Rightarrow> byte list option" where
  "bstr_get_nth s n =
     (let w = takeWhile (\<lambda>c. c \<noteq> BAR) s; r = dropWhile (\<lambda>c. c \<noteq> BAR) s
      in if n = 0 then Some w
         else case r of [] \<Rightarrow> None | b # r' \<Rightarrow> bstr_get_nth r' (n - 1))"
  by pat_completeness auto
termination
proof (relation "measure (\<lambda>(s, n). length s)")
  fix s :: "byte list" and n :: int and x xa b r'
  assume xa: "xa = dropWhile (\<lambda>c. c \<noteq> BAR) s" "xa = b # r'"
  have "length xa \<le> length s" unfolding xa(1) by (rule length_dropWhile_le)
  then show "((r', n - 1), (s, n)) \<in> measure (\<lambda>(s, n). length s)" by (simp add: xa(2))
qed simp

declare bstr_get_nth.simps [simp del]

definition bstr_token :: "byte list option \<Rightarrow> byte \<Rightarrow> (byte list \<times> byte list option) option" where
  "bstr_token s sep =
     (case s of None \<Rightarrow> None
      | Some s \<Rightarrow> Some (takeWhile (\<lambda>c. c \<noteq> sep) s,
          case dropWhile (\<lambda>c. c \<noteq> sep) s of [] \<Rightarrow> None | c # r \<Rightarrow> Some r))"

section \<open>Tokens, case and collation\<close>

definition qe_skip_spaces :: "byte list \<Rightarrow> byte \<times> byte list" where
  "qe_skip_spaces p = (let p' = dropWhile (\<lambda>c. qe_isspace (ucast c)) p in (head0 p', p'))"

fun qe_strtolower_loop :: "int \<Rightarrow> byte list \<Rightarrow> byte list" where
  "qe_strtolower_loop sz [] = []"
| "qe_strtolower_loop sz (c # str) =
     (if sz > 1 then ucast (qe_tolower (ucast c)) # qe_strtolower_loop (sz - 1) str else [])"

definition qe_strtolower :: "byte list \<Rightarrow> int \<Rightarrow> byte list \<Rightarrow> byte list" where
  "qe_strtolower buf sz str = (if sz > 0 then qe_strtolower_loop sz str else buf)"

text \<open>\<^verbatim>\<open>get_str\<close>: the token stored and the rest of the source. The terminating zero is
  always a stop character since \<^verbatim>\<open>strchr\<close> finds it.\<close>

fun get_str_loop :: "byte list \<Rightarrow> nat \<Rightarrow> int \<Rightarrow> byte list \<Rightarrow> byte list \<times> byte list" where
  "get_str_loop [] i buf_size stop = ([], [])"
| "get_str_loop (c # p) i buf_size stop =
     (if qe_isspace (ucast c) \<or> c \<in> set stop then ([], c # p)
      else if int i + 1 < buf_size then
        (let (t, r) = get_str_loop p (Suc i) buf_size stop in (c # t, r))
      else get_str_loop p i buf_size stop)"

definition get_str :: "byte list \<Rightarrow> int \<Rightarrow> byte list \<Rightarrow> nat \<times> byte list \<times> byte list" where
  "get_str pp buf_size stop =
     (let p = snd (qe_skip_spaces pp); (t, r) = get_str_loop p 0 buf_size stop
      in (length t, t, snd (qe_skip_spaces r)))"

function collate_prefix :: "byte \<Rightarrow> byte list \<Rightarrow> byte list \<Rightarrow> (byte \<times> byte list \<times> byte list) option" where
  "collate_prefix lst s1 s2 =
     (if head0 s1 = head0 s2 then
        (if head0 s1 = 0 then None else collate_prefix (head0 s1) (tl s1) (tl s2))
      else Some (lst, s1, s2))"
  by pat_completeness auto
termination
proof (relation "measure (\<lambda>(l, s1, s2). length s1)")
  fix lst :: byte and s1 s2
  assume "head0 s1 \<noteq> (0 :: byte)"
  then show "((head0 s1, tl s1, tl s2), (lst, s1, s2)) \<in> measure (\<lambda>(l, s1, s2). length s1)"
    by (cases s1) simp_all
qed simp

declare collate_prefix.simps [simp del]

definition digit :: "byte \<Rightarrow> bool" where
  "digit c = qe_isdigit (ucast c)"

lemma digit_0 [simp]: "\<not> digit 0"
  by (simp add: digit_def qe_isdigit_def qe_inrange_def)

text \<open>The loop over common digits; the flags of the source are the pair of its two tests.\<close>

function collate_digits :: "byte \<Rightarrow> byte list \<Rightarrow> byte list \<Rightarrow> byte \<times> bool \<times> bool" where
  "collate_digits lst s1 s2 =
     (if digit (head0 s1) \<and> digit (head0 s2) then collate_digits (head0 s1) (tl s1) (tl s2)
      else (lst, digit (head0 s1), digit (head0 s2)))"
  by pat_completeness auto
termination
proof (relation "measure (\<lambda>(l, s1, s2). length s1)")
  fix lst :: byte and s1 s2
  assume "digit (head0 s1) \<and> digit (head0 s2)"
  then show "((head0 s1, tl s1, tl s2), (lst, s1, s2)) \<in> measure (\<lambda>(l, s1, s2). length s1)"
    by (cases s1) simp_all
qed simp

declare collate_digits.simps [simp del]

definition qe_strcollate :: "byte list \<Rightarrow> byte list \<Rightarrow> int" where
  "qe_strcollate s1 s2 =
     (case collate_prefix 0 s1 s2 of
        None \<Rightarrow> 0
      | Some (lst, t1, t2) \<Rightarrow>
          let c1 = head0 t1; c2 = head0 t2;
              res = (if c1 = ch CHR ''*'' then 1 else if c2 = ch CHR ''*'' then -1
                     else if c1 < c2 then -1 else 1);
              (lst, d1, d2) = collate_digits lst t1 t2
          in if \<not> digit lst \<or> (\<not> d1 \<and> \<not> d2) then res
             else if \<not> d1 \<and> d2 then -1 else 1)"

section \<open>Strings of code points\<close>

text \<open>On success the length of the prefix.\<close>

fun ustr_prefix :: "(char32 \<Rightarrow> char32) \<Rightarrow> char32 list \<Rightarrow> byte list \<Rightarrow> nat \<Rightarrow> nat option" where
  "ustr_prefix f str [] n = Some n"
| "ustr_prefix f str (v # val) n =
     (if f (head0 str) \<noteq> f (ucast v) then None else ustr_prefix f (tl str) val (Suc n))"

definition ustrstart :: "char32 list \<Rightarrow> byte list \<Rightarrow> nat option" where
  "ustrstart str0 val = ustr_prefix (\<lambda>c. c) str0 val 0"

definition ustristart :: "char32 list \<Rightarrow> byte list \<Rightarrow> nat option" where
  "ustristart str0 val = ustr_prefix qe_toupper str0 val 0"

text \<open>The matching suffix. The first test reads \<^verbatim>\<open>val[0]\<close> as a signed \<^verbatim>\<open>char\<close> in
  \<^verbatim>\<open>ustrstr\<close> and as a byte in \<^verbatim>\<open>ustristr\<close>.\<close>

fun ustrstr :: "char32 list \<Rightarrow> byte list \<Rightarrow> char32 list option" where
  "ustrstr [] val = None"
| "ustrstr (c # str) val =
     (if c = scast (head0 val) \<and> ustrstart (c # str) val \<noteq> None then Some (c # str) else ustrstr str val)"

fun ustristr :: "char32 list \<Rightarrow> byte list \<Rightarrow> char32 list option" where
  "ustristr [] val = None"
| "ustristr (c # str) val =
     (if qe_toupper c = qe_toupper (ucast (head0 val)) \<and> ustristart (c # str) val \<noteq> None
      then Some (c # str) else ustristr str val)"

fun umemcmp :: "char32 list \<Rightarrow> char32 list \<Rightarrow> nat \<Rightarrow> int" where
  "umemcmp s1 s2 0 = 0"
| "umemcmp s1 s2 (Suc count) =
     (if head0 s1 \<noteq> head0 s2 then (if head0 s1 < head0 s2 then -1 else 1)
      else umemcmp (tl s1) (tl s2) count)"

definition ustr_match_keyword :: "char32 list \<Rightarrow> byte list \<Rightarrow> nat option" where
  "ustr_match_keyword buf str =
     (case ustr_prefix (\<lambda>c. c) buf str 0 of
        None \<Rightarrow> None
      | Some i \<Rightarrow> if qe_isalnum_u (head0 (drop i buf)) then None else Some i)"

text \<open>Identifiers: the bytes stored, whether the terminating zero is stored, and the number of
  code points of the identifier after the first. The loop runs over \<^verbatim>\<open>str[i..n-1]\<close>; \<open>len\<close>
  bytes are already stored.\<close>

fun identifier_loop :: "(char32 \<Rightarrow> char32) \<Rightarrow> int \<Rightarrow> char32 list \<Rightarrow> byte list \<Rightarrow> nat \<Rightarrow> byte list \<times> nat" where
  "identifier_loop f buf_size [] buf k = (buf, k)"
| "identifier_loop f buf_size (c # str) buf k =
     (if \<not> qe_isalnum_u c then (buf, k)
      else identifier_loop f buf_size str
        (if int (length buf) + 1 < buf_size then buf @ [ucast (f c)] else buf) (Suc k))"

definition ustr_get_identifier :: "int \<Rightarrow> char32 \<Rightarrow> char32 list \<Rightarrow> nat \<Rightarrow> nat \<Rightarrow> byte list \<times> bool \<times> nat" where
  "ustr_get_identifier buf_size c str i n =
     (let buf = (if 0 + 1 < buf_size then [ucast c] else []);
          (buf, k) = identifier_loop (\<lambda>c. c) buf_size (drop i (take n str)) buf 0
      in (buf, int (length buf) < buf_size, k))"

definition ustr_get_identifier_lc :: "int \<Rightarrow> char32 \<Rightarrow> char32 list \<Rightarrow> nat \<Rightarrow> nat \<Rightarrow> byte list \<times> bool \<times> nat" where
  "ustr_get_identifier_lc buf_size c str i n =
     (let buf = (if 0 < buf_size then [ucast (qe_tolower c)] else []);
          (buf, k) = identifier_loop qe_tolower buf_size (drop i (take n str)) buf 0
      in (buf, int (length buf) < buf_size, k))"

end
