(* ===== verification/StringLaws.thy ===== *)
theory StringLaws
  imports Strings
begin

text \<open>
  Laws of the string functions: bounded copies, the comparison that ignores case and
  separators, word lists, patterns, searches and collation.
\<close>

section \<open>Case mapping\<close>

lemma toupper_cases: "qe_toupper c = (if 97 \<le> unat c \<and> unat c \<le> 122 then c - 32 else c)"
proof -
  have "c - 97 \<le> 25 \<longleftrightarrow> 97 \<le> unat c \<and> unat c \<le> 122"
    by (auto simp: word_le_nat_alt unat_sub_if_size size_word.rep_eq split: if_splits)
  then show ?thesis by (simp add: qe_toupper_def qe_inrange_def)
qed

lemma unat_up: "unat (up c) = (if 97 \<le> unat c \<and> unat c \<le> 122 then unat c - 32 else unat c)"
proof (cases "97 \<le> unat c \<and> unat c \<le> 122")
  case True
  have "(32 :: char32) \<le> ucast c" using True by (simp add: word_le_nat_alt unat_ucast32)
  then have "unat (ucast c - (32 :: char32)) = unat c - 32" by (simp add: unat_sub unat_ucast32)
  with True show ?thesis by (simp add: up_def toupper_cases unat_ucast32)
next
  case False
  then show ?thesis by (auto simp: up_def toupper_cases unat_ucast32)
qed

lemma up_eq_0: "up c = 0 \<longleftrightarrow> c = 0"
  by (simp add: word_unat_eq_iff unat_up)

lemma up_sep: "is_sep c \<Longrightarrow> up d = up c \<longleftrightarrow> d = c"
  by (auto simp: word_unat_eq_iff unat_up is_sep_def)

lemma up_bar: "up c = 124 \<longleftrightarrow> c = 124"
  by (auto simp: word_unat_eq_iff unat_up)

lemma up_less: "uint (up c) < 256"
proof -
  have "unat (up c) < 256" using unsigned_less [of c, where 'a = nat] by (auto simp: unat_up)
  then have "int (unat (up c)) < 256" by linarith
  then show ?thesis by simp
qed

lemma small_diff: "0 \<le> x \<Longrightarrow> x < 256 \<Longrightarrow> 0 \<le> y \<Longrightarrow> y < 256 \<Longrightarrow> signed_take_bit 31 (x - y) = (x - y :: int)"
  by (rule signed_take_bit_int_eq_self) simp_all

lemma sint_up: "sint (up c) = uint (up c)"
  using small_diff [of "uint (up c)" 0] up_less [of c] by (simp add: sint_uint)

lemma sint_up_diff: "sint (up c - up d) = uint (up c) - uint (up d)"
  using small_diff [of "uint (up c)" "uint (up d)"] up_less by (simp add: sint_word_ariths(2) sint_up)

lemma up_diff_zero: "sint (up c - up d) = 0 \<longleftrightarrow> up c = up d"
  by (simp add: sint_up_diff word_uint_eq_iff)

lemma up_diff_neg: "sint (up c - up d) < 0 \<longleftrightarrow> up c < up d"
  by (simp add: sint_up_diff word_less_def)

section \<open>Comparison ignoring case and separators\<close>

definition xnorm :: "byte list \<Rightarrow> char32 list" where
  "xnorm s = map up (filter (\<lambda>c. \<not> is_sep c) s)"

fun lex_cmp :: "char32 list \<Rightarrow> char32 list \<Rightarrow> int" where
  "lex_cmp [] [] = 0"
| "lex_cmp [] (y # ys) = -1"
| "lex_cmp (x # xs) [] = 1"
| "lex_cmp (x # xs) (y # ys) = (if x = y then lex_cmp xs ys else if x < y then -1 else 1)"

declare strxcmp.simps [simp del]

lemma xnorm_simps [simp]:
  "xnorm [] = []" "xnorm (c # s) = (if is_sep c then xnorm s else up c # xnorm s)"
  by (simp_all add: xnorm_def)

lemma strxcmp_lex: "0 \<notin> set s1 \<Longrightarrow> 0 \<notin> set s2 \<Longrightarrow> strxcmp s1 s2 = lex_cmp (xnorm s1) (xnorm s2)"
proof (induction s1 s2 rule: strxcmp.induct)
  case (1 s1 s2)
  note IH = "1.IH" [OF refl refl refl]
  have tl: "0 \<notin> set (tl s)" if "0 \<notin> set s" for s :: "byte list" using that by (cases s) simp_all
  have x: "xnorm s = (if is_sep (head0 s) then xnorm (tl s) else up (head0 s) # xnorm (tl s))" if "s \<noteq> []" for s
    using that by (cases s) simp_all
  consider (diff2) "up (head0 s1) \<noteq> up (head0 s2)" "is_sep (head0 s2)"
    | (diff1) "up (head0 s1) \<noteq> up (head0 s2)" "\<not> is_sep (head0 s2)" "is_sep (head0 s1)"
    | (diff) "up (head0 s1) \<noteq> up (head0 s2)" "\<not> is_sep (head0 s2)" "\<not> is_sep (head0 s1)"
    | (stop) "up (head0 s1) = up (head0 s2)" "head0 s1 = 0"
    | (same) "up (head0 s1) = up (head0 s2)" "head0 s1 \<noteq> 0" by blast
  then show ?case
  proof cases
    case diff2
    then show ?thesis
      using IH(1) [OF _ diff2(2) "1.prems"(1) tl [OF "1.prems"(2)]] x [OF is_sep_nonempty [OF diff2(2)]]
      by (subst strxcmp.simps) (simp add: Let_def up_diff_zero)
  next
    case diff1
    then show ?thesis
      using IH(2) [OF _ diff1(2,3) tl [OF "1.prems"(1)] "1.prems"(2)] x [OF is_sep_nonempty [OF diff1(3)]]
      by (subst strxcmp.simps) (simp add: Let_def up_diff_zero)
  next
    case diff
    have "strxcmp s1 s2 = (if up (head0 s1) < up (head0 s2) then -1 else 1)"
      using diff by (subst strxcmp.simps) (simp add: Let_def up_diff_zero up_diff_neg)
    with diff "1.prems" show ?thesis
      by (cases s1; cases s2) (auto simp: up_eq_0 word_gt_0 not_less)
  next
    case stop
    then have "head0 s2 = 0" using up_eq_0 [of "head0 s2"] by simp
    with stop "1.prems" have "s1 = []" "s2 = []" by (cases s1; cases s2; auto)+
    then show ?thesis by (subst strxcmp.simps) simp
  next
    case same
    then have n: "s1 \<noteq> []" "s2 \<noteq> []" using up_eq_0 by (cases s1; cases s2; auto)+
    have "is_sep (head0 s1) \<longleftrightarrow> is_sep (head0 s2)" using same(1) up_sep by metis
    then show ?thesis
      using IH(3) [OF _ same(2) tl [OF "1.prems"(1)] tl [OF "1.prems"(2)]] x [OF n(1)] x [OF n(2)] same
      by (subst strxcmp.simps) (simp add: Let_def up_diff_zero)
  qed
qed

text \<open>C37. \<^verbatim>\<open>strxcmp\<close> is the lexicographic comparison of the two strings in upper case with
  their dashes, underscores and spaces removed.\<close>

theorem strxcmp_compares:
  assumes "0 \<notin> set s1" "0 \<notin> set s2"
  shows "strxcmp s1 s2 = lex_cmp (xnorm s1) (xnorm s2)"
  using assms by (rule strxcmp_lex)

theorem strxcmp_compares_witness: "strxcmp (cstr ''next-buffer'') (cstr ''Next_Buf fer'') = 0"
  using strxcmp_compares [of "cstr ''next-buffer''" "cstr ''Next_Buf fer''"]
  by (simp add: cstr_def is_sep_def up_def qe_toupper_def qe_inrange_def)

section \<open>Word lists\<close>

text \<open>The words of a list: the segments between bars, the empty ones included.\<close>

fun bar_words :: "byte list \<Rightarrow> byte list list" where
  "bar_words [] = [[]]"
| "bar_words (c # q) =
     (if c = BAR then [] # bar_words q
      else case bar_words q of [] \<Rightarrow> [[c]] | w # ws \<Rightarrow> (c # w) # ws)"

definition first_word :: "byte list \<Rightarrow> byte list" where
  "first_word q = takeWhile (\<lambda>c. c \<noteq> BAR) q"

definition other_words :: "byte list \<Rightarrow> byte list list" where
  "other_words q = (case skip_word q of None \<Rightarrow> [] | Some r \<Rightarrow> bar_words r)"

lemma first_word_simps [simp]:
  "first_word [] = []" "first_word (c # q) = (if c = BAR then [] else c # first_word q)"
  by (simp_all add: first_word_def)

lemma other_words_simps [simp]:
  "other_words [] = []" "other_words (c # q) = (if c = BAR then bar_words q else other_words q)"
  by (simp_all add: other_words_def skip_word_def)

lemma bar_words_split: "bar_words q = first_word q # other_words q"
  by (induction q) simp_all

lemma skip_seps:
  "xnorm (dropWhile is_sep q) = xnorm q"
  "xnorm (first_word (dropWhile is_sep q)) = xnorm (first_word q)"
  "other_words (dropWhile is_sep q) = other_words q"
  by (induction q) (auto simp: is_sep_def)

lemma skip_word_zero: "skip_word q = Some r \<Longrightarrow> 0 \<notin> set q \<Longrightarrow> 0 \<notin> set r"
  by (auto simp: skip_word_def split: list.splits dest: set_dropWhileD [of _ "\<lambda>c. c \<noteq> BAR"])
     (metis list.set_intros(2) set_dropWhileD)

definition found :: "byte list \<Rightarrow> byte list \<Rightarrow> byte list \<Rightarrow> bool" where
  "found s p q \<longleftrightarrow> xnorm p = xnorm (first_word q) \<or> (\<exists>w \<in> set (other_words q). xnorm s = xnorm w)"

lemma found_words: "found s s q \<longleftrightarrow> (\<exists>w \<in> set (bar_words q). xnorm s = xnorm w)"
  by (simp add: found_def bar_words_split)

lemma found_skip: "found s (dropWhile is_sep p) (dropWhile is_sep q) = found s p q"
  by (simp add: found_def skip_seps)

lemma found_rest:
  "(case skip_word q of None \<Rightarrow> False | Some r \<Rightarrow> found s s r) \<longleftrightarrow> (\<exists>w \<in> set (other_words q). xnorm s = xnorm w)"
  by (auto simp: other_words_def found_words split: option.split)

lemma scan_found: "0 \<notin> set s \<Longrightarrow> 0 \<notin> set p \<Longrightarrow> 0 \<notin> set q \<Longrightarrow> BAR \<notin> set s \<Longrightarrow> BAR \<notin> set p \<Longrightarrow>
  strxfind_scan s p q = found s p q"
proof (induction s p q rule: strxfind_scan.induct)
  case (1 s p q)
  define p' q' where "p' = dropWhile is_sep p" and "q' = dropWhile is_sep q"
  note IH = "1.IH" [OF refl refl refl refl, folded p'_def q'_def]
  have z: "0 \<notin> set p'" "0 \<notin> set q'" using "1.prems" by (auto simp: p'_def q'_def dest: set_dropWhileD)
  have n: "p' = [] \<or> \<not> is_sep (hd p')" "q' = [] \<or> \<not> is_sep (hd q')"
    unfolding p'_def q'_def using hd_dropWhile by blast+
  have e: "found s p q = found s p' q'" by (simp add: p'_def q'_def found_skip)
  have rest: "(case skip_word (tl q') of None \<Rightarrow> False | Some r \<Rightarrow> strxfind_scan s s r) =
      (\<exists>w \<in> set (other_words (tl q')). xnorm s = xnorm w)"
    if "\<And>r. skip_word (tl q') = Some r \<Longrightarrow> strxfind_scan s s r = found s s r"
    using that by (auto simp: other_words_def found_words split: option.split)
  have "BAR \<notin> set p'" using "1.prems"(5) by (auto simp: p'_def dest: set_dropWhileD)
  then have b: "BAR \<notin> set p'" "BAR \<notin> set (tl p')" by (cases p'; simp)+
  have zt: "0 \<notin> set (tl p')" "0 \<notin> set (tl q')" using z by (cases p'; cases q'; simp)+
  note u = strxfind_scan.simps [of s p q, folded p'_def q'_def]
  show ?case
  proof (cases p')
    case Nil
    then have c1: "up (head0 p') = 0" by simp
    show ?thesis
    proof (cases "up (head0 q') = 0 \<or> up (head0 q') = 124")
      case True
      with z n have "q' = [] \<or> hd q' = BAR" by (cases q') (auto simp: up_eq_0 up_bar)
      with Nil True show ?thesis unfolding e u by (cases q') (auto simp: Let_def found_def)
    next
      case False
      have "\<And>r. skip_word (tl q') = Some r \<Longrightarrow> strxfind_scan s s r = found s s r"
        using IH(1) [OF c1] False "1.prems"(1,4) zt(2) by (simp add: skip_word_zero)
      from rest [OF this] Nil n False show ?thesis unfolding e u
        by (cases q') (auto simp: Let_def found_def up_bar)
    qed
  next
    case (Cons a p2)
    then have c1: "up (head0 p') \<noteq> 0" "up (head0 p') = up a" "\<not> is_sep a" using z n by (auto simp: up_eq_0)
    consider (bar) "up a \<noteq> up (head0 q')" "up (head0 q') = 124"
      | (zero) "up a \<noteq> up (head0 q')" "up (head0 q') = 0"
      | (other) "up a \<noteq> up (head0 q')" "up (head0 q') \<noteq> 0" "up (head0 q') \<noteq> 124"
      | (same) "up a = up (head0 q')" by blast
    then show ?thesis
    proof cases
      case bar
      then have "strxfind_scan s s (tl q') = found s s (tl q')"
        using IH(2) [OF c1(1)] c1(2) "1.prems"(1,4) zt(2) by simp
      with bar c1 Cons show ?thesis unfolding e u
        by (cases q') (auto simp: Let_def up_bar found_def bar_words_split)
    next
      case zero
      with z have "q' = []" by (cases q') (auto simp: up_eq_0)
      with zero c1 Cons show ?thesis unfolding e u by (simp add: Let_def found_def)
    next
      case other
      have "\<And>r. skip_word (tl q') = Some r \<Longrightarrow> strxfind_scan s s r = found s s r"
        using IH(3) [OF c1(1)] other c1(2) "1.prems"(1,4) zt(2) by (simp add: skip_word_zero)
      from rest [OF this] other c1 Cons n show ?thesis unfolding e u
        by (cases q') (auto simp: Let_def found_def up_bar)
    next
      case same
      have i: "strxfind_scan s (tl p') (tl q') = found s (tl p') (tl q')"
        using IH(4) [OF c1(1)] same c1(2) "1.prems"(1,4) zt b by simp
      obtain b q2 where q: "q' = b # q2" using same c1 by (cases q') auto
      have "b \<noteq> BAR" using same q b(1) Cons up_bar [of a] up_bar [of b] by auto
      with i q Cons c1 n same show ?thesis unfolding e u by (auto simp: Let_def found_def)
    qed
  qed
qed

lemma after_first_word: "drop (Suc (length (first_word q))) q = (case skip_word q of None \<Rightarrow> [] | Some r \<Rightarrow> r)"
  by (induction q) (auto simp: skip_word_def)

lemma memfind_words_set:
  "s \<noteq> [] \<Longrightarrow> memfind_words q s (length s) \<longleftrightarrow> s \<in> set (bar_words q)"
proof (induction q s "length s" rule: memfind_words.induct)
  case (1 q s)
  show ?case
  proof (cases "q = []")
    case False
    have "memfind_words q s (length s) \<longleftrightarrow>
        first_word q = s \<or> memfind_words (drop (Suc (length (first_word q))) q) s (length s)"
      using False by (subst memfind_words.simps) (auto simp: Let_def first_word_def)
    moreover have "memfind_words (drop (Suc (length (first_word q))) q) s (length s) \<longleftrightarrow>
        s \<in> set (bar_words (drop (Suc (length (first_word q))) q))" if "first_word q \<noteq> s"
      using "1.hyps" [OF False refl refl] that "1.prems" by (auto simp: first_word_def)
    moreover have "s \<in> set (bar_words (drop (Suc (length (first_word q))) q)) \<longleftrightarrow> s \<in> set (other_words q)"
      using "1.prems" by (auto simp: after_first_word other_words_def split: option.splits)
    ultimately show ?thesis by (auto simp: bar_words_split)
  qed (use "1.prems" in \<open>simp add: memfind_words.simps\<close>)
qed

lemma butlast_words:
  "[] \<in> set (butlast (bar_words q)) \<longleftrightarrow> head0 q = BAR \<or> [] \<in> set (tl (butlast (bar_words q)))"
  by (cases q) (auto simp: bar_words_split)

lemma double_bar_words: "double_bar q \<longleftrightarrow> [] \<in> set (tl (butlast (bar_words q)))"
proof (induction q)
  case (Cons c q)
  then show ?case using butlast_words [of q] by (auto simp: bar_words_split)
qed simp



section \<open>Bounded copies\<close>

lemma copy_chars_take: "0 \<notin> set s \<Longrightarrow> copy_chars n s = take n s"
  by (induction n s rule: copy_chars.induct) auto

lemma pstrcpy_take: "0 < sz \<Longrightarrow> 0 \<notin> set s \<Longrightarrow> pstrcpy buf sz s = take (nat sz - 1) s"
  by (simp add: pstrcpy_def copy_chars_take nat_diff_distrib)

lemma pstrncpy_take:
  assumes "0 < sz" "0 \<notin> set s" "0 \<le> len"
  shows "pstrncpy buf sz s len = take (nat sz - 1) (take (nat len) s)"
proof -
  have "nat (if len \<ge> sz then sz - 1 else len) = min (nat sz - 1) (nat len)" using assms by auto
  then show ?thesis using assms by (simp add: pstrncpy_def copy_chars_take)
qed

lemma room_after: "int n < sz \<Longrightarrow> nat (sz - int n) - 1 = nat sz - 1 - n \<and> n \<le> nat sz - 1 \<and> 0 < sz - int n"
  by arith

lemma pstrcat_take: "int (length buf) < sz \<Longrightarrow> 0 \<notin> set s \<Longrightarrow> pstrcat buf sz s = take (nat sz - 1) (buf @ s)"
  using room_after [of "length buf" sz] pstrcpy_take [of "sz - int (length buf)" s "[]"]
  by (simp add: pstrcat_def strnlen_def Let_def)

lemma pstrncat_take:
  "int (length buf) < sz \<Longrightarrow> 0 \<notin> set s \<Longrightarrow> 0 \<le> len \<Longrightarrow>
    pstrncat buf sz s len = take (nat sz - 1) (buf @ take (nat len) s)"
  using room_after [of "length buf" sz] pstrncpy_take [of "sz - int (length buf)" s len "[]"]
  by (simp add: pstrncat_def strnlen_def Let_def)

text \<open>The bounded copies never write past the destination: with room for at least one byte
  the result is the source (cut to the given length, after what the destination holds) truncated
  so that the terminating zero still fits; without room nothing is written.\<close>

theorem bounded_copies:
  assumes "0 \<notin> set s" "0 \<le> len"
  shows "(0 < sz \<longrightarrow> pstrcpy buf sz s = take (nat sz - 1) s \<and>
      pstrncpy buf sz s len = take (nat sz - 1) (take (nat len) s)) \<and>
    (int (length buf) < sz \<longrightarrow> pstrcat buf sz s = take (nat sz - 1) (buf @ s) \<and>
      pstrncat buf sz s len = take (nat sz - 1) (buf @ take (nat len) s)) \<and>
    (sz \<le> 0 \<longrightarrow> pstrcpy buf sz s = buf \<and> pstrncpy buf sz s len = buf \<and> pstrcat buf sz s = buf \<and> pstrncat buf sz s len = buf)"
proof (intro conjI impI)
  assume "sz \<le> 0"
  then show "pstrcpy buf sz s = buf" "pstrncpy buf sz s len = buf" "pstrcat buf sz s = buf" "pstrncat buf sz s len = buf"
    by (simp_all add: pstrcpy_def pstrncpy_def pstrcat_def pstrncat_def strnlen_def)
qed (use assms in \<open>simp_all add: pstrcpy_take pstrncpy_take pstrcat_take pstrncat_take\<close>)

theorem bounded_copies_witness:
  "pstrcat (cstr ''ab'') 5 (cstr ''cdef'') = cstr ''abcd'' \<and> pstrncpy [] 3 (cstr ''cdef'') 8 = cstr ''cd''"
  using bounded_copies [of "cstr ''cdef''" 8 5 "cstr ''ab''"] bounded_copies [of "cstr ''cdef''" 8 3 "[]"]
  by (simp add: cstr_def)

section \<open>Patterns\<close>

abbreviation STAR :: byte where "STAR \<equiv> ch CHR ''*''"

text \<open>What a pattern means: a star stands for any run of characters.\<close>

fun glob :: "bool \<Rightarrow> byte list \<Rightarrow> byte list \<Rightarrow> bool" where
  "glob start [] s = (start \<or> s = [])"
| "glob start (c # p) s =
     (if c = STAR then (\<exists>k \<le> length s. glob start p (drop k s))
      else s \<noteq> [] \<and> hd s = c \<and> glob start p (tl s))"

fun single_stars :: "byte list \<Rightarrow> bool" where
  "single_stars (c # d # p) = (\<not> (c = STAR \<and> d = STAR) \<and> single_stars (d # p))"
| "single_stars p = True"

lemma single_stars_tl: "single_stars (c # p) \<Longrightarrow> single_stars p"
  by (cases p) simp_all

lemma glob_star_step:
  assumes "c \<noteq> STAR"
  shows "(\<exists>k \<le> length (d # s). glob start (c # p) (drop k (d # s))) \<longleftrightarrow>
    c = d \<and> glob start p s \<or> (\<exists>k \<le> length s. glob start (c # p) (drop k s))" (is "?l \<longleftrightarrow> ?r")
proof
  assume ?l
  then obtain k where k: "k \<le> Suc (length s)" "glob start (c # p) (drop k (d # s))" by auto
  then show ?r using assms by (cases k) auto
next
  assume ?r
  then show ?l
  proof
    assume "c = d \<and> glob start p s"
    then show ?l using assms by (intro exI [of _ 0]) simp
  next
    assume "\<exists>k \<le> length s. glob start (c # p) (drop k s)"
    then obtain k where "k \<le> length s" "glob start (c # p) (drop k s)" by blast
    then show ?l by (intro exI [of _ "Suc k"]) simp
  qed
qed

lemma strmatch_glob:
  "single_stars pat \<Longrightarrow> strmatch_pat str pat start = glob start pat str"
  "c1 \<noteq> STAR \<Longrightarrow> single_stars pt \<Longrightarrow>
    strmatch_star c1 pt st start = (\<exists>k \<le> length st. glob start (c1 # pt) (drop k st))"
proof (induction str pat start and c1 pt st start rule: strmatch_pat_strmatch_star.induct)
  case (2 str c1 pat start)
  show ?case
  proof (cases "c1 = STAR")
    case True
    show ?thesis
    proof (cases pat)
      case Nil
      with True show ?thesis by auto
    next
      case (Cons c pat')
      with True "2.prems" have "c \<noteq> STAR" "single_stars pat'" by (auto dest: single_stars_tl)
      with "2.IH"(1) [OF True Cons] True Cons show ?thesis by simp
    qed
  next
    case False
    with "2.IH"(2) [OF False] single_stars_tl [OF "2.prems"] show ?thesis
      by (cases str) auto
  qed
next
  case (4 c1 pat c2 str start)
  then show ?case using glob_star_step [of c1 c2 str start pat] by simp
qed simp_all

text \<open>C39. Pattern matching agrees with the meaning of patterns, a star standing for any run of
  characters, both for whole strings and for prefixes, on patterns without adjacent stars.\<close>

theorem strmatch_pat_glob:
  assumes "single_stars pat"
  shows "strmatch_pat str pat start = glob start pat str"
  using assms by (rule strmatch_glob)

theorem strmatch_pat_glob_witness:
  "strmatch_pat (cstr ''buffer.c'') (cstr ''*f*.c'') False = glob False (cstr ''*f*.c'') (cstr ''buffer.c'')"
  using strmatch_pat_glob [of "cstr ''*f*.c''" "cstr ''buffer.c''" False] by (simp add: cstr_def)

section \<open>Searches\<close>

lemma mem_loop_spec:
  "mem_loop n p c p1 i = Some j \<Longrightarrow> i \<le> j \<and> j < i + n \<and> take (Suc (length p1)) (drop (j - i) p) = c # p1 \<and>
     (\<forall>k < j - i. take (Suc (length p1)) (drop k p) \<noteq> c # p1)"
  "mem_loop n p c p1 i = None \<Longrightarrow> \<forall>k < n. take (Suc (length p1)) (drop k p) \<noteq> c # p1"
proof (induction n p c p1 i rule: mem_loop.induct)
  case (2 n p c p1 i)
  have h: "take (Suc (length p1)) p = c # p1 \<longleftrightarrow> p \<noteq> [] \<and> hd p = c \<and> take (length p1) (tl p) = p1"
    by (cases p) auto
  { case 1
    show ?case
    proof (cases "take (Suc (length p1)) p = c # p1")
      case True
      with 1 h show ?thesis by (auto split: if_splits)
    next
      case False
      with 1 h have "mem_loop n (tl p) c p1 (Suc i) = Some j" by (auto split: if_splits)
      from "2.IH"(1) [OF _ this] False h have *: "Suc i \<le> j" "j < Suc i + n"
        "take (Suc (length p1)) (drop (j - Suc i) (tl p)) = c # p1"
        "\<forall>k < j - Suc i. take (Suc (length p1)) (drop k (tl p)) \<noteq> c # p1" by auto
      have "drop (Suc k) p = drop k (tl p)" for k by (simp add: drop_Suc)
      moreover have "j - i = Suc (j - Suc i)" using *(1) by simp
      ultimately show ?thesis using * False by (auto simp: less_Suc_eq_0_disj)
    qed }
  { case 2
    then have "\<not> (p \<noteq> [] \<and> hd p = c \<and> take (length p1) (tl p) = p1)" "mem_loop n (tl p) c p1 (Suc i) = None"
      by (auto split: if_splits)
    with "2.IH"(2) h show ?case by (auto simp: less_Suc_eq_0_disj drop_Suc) }
qed simp_all

definition occurs_at :: "byte list \<Rightarrow> byte list \<Rightarrow> nat \<Rightarrow> bool" where
  "occurs_at str buf i \<longleftrightarrow> i + length str \<le> length buf \<and> take (length str) (drop i buf) = str"

lemma memstr_spec:
  "memstr buf str = Some i \<Longrightarrow> occurs_at str buf i \<and> (\<forall>k < i. \<not> occurs_at str buf k)"
  "memstr buf str = None \<Longrightarrow> \<not> occurs_at str buf k"
proof -
  assume m: "memstr buf str = Some i"
  show "occurs_at str buf i \<and> (\<forall>k < i. \<not> occurs_at str buf k)"
  proof (cases str)
    case (Cons c s)
    then have "mem_loop (length buf - length s) buf c s 0 = Some i" "length s < length buf"
      using m by (auto simp: memstr_def split: if_splits)
    with mem_loop_spec(1) [OF this(1)] Cons show ?thesis by (auto simp: occurs_at_def)
  qed (use m in \<open>simp add: memstr_def occurs_at_def\<close>)
next
  assume m: "memstr buf str = None"
  show "\<not> occurs_at str buf k"
  proof (cases str)
    case (Cons c s)
    show ?thesis
    proof (cases "length s < length buf")
      case True
      then have "mem_loop (length buf - length s) buf c s 0 = None"
        using m Cons by (auto simp: memstr_def split: if_splits)
      from mem_loop_spec(2) [OF this] Cons True show ?thesis by (auto simp: occurs_at_def)
    qed (use Cons in \<open>simp add: occurs_at_def\<close>)
  qed (use m in \<open>simp add: memstr_def\<close>)
qed

lemma strmem_memstr: "0 \<notin> set mem \<Longrightarrow> strmem str mem (int (length mem)) = memstr str mem"
  by (cases mem) (auto simp: strmem_def memstr_def Let_def nat_add_distrib)

text \<open>\<^verbatim>\<open>memstr\<close> and \<^verbatim>\<open>strmem\<close> return the first occurrence of the bytes searched, and nothing
  only when they do not occur.\<close>

theorem search_first_occurrence:
  assumes "0 \<notin> set str"
  shows "strmem buf str (int (length str)) = memstr buf str \<and>
    (case memstr buf str of
       Some i \<Rightarrow> occurs_at str buf i \<and> (\<forall>k < i. \<not> occurs_at str buf k)
     | None \<Rightarrow> (\<forall>k. \<not> occurs_at str buf k))"
  using strmem_memstr [OF assms, of buf] memstr_spec [of buf str] by (cases "memstr buf str") auto

theorem search_first_occurrence_witness:
  "case memstr (cstr ''abcbc'') (cstr ''bc'') of
       Some i \<Rightarrow> occurs_at (cstr ''bc'') (cstr ''abcbc'') i \<and> (\<forall>k < i. \<not> occurs_at (cstr ''bc'') (cstr ''abcbc'') k)
     | None \<Rightarrow> (\<forall>k. \<not> occurs_at (cstr ''bc'') (cstr ''abcbc'') k)"
  using search_first_occurrence [of "cstr ''bc''" "cstr ''abcbc''"] by (simp add: cstr_def)

section \<open>Collation\<close>

definition collate_tail :: "(byte \<times> byte list \<times> byte list) option \<Rightarrow> int" where
  "collate_tail x = (case x of None \<Rightarrow> 0 | Some (lst, t1, t2) \<Rightarrow>
     let c1 = head0 t1; c2 = head0 t2;
         res = (if c1 = ch CHR ''*'' then 1 else if c2 = ch CHR ''*'' then -1 else if c1 < c2 then -1 else 1);
         (lst, d1, d2) = collate_digits lst t1 t2
     in if \<not> digit lst \<or> (\<not> d1 \<and> \<not> d2) then res else if \<not> d1 \<and> d2 then -1 else 1)"

lemma strcollate_tail: "qe_strcollate s1 s2 = collate_tail (collate_prefix 0 s1 s2)"
  by (simp add: qe_strcollate_def collate_tail_def)

lemma collate_prefix_swap:
  "collate_prefix lst s2 s1 = map_option (\<lambda>(l, t1, t2). (l, t2, t1)) (collate_prefix lst s1 s2)"
proof (induction lst s1 s2 rule: collate_prefix.induct)
  case (1 lst s1 s2)
  then show ?case
    by (subst (1 2) collate_prefix.simps) auto
qed

lemma collate_prefix_diff: "collate_prefix lst s1 s2 = Some (l, t1, t2) \<Longrightarrow> head0 t1 \<noteq> head0 t2"
proof (induction lst s1 s2 rule: collate_prefix.induct)
  case (1 lst s1 s2)
  from "1.prems" "1.IH" collate_prefix.simps [of lst s1 s2] show ?case
    by (auto split: if_splits)
qed

lemma collate_prefix_none: "0 \<notin> set s1 \<Longrightarrow> 0 \<notin> set s2 \<Longrightarrow> collate_prefix lst s1 s2 = None \<longleftrightarrow> s1 = s2"
proof (induction lst s1 s2 rule: collate_prefix.induct)
  case (1 lst s1 s2)
  then show ?case
    by (subst collate_prefix.simps) (cases s1; cases s2; auto)
qed

lemma collate_digits_last:
  "digit (fst (collate_digits lst s1 s2)) \<longleftrightarrow> digit lst \<or> digit (head0 s1) \<and> digit (head0 s2)"
proof (induction lst s1 s2 rule: collate_digits.induct)
  case (1 lst s1 s2)
  then show ?case by (subst collate_digits.simps) auto
qed

lemma collate_digits_swap:
  "snd (collate_digits lst' s2 s1) = prod.swap (snd (collate_digits lst s1 s2))"
proof (induction lst s1 s2 arbitrary: lst' rule: collate_digits.induct)
  case (1 lst s1 s2)
  then show ?case by (subst (1 2) collate_digits.simps) auto
qed

lemma strcollate_antisym: "qe_strcollate s2 s1 = - qe_strcollate s1 s2"
proof (cases "collate_prefix 0 s1 s2")
  case None
  then show ?thesis by (simp add: strcollate_tail collate_prefix_swap [of 0 s2 s1] collate_tail_def)
next
  case (Some x)
  obtain l t1 t2 where x: "x = (l, t1, t2)" by (cases x)
  obtain e1 e2 where d: "snd (collate_digits l t1 t2) = (e1, e2)" by fastforce
  have h: "head0 t1 \<noteq> head0 t2" using collate_prefix_diff Some x by blast
  have "\<not> (e1 \<and> e2)"
    using d by (induction l t1 t2 rule: collate_digits.induct) (subst (asm) (2) collate_digits.simps, auto split: if_splits)
  then show ?thesis
    using d h collate_digits_swap [of l t2 t1 l] collate_digits_last [of l t1 t2] collate_digits_last [of l t2 t1]
    by (auto simp: strcollate_tail collate_prefix_swap [of 0 s2 s1] Some x collate_tail_def Let_def case_prod_beta)
qed

lemma strcollate_zero: "0 \<notin> set s1 \<Longrightarrow> 0 \<notin> set s2 \<Longrightarrow> qe_strcollate s1 s2 = 0 \<longleftrightarrow> s1 = s2"
  using collate_prefix_none [of s1 s2 0]
  by (cases "collate_prefix 0 s1 s2") (auto simp: strcollate_tail collate_tail_def Let_def case_prod_beta)

subsection \<open>Numbers\<close>

fun number :: "byte list \<Rightarrow> nat" where
  "number [] = 0"
| "number (c # d) = (unat c - 48) * 10 ^ length d + number d"

definition digits :: "byte list \<Rightarrow> bool" where
  "digits d \<longleftrightarrow> (\<forall>c \<in> set d. digit c)"

lemma digit_range: "digit c \<longleftrightarrow> 48 \<le> unat c \<and> unat c \<le> 57"
proof -
  have "(x :: char32) - 48 \<le> 9 \<longleftrightarrow> 48 \<le> unat x \<and> unat x \<le> 57" for x
    by (auto simp: word_le_nat_alt unat_sub_if_size size_word.rep_eq split: if_splits)
  then show ?thesis by (simp add: digit_def qe_isdigit_def qe_inrange_def unat_ucast32)
qed

lemma number_less: "digits d \<Longrightarrow> number d < 10 ^ length d"
proof (induction d)
  case (Cons c d)
  then have "unat c - 48 \<le> 9" "number d < 10 ^ length d" by (auto simp: digits_def digit_range)
  moreover from this(1) have "(unat c - 48) * 10 ^ length d \<le> 9 * 10 ^ length d" by (rule mult_le_mono1)
  moreover have "number (c # d) = (unat c - 48) * 10 ^ length d + number d" by simp
  moreover have "(10 :: nat) ^ length (c # d) = 9 * 10 ^ length d + 10 ^ length d" by simp
  ultimately show ?case by linarith
qed simp

lemma number_ge: "digits d \<Longrightarrow> d \<noteq> [] \<Longrightarrow> hd d \<noteq> 48 \<Longrightarrow> 10 ^ (length d - 1) \<le> number d"
proof (cases d)
  case (Cons c e)
  assume "digits d" "hd d \<noteq> 48"
  then have "1 \<le> unat c - 48" using Cons by (auto simp: digits_def digit_range word_unat_eq_iff)
  then have "1 * 10 ^ length e \<le> (unat c - 48) * 10 ^ length e" by (rule mult_le_mono1)
  also have "\<dots> \<le> number d" using Cons by simp
  finally show ?thesis using Cons by simp
qed simp

lemma collate_digits_shorter:
  assumes "digits d1" "digits d2" "\<not> digit (head0 r1)" "length d1 < length d2"
  shows "snd (collate_digits lst (d1 @ r1) (d2 @ r2)) = (False, True)"
  using assms
proof (induction d1 arbitrary: d2 lst)
  case Nil
  then show ?case by (cases d2) (simp_all add: digits_def collate_digits.simps)
next
  case (Cons a d1)
  then obtain b d where "d2 = b # d" by (cases d2) auto
  with Cons show ?case by (subst collate_digits.simps) (simp add: digits_def)
qed

lemma collate_digits_same:
  assumes "digits d1" "digits d2" "\<not> digit (head0 r1)" "\<not> digit (head0 r2)" "length d1 = length d2"
  shows "snd (collate_digits lst (d1 @ r1) (d2 @ r2)) = (False, False)"
  using assms
proof (induction d1 arbitrary: d2 lst)
  case Nil
  then show ?case by (simp add: collate_digits.simps)
next
  case (Cons a d1)
  then obtain b d where "d2 = b # d" by (cases d2) auto
  with Cons show ?case by (subst collate_digits.simps) (simp add: digits_def)
qed

lemma collate_prefix_append:
  "0 \<notin> set p \<Longrightarrow> collate_prefix lst (p @ a) (p @ b) = collate_prefix (if p = [] then lst else last p) a b"
  by (induction p arbitrary: lst) (auto simp: collate_prefix.simps [of _ "_ # _"])

lemma digit_nonzero: "digit c \<Longrightarrow> c \<noteq> 0 \<and> c \<noteq> ch CHR ''*''"
  by (auto simp: digit_range)

lemma collate_shorter:
  assumes "digits d1" "digits d2" "\<not> digit (head0 r1)" "length d1 < length d2" "d1 \<noteq> [] \<or> digit lst"
  shows "collate_tail (collate_prefix lst (d1 @ r1) (d2 @ r2)) = -1"
  using assms
proof (induction d1 arbitrary: d2 lst)
  case Nil
  then obtain b d where d2: "d2 = b # d" "digit b" by (cases d2) (auto simp: digits_def)
  with Nil have "head0 r1 \<noteq> b" by auto
  then show ?case
    using Nil collate_digits_shorter [of "[]" d2 r1 lst r2] collate_digits_last [of lst r1 "d2 @ r2"] d2
    by (subst collate_prefix.simps) (auto simp: collate_tail_def Let_def case_prod_beta)
next
  case (Cons a d1)
  then obtain b d where d2: "d2 = b # d" by (cases d2) auto
  have dg: "digit a" "digits d1" "digit b" "digits d" using Cons.prems d2 by (auto simp: digits_def)
  show ?case
  proof (cases "a = b")
    case True
    with Cons.IH [of d a] Cons.prems dg d2 digit_nonzero [OF dg(1)] show ?thesis
      by (subst collate_prefix.simps) simp
  next
    case False
    with Cons.prems d2 dg show ?thesis
      using collate_digits_shorter [of "a # d1" d2 r1 lst r2] collate_digits_last [of lst "(a # d1) @ r1" "d2 @ r2"]
      by (subst collate_prefix.simps) (auto simp: collate_tail_def Let_def case_prod_beta)
  qed
qed

lemma collate_same:
  assumes "digits d1" "digits d2" "\<not> digit (head0 r1)" "\<not> digit (head0 r2)" "length d1 = length d2"
    "number d1 < number d2"
  shows "collate_tail (collate_prefix lst (d1 @ r1) (d2 @ r2)) = -1"
  using assms
proof (induction d1 arbitrary: d2 lst)
  case (Cons a d1)
  then obtain b d where d2: "d2 = b # d" by (cases d2) auto
  have dg: "digit a" "digits d1" "digit b" "digits d" using Cons.prems d2 by (auto simp: digits_def)
  show ?case
  proof (cases "a = b")
    case True
    with Cons.IH [of d a] Cons.prems dg d2 digit_nonzero [OF dg(1)] show ?thesis
      by (subst collate_prefix.simps) simp
  next
    case False
    have "a < b"
    proof (rule ccontr)
      assume "\<not> a < b"
      with False dg have "Suc (unat b - 48) \<le> unat a - 48"
        by (auto simp: word_less_nat_alt digit_range word_unat_eq_iff)
      then have "Suc (unat b - 48) * 10 ^ length d \<le> (unat a - 48) * 10 ^ length d" by (rule mult_le_mono1)
      moreover have "number d < 10 ^ length d" using dg by (simp add: number_less)
      moreover have "number (a # d1) = (unat a - 48) * 10 ^ length d + number d1"
        "number d2 = (unat b - 48) * 10 ^ length d + number d" using Cons.prems d2 by simp_all
      ultimately show False using Cons.prems(6) by simp
    qed
    with False Cons.prems d2 dg show ?thesis
      using collate_digits_same [of "a # d1" d2 r1 r2 lst] digit_nonzero
      by (subst collate_prefix.simps) (auto simp: collate_tail_def Let_def case_prod_beta)
  qed
qed simp

subsection \<open>The order as a comparison of keys\<close>

text \<open>The key of a string: per character its rank, per number its length and its value.\<close>

definition rank :: "byte \<Rightarrow> nat" where
  "rank c = (if c = ch CHR ''*'' then 256 else unat c)"

function collate_key :: "byte list \<Rightarrow> nat list" where
  "collate_key [] = []"
| "collate_key (c # s) =
     (if c = 0 then []
      else if digit c then 48 # length (takeWhile digit (c # s)) # number (takeWhile digit (c # s)) #
        collate_key (dropWhile digit (c # s))
      else rank c # collate_key s)"
  by pat_completeness auto
termination
  by (relation "measure length") (auto simp: le_imp_less_Suc length_dropWhile_le)

declare collate_key.simps(2) [simp del]

lemma number_inj: "digits d \<Longrightarrow> digits e \<Longrightarrow> length d = length e \<Longrightarrow> number d = number e \<Longrightarrow> d = e"
proof (induction d arbitrary: e)
  case (Cons a d)
  then obtain b e' where e: "e = b # e'" by (cases e) auto
  let ?n = "(10::nat) ^ length d"
  have dg: "digit a" "digits d" "digit b" "digits e'" using Cons.prems e by (auto simp: digits_def)
  have eq: "(unat a - 48) * ?n + number d = (unat b - 48) * ?n + number e'" "length e' = length d"
    using Cons.prems e by simp_all
  have lt: "number d < ?n" "number e' < ?n" using number_less dg(2,4) eq(2) by metis+
  have "((unat a - 48) * ?n + number d) div ?n = unat a - 48" "((unat b - 48) * ?n + number e') div ?n = unat b - 48"
    using lt by simp_all
  then have "unat a - 48 = unat b - 48" using eq(1) by simp
  then have "a = b" using dg by (auto simp: digit_range word_unat_eq_iff)
  with eq Cons.IH [OF dg(2,4)] show ?case by (simp add: e)
qed simp

lemma digits_takeWhile [simp]: "digits (takeWhile digit s)"
  by (auto simp: digits_def dest: set_takeWhileD)

lemma head_dropWhile: "\<not> digit (head0 (dropWhile digit s))"
proof (cases "dropWhile digit s")
  case Nil
  show ?thesis unfolding Nil by simp
next
  case (Cons a t)
  with hd_dropWhile [of digit s] show ?thesis unfolding Cons by simp
qed

lemma last_digits: "digits d \<Longrightarrow> d \<noteq> [] \<Longrightarrow> digit (last d)"
  by (simp add: digits_def)

lemma byte_less: "unat (c :: byte) < 256"
proof -
  have "unat c < 2 ^ LENGTH(8)" by (rule unsigned_less)
  then show ?thesis by simp
qed

lemma rank_less: "rank c < rank d \<Longrightarrow> c \<noteq> ch CHR ''*'' \<and> (d = ch CHR ''*'' \<or> c < d)"
  using byte_less [of d] byte_less [of c] by (auto simp: rank_def word_less_nat_alt split: if_splits)

lemma rank_eq: "rank c = rank d \<Longrightarrow> c = d"
  using byte_less [of d] byte_less [of c] by (auto simp: rank_def word_unat_eq_iff split: if_splits)

lemma rank_digit: "digit c \<Longrightarrow> \<not> digit d \<Longrightarrow> (48 < rank d \<longleftrightarrow> d = ch CHR ''*'' \<or> c < d) \<and> (rank d < 48 \<longleftrightarrow> d \<noteq> ch CHR ''*'' \<and> d < c) \<and> rank d \<noteq> 48"
  by (auto simp: rank_def digit_range word_less_nat_alt)

lemma collate_differ:
  assumes "head0 s1 \<noteq> head0 s2" "\<not> digit l \<or> (\<not> digit (head0 s1) \<and> \<not> digit (head0 s2))"
    "\<not> (digit (head0 s1) \<and> digit (head0 s2))" "head0 s1 \<noteq> ch CHR ''*''" "head0 s2 = ch CHR ''*'' \<or> head0 s1 < head0 s2"
  shows "collate_tail (collate_prefix l s1 s2) = -1"
proof -
  have "collate_prefix l s1 s2 = Some (l, s1, s2)" using assms(1) by (subst collate_prefix.simps) simp
  moreover have "collate_digits l s1 s2 = (l, digit (head0 s1), digit (head0 s2))"
    using assms(3) by (subst collate_digits.simps) auto
  ultimately show ?thesis using assms by (auto simp: collate_tail_def Let_def)
qed

lemma collate_by_key:
  assumes "\<not> digit l \<or> (\<not> digit (head0 s1) \<and> \<not> digit (head0 s2))"
  shows "(ord_class.lexordp (collate_key s1) (collate_key s2) \<longrightarrow> collate_tail (collate_prefix l s1 s2) = -1) \<and>
    (collate_key s1 = collate_key s2 \<longrightarrow> collate_tail (collate_prefix l s1 s2) = 0)"
  using assms
proof (induction "length s1" arbitrary: l s1 s2 rule: less_induct)
  case less
  have z: "head0 s = 0 \<longleftrightarrow> collate_key s = []" for s
    by (cases s) (auto simp: collate_key.simps(2))
  consider "head0 s1 = 0" | "head0 s1 \<noteq> 0" "head0 s2 = 0" | c t1 d t2 where "s1 = c # t1" "s2 = d # t2" "c \<noteq> 0" "d \<noteq> 0"
    by (cases s1; cases s2) auto
  then show ?case
  proof cases
    case 1
    show ?thesis
    proof (cases "head0 s2 = 0")
      case True
      with 1 z [of s1] z [of s2] show ?thesis by (subst (1 2) collate_prefix.simps) (simp add: collate_tail_def)
    next
      case False
      with 1 less.prems collate_differ [of s1 s2 l] z [of s1] z [of s2] show ?thesis
        by (auto simp: word_neq_0_conv)
    qed
  next
    case 2
    with z [of s1] z [of s2] show ?thesis by auto
  next
    case 3
    note k = collate_key.simps(2) [of c t1] collate_key.simps(2) [of d t2]
    show ?thesis
    proof (cases "digit c \<and> digit d")
      case True
      define d1 r1 d2 r2 where "d1 = takeWhile digit s1" and "r1 = dropWhile digit s1"
        and "d2 = takeWhile digit s2" and "r2 = dropWhile digit s2"
      have e: "s1 = d1 @ r1" "s2 = d2 @ r2" "digits d1" "digits d2" "\<not> digit (head0 r1)" "\<not> digit (head0 r2)" "d1 \<noteq> []" "d2 \<noteq> []"
        using True 3 by (simp_all add: d1_def r1_def d2_def r2_def head_dropWhile del: takeWhile.simps dropWhile.simps) simp_all
      have key: "collate_key s1 = 48 # length d1 # number d1 # collate_key r1" "collate_key s2 = 48 # length d2 # number d2 # collate_key r2"
        using True 3 by (simp_all add: k d1_def r1_def d2_def r2_def)
      have same: ?thesis if "d1 = d2"
      proof -
        have "0 \<notin> set d1" using e(3) by (auto simp: digits_def)
        then have "collate_prefix l s1 s2 = collate_prefix (last d1) r1 r2"
          using collate_prefix_append [of d1 l r1 r2] e(1,2,7) that by simp
        moreover have "length r1 < length s1" using e(1,7) by simp
        ultimately show ?thesis using less.hyps [of r1 "last d1" r2] e(5,6) that by (simp add: key)
      qed
      consider "d1 = d2" | "length d1 < length d2" | "length d2 < length d1" | "length d1 = length d2" "number d1 < number d2"
        | "length d1 = length d2" "number d2 < number d1"
        using number_inj [OF e(3,4)] by fastforce
      then show ?thesis
        by cases (use collate_shorter [OF e(3,4,5), of l r2] collate_same [OF e(3-6), of l] same e(7)
          in \<open>auto simp: key simp flip: e(1,2)\<close>)
    next
      case False
      have l: "\<not> digit l \<or> (\<not> digit (head0 s1) \<and> \<not> digit (head0 s2))" by (rule less.prems)
      show ?thesis
      proof (cases "c = d")
        case True
        with False 3 have "collate_prefix l s1 s2 = collate_prefix c t1 t2" by (subst collate_prefix.simps) simp
        with less.hyps [of t1 c t2] 3 True False show ?thesis by (simp add: collate_key.simps(2))
      next
        case ne: False
        have r: "rank c < rank d \<or> rank d < rank c" using rank_eq ne by (metis linorder_neqE_nat)
        have "c \<noteq> ch CHR ''*'' \<and> (d = ch CHR ''*'' \<or> c < d)" if "ord_class.lexordp (collate_key s1) (collate_key s2)"
          using that False 3 ne rank_digit [of c d] rank_digit [of d c] rank_less [of c d] r digit_nonzero
          by (auto simp: k split: if_splits)
        moreover have "collate_key s1 \<noteq> collate_key s2"
          using False 3 ne rank_digit [of c d] rank_digit [of d c] rank_eq [of c d] by (auto simp: k split: if_splits)
        ultimately show ?thesis using collate_differ [OF _ l] False 3 ne by auto
      qed
    qed
  qed
qed

lemma collate_le_key: "qe_strcollate s1 s2 \<le> 0 \<longleftrightarrow> \<not> ord_class.lexordp (collate_key s2) (collate_key s1)"
proof -
  have k: "(ord_class.lexordp (collate_key a) (collate_key b) \<longrightarrow> qe_strcollate a b = -1) \<and> (collate_key a = collate_key b \<longrightarrow> qe_strcollate a b = 0)" for a b
    using collate_by_key [of 0 a b] by (simp add: strcollate_tail)
  consider "ord_class.lexordp (collate_key s1) (collate_key s2)" | "collate_key s1 = collate_key s2" | "ord_class.lexordp (collate_key s2) (collate_key s1)"
    using lexordp_linear by blast
  then show ?thesis
    by cases (use k [of s1 s2] k [of s2 s1] strcollate_antisym [of s1 s2] lexordp_antisym [of "collate_key s1" "collate_key s2"]
      lexordp_irreflexive' [of "collate_key s1"] in auto)
qed

interpretation collate: compare_contract qe_strcollate
proof
  show "qe_strcollate a b > 0 \<longleftrightarrow> qe_strcollate b a < 0" for a b
    using strcollate_antisym [of a b] by linarith
  show "qe_strcollate a b \<le> 0 \<Longrightarrow> qe_strcollate b c \<le> 0 \<Longrightarrow> qe_strcollate a c \<le> 0" for a b c
    unfolding collate_le_key by (metis lexordp_linear lexordp_trans)
qed



section \<open>Identifiers\<close>

lemma identifier_loop_take:
  "1 \<le> sz \<Longrightarrow> int (length buf) + 1 \<le> sz \<Longrightarrow>
    identifier_loop f sz cs buf k =
      (take (nat sz - 1) (buf @ map (\<lambda>c. ucast (f c)) (takeWhile qe_isalnum_u cs)),
       k + length (takeWhile qe_isalnum_u cs))"
proof (induction f sz cs buf k rule: identifier_loop.induct)
  case (2 f sz c cs buf k)
  show ?case
  proof (cases "int (length buf) + 1 < sz")
    case True
    with 2 show ?thesis by simp
  next
    case False
    then have "nat sz - 1 = length buf" using 2 by linarith
    with 2 False show ?thesis by simp
  qed
qed auto

text \<open>Identifier extraction: the identifier is stored cut to the size of the array and the
  terminating zero always fits, except in the lower-case variant with a one-byte array, which
  stores a character and no terminator; the return value counts all characters of the
  identifier, also those that were cut.\<close>

theorem identifier_terminated:
  fixes str :: "char32 list"
  assumes "1 \<le> sz"
    and ident: "ident = takeWhile qe_isalnum_u (drop i (take n str))"
  shows "ustr_get_identifier sz c str i n = (take (nat sz - 1) (ucast c # map ucast ident), True, length ident) \<and>
    (2 \<le> sz \<longrightarrow> ustr_get_identifier_lc sz c str i n =
      (take (nat sz - 1) (map (\<lambda>c. ucast (qe_tolower c)) (c # ident)), True, length ident)) \<and>
    fst (snd (ustr_get_identifier_lc 1 c str i n)) = False"
proof -
  have t: "int (length (take (nat sz - 1) xs)) < sz" for xs :: "byte list" using assms(1) by (simp; arith)
  have one: "identifier_loop qe_tolower 1 cs [b] k = ([b], k')" if "k' = k + length (takeWhile qe_isalnum_u cs)" for cs b k k'
    using that by (induction cs arbitrary: k) auto
  show ?thesis
  proof (intro conjI impI)
    show "ustr_get_identifier sz c str i n = (take (nat sz - 1) (ucast c # map ucast ident), True, length ident)"
    proof (cases "sz = 1")
      case True
      then show ?thesis using identifier_loop_take [of sz "[]" "\<lambda>c. c" _ 0]
        by (simp add: ustr_get_identifier_def ident)
    next
      case False
      then show ?thesis using assms identifier_loop_take [of sz "[ucast c]" "\<lambda>c. c" _ 0] t
        by (simp add: ustr_get_identifier_def)
    qed
  next
    assume "2 \<le> sz"
    then show "ustr_get_identifier_lc sz c str i n =
      (take (nat sz - 1) (map (\<lambda>c. ucast (qe_tolower c)) (c # ident)), True, length ident)"
      using identifier_loop_take [of sz "[ucast (qe_tolower c)]" qe_tolower _ 0] t
      by (simp add: ustr_get_identifier_lc_def ident)
  next
    show "fst (snd (ustr_get_identifier_lc 1 c str i n)) = False"
      by (simp add: ustr_get_identifier_lc_def one [OF refl])
  qed
qed

theorem identifier_terminated_witness:
  "ustr_get_identifier 3 0x69 [0x69, 0x66, 0x5F, 0x31, 0x28] 1 5 = ([0x69, 0x66], True, 3)"
  using identifier_terminated [where sz = 3 and i = 1 and n = 5 and str = "[0x69, 0x66, 0x5F, 0x31, 0x28]" and c = "0x69", OF _ refl]
  by (simp add: qe_isalnum_u_def qe_digit_value_def qe_digit_value_table_def nth_append)

end
