(* ===== verification/Paths.thy ===== *)
theory Paths
  imports StringLaws
begin

text \<open>
  File names (\<^verbatim>\<open>src/cutils.c\<close>, \<^verbatim>\<open>src/util.c\<close>): components of a path, normalisation,
  user paths, extensions and the interpreter named by a script. The configuration without
  \<^verbatim>\<open>CONFIG_WIN32\<close> is modelled. Queries of the file system are not modelled; the
  value of \<^verbatim>\<open>HOME\<close> is an argument.
\<close>

abbreviation SLASH :: byte where "SLASH \<equiv> ch CHR ''/''"
abbreviation DOT :: byte where "DOT \<equiv> ch CHR ''.''"
abbreviation COLON :: byte where "COLON \<equiv> ch CHR '':''"

definition MAX_FILENAME_SIZE :: int where "MAX_FILENAME_SIZE = 1024"

section \<open>Parts of a path (cutils.c)\<close>

fun basename_loop :: "byte list \<Rightarrow> nat \<Rightarrow> nat \<Rightarrow> nat" where
  "basename_loop [] i base = base"
| "basename_loop (c # p) i base = basename_loop p (Suc i) (if c = SLASH then i + 1 else base)"

definition get_basename_offset :: "byte list \<Rightarrow> nat" where
  "get_basename_offset path = basename_loop path 0 0"

definition get_basename :: "byte list \<Rightarrow> byte list" where
  "get_basename path = drop (get_basename_offset path) path"

fun extension_loop :: "byte list \<Rightarrow> nat \<Rightarrow> nat \<Rightarrow> nat" where
  "extension_loop [] i ext = (if ext = 0 then i else ext)"
| "extension_loop (c # p) i ext = extension_loop p (Suc i) (if c = DOT then i else ext)"

definition get_extension_offset :: "byte list \<Rightarrow> nat" where
  "get_extension_offset path =
     (let base = get_basename path; rest = dropWhile (\<lambda>c. c = DOT) base
      in extension_loop rest (length path - length rest) 0)"

definition get_extension :: "byte list \<Rightarrow> byte list" where
  "get_extension path = drop (get_extension_offset path) path"

definition strip_extension :: "byte list \<Rightarrow> byte list" where
  "strip_extension path = take (get_extension_offset path) path"

definition get_dirname :: "byte list \<Rightarrow> int \<Rightarrow> byte list option \<Rightarrow> byte list" where
  "get_dirname dest sz file =
     (if sz > 0 then
        (case file of
           None \<Rightarrow> []
         | Some f \<Rightarrow>
             let dest = pstrcpy dest sz f;
                 i = get_basename_offset dest;
                 i = (if i > 1 \<and> char_at dest (i - 1) \<noteq> COLON \<and> char_at dest (i - 2) \<noteq> COLON then i - 1 else i)
             in if i = 0 then [DOT] else take i dest)
      else dest)"

section \<open>Building and splitting paths (util.c)\<close>

definition remove_slash :: "byte list \<Rightarrow> byte list \<times> nat" where
  "remove_slash buf =
     (let len = length buf
      in if len > 1 \<and> char_at buf (len - 1) = SLASH then (take (len - 1) buf, len - 1) else (buf, len))"

definition append_slash :: "byte list \<Rightarrow> int \<Rightarrow> byte list \<times> int" where
  "append_slash buf buf_size =
     (let len = strnlen buf buf_size
      in if len > 0 \<and> char_at buf (nat len - 1) \<noteq> SLASH \<and> len + 1 < buf_size
         then (take (nat len) buf @ [SLASH], len + 1) else (buf, len))"

definition makepath :: "byte list \<Rightarrow> int \<Rightarrow> byte list \<Rightarrow> byte list \<Rightarrow> byte list" where
  "makepath buf buf_size path filename =
     (let buf = pstrcpy buf buf_size path; buf = fst (append_slash buf buf_size)
      in pstrcat buf buf_size filename)"

definition splitpath :: "byte list \<Rightarrow> int \<Rightarrow> byte list \<Rightarrow> int \<Rightarrow> byte list \<Rightarrow> byte list \<times> byte list" where
  "splitpath dirname dirname_size filename filename_size pathname =
     (let offset = get_basename_offset pathname
      in (pstrncpy dirname dirname_size pathname (int offset),
          pstrcpy filename filename_size (drop offset pathname)))"

definition is_filepattern :: "byte list \<Rightarrow> bool" where
  "is_filepattern filespec =
     (let pos = length (takeWhile (\<lambda>c. c \<noteq> ch CHR ''*'' \<and> c \<noteq> ch CHR ''?'') filespec)
      in char_at filespec pos \<noteq> 0)"

section \<open>Normalisation (util.c)\<close>

definition strrchr :: "byte list \<Rightarrow> byte \<Rightarrow> nat option" where
  "strrchr s c = (case dropWhile (\<lambda>x. x \<noteq> c) (rev s) of [] \<Rightarrow> None | _ # r \<Rightarrow> Some (length r))"

definition canon_copy :: "bool \<Rightarrow> int \<Rightarrow> byte list \<Rightarrow> byte list \<Rightarrow> byte list" where
  "canon_copy abs_path buf_size buf file =
     pstrcat (if buf \<noteq> [] \<or> abs_path then pstrcat buf buf_size [SLASH] else buf) buf_size file"

definition canon_step :: "bool \<Rightarrow> int \<Rightarrow> byte list \<Rightarrow> byte list \<Rightarrow> byte list" where
  "canon_step abs_path buf_size buf file =
     (if file = [] then buf
      else if file = [DOT] then buf
      else if file = [DOT, DOT] then
        (if buf = [] then (if \<not> abs_path then canon_copy abs_path buf_size buf file else buf)
         else case strrchr buf SLASH of
                None \<Rightarrow> canon_copy abs_path buf_size buf file
              | Some q1 \<Rightarrow>
                  if drop (Suc q1) buf = [DOT, DOT] then canon_copy abs_path buf_size buf file
                  else take q1 buf)
      else canon_copy abs_path buf_size buf file)"

function canon_loop :: "bool \<Rightarrow> int \<Rightarrow> byte list \<Rightarrow> byte list \<Rightarrow> byte list" where
  "canon_loop abs_path buf_size buf p =
     (let file = take (nat MAX_FILENAME_SIZE - 1) (takeWhile (\<lambda>c. c \<noteq> SLASH) p);
          buf' = canon_step abs_path buf_size buf file
      in case dropWhile (\<lambda>c. c \<noteq> SLASH) p of
           [] \<Rightarrow> buf'
         | _ # p' \<Rightarrow> canon_loop abs_path buf_size buf' p')"
  by pat_completeness auto
termination
proof (relation "measure (\<lambda>(a, n, buf, p). length p)")
  fix a :: bool and n :: int and buf buf' p f p' :: "byte list" and c
  assume "dropWhile (\<lambda>c. c \<noteq> SLASH) p = c # p'"
  then have "length (c # p') \<le> length p" by (metis length_dropWhile_le)
  then show "((a, n, buf', p'), (a, n, buf, p)) \<in> measure (\<lambda>(a, n, buf, p). length p)" by simp
qed simp

declare canon_loop.simps [simp del]

definition canonicalize_path1 :: "int \<Rightarrow> byte list \<Rightarrow> byte list" where
  "canonicalize_path1 buf_size path =
     (let abs_path = (head0 path = SLASH);
          buf = canon_loop abs_path buf_size [] path
      in if buf = [] then pstrcat buf buf_size (if abs_path then [SLASH] else [DOT]) else buf)"

definition canonicalize_path :: "byte list \<Rightarrow> int \<Rightarrow> byte list \<Rightarrow> byte list" where
  "canonicalize_path buf buf_size path =
     (let n = length (takeWhile (\<lambda>c. c \<noteq> COLON) path)
      in if n < length path then
           (if n = 1 then
              let p = drop n path; c1 = char_at p 1
              in char_at p 0 # (if c1 = 0 then [] else c1 # canonicalize_path1 (buf_size - 2) p)
            else pstrcpy buf buf_size path)
         else canonicalize_path1 buf_size path)"

section \<open>User paths and reduced names (util.c)\<close>

definition make_user_path :: "byte list option \<Rightarrow> byte list \<Rightarrow> int \<Rightarrow> byte list \<Rightarrow> byte list" where
  "make_user_path HOME buf buf_size path =
     (case HOME of
        Some homedir \<Rightarrow>
          let len = (if homedir \<noteq> [] \<and> char_at homedir (length homedir - 1) = SLASH
                     then length homedir - 1 else length homedir)
          in if take len path = take len homedir \<and> (char_at path len = SLASH \<or> char_at path len = 0)
             then (if buf_size > 1 then ch CHR ''~'' # pstrcpy [] (buf_size - 1) (drop len path)
                   else if buf_size > 0 then [] else buf)
             else pstrcpy buf buf_size path
      | None \<Rightarrow> pstrcpy buf buf_size path)"

function strip_numeric :: "byte list \<Rightarrow> byte list" where
  "strip_numeric d =
     (let e = get_extension_offset d
      in if char_at d e \<noteq> DOT then d
         else if \<not> digit (char_at d (e + 1)) then d
         else if length (takeWhile (\<lambda>c. c \<noteq> DOT) d) = e then d
         else if \<not> digit (char_at d (e + 2)) then d
         else strip_numeric (take e d))"
  by pat_completeness auto
termination
  by (relation "measure length") (auto simp: char_at_def split: if_splits)

declare strip_numeric.simps [simp del]

definition reduce_filename :: "byte list \<Rightarrow> int \<Rightarrow> byte list \<Rightarrow> byte list" where
  "reduce_filename dest sz filename =
     (let boff = get_basename_offset filename; base = drop boff filename;
          dest = pstrncpy dest sz filename (int boff);
          base = (if char_at base 0 = DOT \<and> char_at base 1 = ch CHR ''#'' \<and> char_at base 2 \<noteq> 0
                  then drop 2 base else base);
          dest = pstrcat dest sz base;
          doff = get_basename_offset dest;
          dbase = strip_numeric (drop doff dest);
          ext = get_extension_offset dbase;
          dbase = (if char_at dbase ext = DOT \<and> head0 dbase \<noteq> DOT \<and> ext \<le> 8
                      \<and> list_all (\<lambda>c. c AND 0x80 = 0 \<and> \<not> qe_islower (ucast c)) dbase \<and> length dbase \<le> 12
                   then qe_strtolower dbase (sz - int doff) dbase else dbase);
          n = length dbase;
          dbase = (if n > 1 \<and> (char_at dbase (n - 1) = ch CHR ''~'' \<or> char_at dbase (n - 1) = ch CHR ''#'')
                   then take (n - 1) dbase else dbase)
      in take doff dest @ dbase)"

section \<open>Extensions and interpreters (util.c)\<close>

text \<open>The loop over the list of extensions: \<open>w\<close> is the current word read so far and \<open>fst\<close>
  whether it is the first one.\<close>

definition ext_matches :: "byte list \<Rightarrow> byte list \<Rightarrow> bool" where
  "ext_matches base w =
     (let len = length base; len1 = length w
      in len > len1 \<and> char_at base (len - len1 - 1) = DOT \<and> qe_memicmp (drop (len - len1) base) w len1 = 0)"

fun extension_list_loop :: "byte list \<Rightarrow> byte list \<Rightarrow> byte list \<Rightarrow> bool \<Rightarrow> bool" where
  "extension_list_loop base [] w first = (w \<noteq> [] \<and> ext_matches base w)"
| "extension_list_loop base (c # p) w first =
     (if c = BAR then
        ((w \<noteq> [] \<or> \<not> first) \<and> ext_matches base w) \<or> extension_list_loop base p [] False
      else extension_list_loop base p (w @ [c]) first)"

definition match_extension :: "byte list \<Rightarrow> byte list option \<Rightarrow> bool" where
  "match_extension filename extlist =
     (case extlist of
        None \<Rightarrow> False
      | Some l \<Rightarrow>
          let base = dropWhile (\<lambda>c. c = DOT) (get_basename filename)
          in if base = [] then False else extension_list_loop base l [] True)"

text \<open>Here the character is passed as a plain \<^verbatim>\<open>char\<close>, signed on the modelled targets.\<close>

definition blank :: "byte \<Rightarrow> bool" where "blank c = qe_isblank (scast c)"
definition space :: "byte \<Rightarrow> bool" where "space c = qe_isspace (scast c)"

text \<open>The words after \<^verbatim>\<open>env\<close>: options are skipped, the first other word decides.\<close>

function env_loop :: "byte list \<Rightarrow> byte list \<Rightarrow> bool" where
  "env_loop l p =
     (if p = [] \<or> head0 p = 10 then False
      else let p1 = dropWhile blank p; w = takeWhile (\<lambda>c. \<not> space c) p1
           in if head0 p1 \<noteq> ch CHR ''-'' then memfind (Some l) w (length w)
              else env_loop l (drop (length w) p1))"
  by pat_completeness auto
termination
proof (relation "measure (\<lambda>(l, p). length p)")
  fix l p p1 w
  assume p1: "p1 = dropWhile blank p" and w: "w = takeWhile (\<lambda>c. \<not> space c) p1"
    and "\<not> head0 p1 \<noteq> ch CHR ''-''"
  then have "head0 p1 = ch CHR ''-''" by blast
  then obtain r where r: "p1 = ch CHR ''-'' # r" by (cases "p1 :: byte list") simp_all
  have "\<not> space (ch CHR ''-'')" by (simp add: space_def qe_isspace_def)
  then have "w \<noteq> []" unfolding w r by simp
  moreover have "length p1 \<le> length p" unfolding p1 by (rule length_dropWhile_le)
  moreover have "0 < length p1" by (simp add: r)
  ultimately show "((l, drop (length w) p1), (l, p)) \<in> measure (\<lambda>(l, p). length p)"
    by (cases w; cases p1) auto
qed simp

declare env_loop.simps [simp del]

definition match_shell_handler :: "byte list \<Rightarrow> byte list option \<Rightarrow> bool" where
  "match_shell_handler p list =
     (case list of
        None \<Rightarrow> False
      | Some l \<Rightarrow>
          if char_at p 0 = ch CHR ''#'' \<and> char_at p 1 = ch CHR ''!'' then
            let p1 = dropWhile blank (drop 2 p);
                w = takeWhile (\<lambda>c. \<not> space c) p1;
                base = get_basename w
            in if memfind (Some l) base (length base) then True
               else if base = cstr ''env'' then env_loop l (drop (length w) p1)
               else False
          else False)"

section \<open>Splitting and joining\<close>

lemma basename_loop_append:
  "basename_loop (p @ q) i base = basename_loop q (i + length p) (basename_loop p i base)"
  by (induction p arbitrary: i base) simp_all

lemma basename_loop_none: "SLASH \<notin> set p \<Longrightarrow> basename_loop p i base = base"
  by (induction p arbitrary: i) auto

lemma basename_of_split:
  assumes "SLASH \<notin> set b" "d = [] \<or> last d = SLASH"
  shows "get_basename_offset (d @ b) = length d"
proof (cases d rule: rev_cases)
  case Nil
  with assms show ?thesis by (simp add: get_basename_offset_def basename_loop_none)
next
  case (snoc d' c)
  with assms show ?thesis by (simp add: get_basename_offset_def basename_loop_append basename_loop_none)
qed

lemma path_splits:
  obtains d b where "p = d @ b" "SLASH \<notin> set b" "d = [] \<or> last d = SLASH" "get_basename_offset p = length d"
proof -
  define d b where "d = rev (dropWhile (\<lambda>c. c \<noteq> SLASH) (rev p))" and "b = rev (takeWhile (\<lambda>c. c \<noteq> SLASH) (rev p))"
  have p: "p = d @ b" unfolding d_def b_def by (metis rev_append rev_rev_ident takeWhile_dropWhile_id)
  have b: "SLASH \<notin> set b" unfolding b_def using set_takeWhileD by fastforce
  have d: "d = [] \<or> last d = SLASH"
    unfolding d_def using hd_dropWhile [of "\<lambda>c. c \<noteq> SLASH" "rev p"] by (auto simp: last_rev)
  show thesis using that [OF p b d] basename_of_split [OF b d] p by simp
qed

text \<open>C34. Splitting a path, with room in both arrays, gives a directory part and a file name that
  joined give the path back; the file name has no slash, the directory part is empty or ends
  with one; and when it is not empty \<^verbatim>\<open>makepath\<close> rebuilds the path from the two.\<close>

theorem splitpath_makepath:
  assumes "0 \<notin> set p" "int (length p) < n1" "int (length p) < n2" "int (length p) < n3"
  shows "case splitpath db n1 fb n2 p of (dir, base) \<Rightarrow>
    dir @ base = p \<and> SLASH \<notin> set base \<and> (dir = [] \<or> last dir = SLASH) \<and>
    (dir \<noteq> [] \<longrightarrow> makepath mb n3 dir base = p)"
proof -
  obtain d b where p: "p = d @ b" "SLASH \<notin> set b" "d = [] \<or> last d = SLASH" "get_basename_offset p = length d"
    by (rule path_splits)
  have z: "0 \<notin> set d" "0 \<notin> set b" using assms(1) p(1) by auto
  have s: "splitpath db n1 fb n2 p = (d, b)"
    using pstrncpy_take [of n1 p "int (length d)" db] pstrcpy_take [of n2 b fb] assms z p(1)
    unfolding splitpath_def Let_def p(4) by simp
  have "makepath mb n3 d b = p" if "d \<noteq> []"
  proof -
    have c: "pstrcpy mb n3 d = d" using pstrcpy_take [of n3 d mb] z assms(4) p(1) by simp
    have "char_at d (length d - 1) = SLASH" using that p(3) by (simp add: char_at_def last_conv_nth)
    then have "fst (append_slash d n3) = d"
      using assms(4) p(1) by (simp add: append_slash_def strnlen_def Let_def)
    with c show ?thesis
      using pstrcat_take [of d n3 b] z assms(4) p(1) by (simp add: makepath_def Let_def)
  qed
  with s p show ?thesis by simp
qed

theorem splitpath_makepath_witness:
  "case splitpath [] 20 [] 20 (cstr ''/usr/lib/x'') of (dir, base) \<Rightarrow>
    dir @ base = cstr ''/usr/lib/x'' \<and> SLASH \<notin> set base \<and> (dir = [] \<or> last dir = SLASH) \<and>
    (dir \<noteq> [] \<longrightarrow> makepath [] 20 dir base = cstr ''/usr/lib/x'')"
  using splitpath_makepath [of "cstr ''/usr/lib/x''" 20 20 20 "[]" "[]" "[]"] by (simp add: cstr_def)

text \<open>\<^verbatim>\<open>get_dirname\<close> of a name without directory stores a dot and the terminating zero
  without testing the room for them: with an array of one byte the string stored is one byte
  too long.\<close>

theorem get_dirname_overflow:
  "get_dirname dest 1 (Some f) = [DOT] \<and> \<not> int (length (get_dirname dest 1 (Some f))) < 1"
proof -
  have "pstrcpy dest 1 f = []" by (simp add: pstrcpy_def)
  then show ?thesis by (simp add: get_dirname_def get_basename_offset_def)
qed

section \<open>Normal forms\<close>

fun path_parts :: "byte list \<Rightarrow> byte list list" where
  "path_parts [] = [[]]"
| "path_parts (c # p) =
     (if c = SLASH then [] # path_parts p
      else case path_parts p of [] \<Rightarrow> [[c]] | f # fs \<Rightarrow> (c # f) # fs)"

text \<open>What a path means: the walk it describes from the root.\<close>

definition walk_step :: "byte list list \<Rightarrow> byte list \<Rightarrow> byte list list" where
  "walk_step st f =
     (if f = [] \<or> f = [DOT] then st else if f = [DOT, DOT] then butlast st else st @ [f])"

definition walk :: "byte list \<Rightarrow> byte list list" where
  "walk p = foldl walk_step [] (path_parts p)"

definition render :: "byte list list \<Rightarrow> byte list" where
  "render st = concat (map (\<lambda>f. SLASH # f) st)"

definition good_part :: "byte list \<Rightarrow> bool" where
  "good_part f \<longleftrightarrow> f \<noteq> [] \<and> f \<noteq> [DOT] \<and> f \<noteq> [DOT, DOT] \<and> SLASH \<notin> set f \<and> 0 \<notin> set f"

lemma render_simps [simp]: "render [] = []" "render (st @ [f]) = render st @ SLASH # f"
  by (simp_all add: render_def)

lemma render_Nil [simp]: "render st = [] \<longleftrightarrow> st = []"
  by (simp add: render_def)

lemma path_parts_split:
  "path_parts p = takeWhile (\<lambda>c. c \<noteq> SLASH) p #
     (case dropWhile (\<lambda>c. c \<noteq> SLASH) p of [] \<Rightarrow> [] | _ # p' \<Rightarrow> path_parts p')"
  by (induction p) auto

lemma walk_step_good:
  "list_all good_part st \<Longrightarrow> SLASH \<notin> set f \<Longrightarrow> 0 \<notin> set f \<Longrightarrow> list_all good_part (walk_step st f)"
  by (auto simp: walk_step_def good_part_def list_all_iff dest: in_set_butlastD)

lemma strrchr_last: "c \<notin> set b \<Longrightarrow> strrchr (a @ c # b) c = Some (length a)"
  using dropWhile_eq_Nil_conv [of "\<lambda>x. x \<noteq> c" "rev b"] by (simp add: strrchr_def dropWhile_append)

lemma canon_copy_room:
  assumes "int (length buf + 1 + length f) < bs" "0 \<notin> set f"
  shows "canon_copy True bs buf f = buf @ SLASH # f"
  using assms by (simp add: canon_copy_def pstrcat_take)

lemma canon_step_walk:
  assumes "list_all good_part st" "SLASH \<notin> set f" "0 \<notin> set f" "int (length (render st) + 1 + length f) < bs"
  shows "canon_step True bs (render st) f = render (walk_step st f)"
proof (cases "f = [DOT, DOT]")
  case True
  show ?thesis
  proof (cases st rule: rev_cases)
    case (snoc st' g)
    with assms(1) have "SLASH \<notin> set g" "g \<noteq> [DOT, DOT]" by (auto simp: good_part_def)
    with snoc True strrchr_last [of SLASH g "render st'"] show ?thesis
      by (simp add: canon_step_def walk_step_def)
  qed (simp add: True canon_step_def walk_step_def)
next
  case False
  with canon_copy_room [OF assms(4,3)] show ?thesis by (simp add: canon_step_def walk_step_def)
qed

lemma render_step_length: "length (render (walk_step st f)) \<le> length (render st) + 1 + length f"
  by (cases st rule: rev_cases) (auto simp: walk_step_def render_def)

lemma canon_loop_walk:
  assumes "list_all good_part st" "0 \<notin> set p" "int (length (render st) + 1 + length p) < bs"
    "\<forall>f \<in> set (path_parts p). int (length f) < MAX_FILENAME_SIZE"
  shows "canon_loop True bs (render st) p = render (foldl walk_step st (path_parts p))"
  using assms
proof (induction "length p" arbitrary: p st rule: less_induct)
  case less
  define f where "f = takeWhile (\<lambda>c. c \<noteq> SLASH) p"
  have pd: "p = f @ dropWhile (\<lambda>c. c \<noteq> SLASH) p" by (simp add: f_def)
  have f: "SLASH \<notin> set f" "0 \<notin> set f" "length f \<le> length p" "int (length f) < MAX_FILENAME_SIZE"
    using less.prems(2,4) set_takeWhileD [of _ "\<lambda>c. c \<noteq> SLASH" p] path_parts_split [of p]
    by (auto simp: f_def length_takeWhile_le)
  have tk: "take (nat MAX_FILENAME_SIZE - 1) f = f" using f(4) by (simp add: MAX_FILENAME_SIZE_def)
  have st: "canon_step True bs (render st) f = render (walk_step st f)"
    using canon_step_walk [OF less.prems(1) f(1,2)] less.prems(3) f(3) by simp
  show ?case
  proof (cases "dropWhile (\<lambda>c. c \<noteq> SLASH) p")
    case Nil
    show ?thesis
      unfolding canon_loop.simps [of True bs _ p] path_parts_split [of p] f_def [symmetric] Let_def tk st Nil by simp
  next
    case (Cons c p')
    have l: "length p = length f + Suc (length p')" using pd Cons by (metis length_append length_Cons)
    have "canon_loop True bs (render (walk_step st f)) p' = render (foldl walk_step (walk_step st f) (path_parts p'))"
    proof (rule less.hyps)
      show "0 \<notin> set p'" using less.prems(2) pd Cons by (metis Un_iff list.set_intros(2) set_append)
      show "int (length (render (walk_step st f)) + 1 + length p') < bs"
        using render_step_length [of st f] less.prems(3) l by linarith
      show "\<forall>f \<in> set (path_parts p'). int (length f) < MAX_FILENAME_SIZE"
        using less.prems(4) path_parts_split [of p] Cons by simp
    qed (use l walk_step_good [OF less.prems(1) f(1,2)] in simp_all)
    then show ?thesis
      unfolding canon_loop.simps [of True bs _ p] path_parts_split [of p] f_def [symmetric] Let_def tk st Cons by simp
  qed
qed

definition normal_path :: "byte list list \<Rightarrow> byte list" where
  "normal_path st = (if st = [] then [SLASH] else render st)"

lemma canonicalize_walk:
  assumes "0 \<notin> set p" "COLON \<notin> set p" "head0 p = SLASH" "int (length p) + 1 < bs"
    "\<forall>f \<in> set (path_parts p). int (length f) < MAX_FILENAME_SIZE"
  shows "canonicalize_path buf bs p = normal_path (walk p)"
proof -
  have "\<forall>x \<in> set p. x \<noteq> COLON" using assms(2) by blast
  then have "length (takeWhile (\<lambda>c. c \<noteq> COLON) p) = length p" by (simp only: takeWhile_eq_all_conv [THEN iffD2])
  then have "canonicalize_path buf bs p = canonicalize_path1 bs p" by (simp add: canonicalize_path_def Let_def)
  moreover have "canon_loop True bs [] p = render (walk p)"
    using canon_loop_walk [of "[]" p bs] assms by (simp add: walk_def)
  moreover have "pstrcat [] bs [SLASH] = [SLASH]" using assms(4) by (simp add: pstrcat_take)
  ultimately show ?thesis using assms(3) by (simp add: canonicalize_path1_def normal_path_def)
qed

lemma path_parts_sub: "f \<in> set (path_parts p) \<Longrightarrow> set f \<subseteq> set p \<and> SLASH \<notin> set f"
proof (induction p arbitrary: f)
  case (Cons c p)
  obtain g gs where g: "path_parts p = g # gs" by (cases "path_parts p") (use path_parts_split [of p] in auto)
  from g Cons.prems consider "f = []" "c = SLASH" | "f = c # g" "c \<noteq> SLASH" | "f \<in> set (path_parts p)"
    by (auto split: if_splits)
  then show ?case using Cons.IH [of g] Cons.IH [of f] g by cases auto
qed simp

lemma walk_parts:
  "list_all good_part st \<Longrightarrow> \<forall>f \<in> set fs. SLASH \<notin> set f \<and> 0 \<notin> set f \<Longrightarrow>
    list_all good_part (foldl walk_step st fs) \<and> set (foldl walk_step st fs) \<subseteq> set st \<union> set fs"
proof (induction fs arbitrary: st)
  case (Cons f fs)
  have "set (walk_step st f) \<subseteq> set st \<union> {f}" by (auto simp: walk_step_def dest: in_set_butlastD)
  with Cons.IH [OF walk_step_good [of st f]] Cons.prems show ?case by auto
qed simp

lemma walk_length: "length (render (foldl walk_step st fs)) \<le> length (render st) + sum_list (map (\<lambda>f. Suc (length f)) fs)"
proof (induction fs arbitrary: st)
  case (Cons f fs)
  from Cons [of "walk_step st f"] render_step_length [of st f] show ?case by simp
qed simp

lemma path_parts_length: "sum_list (map (\<lambda>f. Suc (length f)) (path_parts p)) = Suc (length p)"
proof (induction p)
  case (Cons c p)
  then show ?case by (cases "path_parts p") auto
qed simp

lemma path_parts_render: "list_all good_part st \<Longrightarrow> path_parts (render st) = [] # st"
proof -
  have app: "SLASH \<notin> set f \<Longrightarrow> path_parts (f @ SLASH # p) = f # path_parts p" for f p
    using path_parts_split [of p] by (induction f) auto
  have one: "SLASH \<notin> set f \<Longrightarrow> path_parts f = [f]" for f by (induction f) auto
  show "list_all good_part st \<Longrightarrow> ?thesis"
  proof (induction st)
    case (Cons f st)
    then show ?case
      by (cases st) (auto simp: render_def good_part_def app [simplified] one [simplified])
  qed (simp add: render_def)
qed

lemma walk_render: "list_all good_part st \<Longrightarrow> foldl walk_step acc st = acc @ st"
  by (induction st arbitrary: acc) (auto simp: walk_step_def good_part_def)



text \<open>A path with a drive letter is not normalised but damaged: the two bytes copied in front
  are the colon and the character after it, not the letter and the colon.\<close>

theorem canonicalize_drive_loses_letter:
  "canonicalize_path [] 40 (cstr ''c:/x'') = cstr '':/:/x''"
  by code_simp

end
