(* ===== verification/OutBuf.thy ===== *)
theory OutBuf
  imports StringLaws
begin

text \<open>
  Output to a fixed array (\<^verbatim>\<open>buf_t\<close> of \<^verbatim>\<open>src/util.h\<close> and \<^verbatim>\<open>src/util.c\<close>) and the functions
  built on it: quoting, substitution, conversion to UTF-8. The array is the list of its bytes;
  \<open>bt_len\<close> is the length of the string in it, \<open>bt_pos\<close> the length the output would have
  had. A write through the null array of an empty buffer is the error value \<^verbatim>\<open>None\<close>.
\<close>

record buf_t =
  bt_buf :: "byte list"
  bt_size :: int
  bt_len :: nat
  bt_pos :: int

definition store :: "byte list \<Rightarrow> nat \<Rightarrow> byte list \<Rightarrow> byte list" where
  "store arr off xs = splice_at off (length xs) xs arr"

definition buf_init :: "byte list \<Rightarrow> int \<Rightarrow> buf_t" where
  "buf_init buf sz =
     (if sz > 0 then \<lparr>bt_buf = store buf 0 [0], bt_size = sz, bt_len = 0, bt_pos = 0\<rparr>
      else \<lparr>bt_buf = [], bt_size = 0, bt_len = 0, bt_pos = 0\<rparr>)"

definition buf_attach :: "byte list \<Rightarrow> int \<Rightarrow> nat \<Rightarrow> buf_t" where
  "buf_attach buf sz pos = \<lparr>bt_buf = buf, bt_size = sz, bt_len = pos, bt_pos = int pos\<rparr>"

definition buf_avail :: "buf_t \<Rightarrow> int" where
  "buf_avail bp = bt_size bp - bt_pos bp - 1"

text \<open>The string stored with its terminating zero.\<close>

definition put_at :: "buf_t \<Rightarrow> byte list \<Rightarrow> buf_t" where
  "put_at bp xs = bp\<lparr>bt_buf := store (bt_buf bp) (bt_len bp) (xs @ [0]), bt_len := bt_len bp + length xs\<rparr>"

definition buf_put_byte :: "buf_t \<Rightarrow> byte \<Rightarrow> buf_t \<times> int" where
  "buf_put_byte bp c =
     (let bp' = (if int (bt_len bp) < bt_size bp - 1 then put_at bp [c] else bp)
      in (bp'\<lparr>bt_pos := bt_pos bp + 1\<rparr>, bt_pos bp))"

definition buf_write :: "buf_t \<Rightarrow> byte list \<Rightarrow> buf_t \<times> int" where
  "buf_write bp src =
     (let (bp', n) =
        (if bt_pos bp < bt_size bp then
           let n = bt_size bp - bt_pos bp - 1; n = (if n > int (length src) then int (length src) else n)
           in (put_at bp (take (nat n) src), n)
         else (bp, 0))
      in (bp'\<lparr>bt_pos := bt_pos bp + int (length src)\<rparr>, n))"

definition buf_puts :: "buf_t \<Rightarrow> byte list \<Rightarrow> buf_t \<times> int" where
  "buf_puts bp str = buf_write bp str"

text \<open>\<^verbatim>\<open>buf_printf\<close> with the formatted text \<open>s\<close>: \<^verbatim>\<open>vsnprintf\<close> stores at most \<open>n - 1\<close> bytes of it
  and a zero.\<close>

definition buf_printf :: "buf_t \<Rightarrow> byte list \<Rightarrow> (buf_t \<times> int) option" where
  "buf_printf bp s =
     (if bt_size bp = 0 then None
      else let n = (if bt_pos bp < bt_size bp then bt_size bp - bt_pos bp else 1);
               arr = store (bt_buf bp) (bt_len bp) (take (nat n - 1) s @ [0]);
               len = int (bt_len bp) + int (length s);
               len = (if len \<ge> bt_size bp then (if bt_size bp - 1 < 0 then 0 else bt_size bp - 1) else len)
           in Some (bp\<lparr>bt_buf := arr, bt_len := nat len, bt_pos := bt_pos bp + int (length s)\<rparr>, int (length s)))"

definition buf_putc_utf8 :: "buf_t \<Rightarrow> char32 \<Rightarrow> buf_t \<times> int" where
  "buf_putc_utf8 bp c =
     (if c < 0x80 then
        (let pos = bt_pos bp + 1
         in if pos < bt_size bp then ((put_at bp [ucast c])\<lparr>bt_pos := pos\<rparr>, 1)
            else (bp\<lparr>bt_pos := pos\<rparr>, 0))
      else
        (let buf = utf8_encode c; len = int (length buf)
         in if bt_pos bp + len < bt_size bp
            then ((put_at bp buf)\<lparr>bt_pos := bt_pos bp + len\<rparr>, len)
            else (bp\<lparr>bt_pos := bt_pos bp + len\<rparr>, 0)))"

section \<open>Functions built on it\<close>

definition char32_to_utf8 :: "byte list \<Rightarrow> int \<Rightarrow> char32 list \<Rightarrow> byte list \<times> int" where
  "char32_to_utf8 dest dest_length src =
     (let out = foldl (\<lambda>bp c. fst (buf_putc_utf8 bp c)) (buf_init dest dest_length) src
      in (bt_buf out, bt_pos out))"

definition utf8_get_word :: "byte list \<Rightarrow> int \<Rightarrow> char32 \<Rightarrow> char32 list \<Rightarrow> nat \<Rightarrow> nat \<Rightarrow> byte list \<times> nat" where
  "utf8_get_word buf buf_size c str i n =
     (let w = takeWhile qe_isword (drop i (take n str));
          out = foldl (\<lambda>bp c. fst (buf_putc_utf8 bp c)) (buf_init buf buf_size) (c # w)
      in (bt_buf out, length w))"

definition hex_digit :: "nat \<Rightarrow> byte" where
  "hex_digit d = (if d < 10 then of_nat (48 + d) else of_nat (55 + d))"

definition quote_text :: "byte \<Rightarrow> byte list" where
  "quote_text c = [ch (CHR 0x5C), c]"

definition buf_encode_byte :: "buf_t \<Rightarrow> byte \<Rightarrow> (buf_t \<times> int) option" where
  "buf_encode_byte out c =
     (if c = 10 then buf_printf out (quote_text (ch CHR ''n''))
      else if c = 13 then buf_printf out (quote_text (ch CHR ''r''))
      else if c = 9 then buf_printf out (quote_text (ch CHR ''t''))
      else if c = 12 then buf_printf out (quote_text (ch CHR ''f''))
      else if c = 8 then buf_printf out (quote_text (ch CHR ''b''))
      else if c = 27 then buf_printf out (quote_text (ch CHR ''E''))
      else if c = 39 then buf_printf out (quote_text 39)
      else if c = 34 then buf_printf out (quote_text 34)
      else if c = 92 then buf_printf out (quote_text 92)
      else if c < 32 then buf_printf out (quote_text (ch CHR ''^'') @ [(c + 64) AND 127])
      else if c < 127 then Some (buf_put_byte out c)
      else buf_printf out (quote_text (ch CHR ''0'') @
             [ch CHR ''x'', hex_digit (unat c div 16), hex_digit (unat c mod 16)]))"

definition byte_quote :: "byte list \<Rightarrow> int \<Rightarrow> byte \<Rightarrow> (byte list \<times> int) option" where
  "byte_quote dest sz c = map_option (\<lambda>(b, n). (bt_buf b, n)) (buf_encode_byte (buf_init dest sz) c)"

fun encode_bytes :: "buf_t \<Rightarrow> byte list \<Rightarrow> buf_t option" where
  "encode_bytes out [] = Some out"
| "encode_bytes out (c # s) =
     (case buf_encode_byte out c of None \<Rightarrow> None | Some (out', n) \<Rightarrow> encode_bytes out' s)"

definition strquote :: "byte list \<Rightarrow> int \<Rightarrow> byte list option \<Rightarrow> int \<Rightarrow> (byte list \<times> int) option" where
  "strquote dest sz str len =
     (let out = buf_init dest sz
      in case str of
           Some s \<Rightarrow>
             (let len = (if len < 0 then length s else nat len);
                  out = fst (buf_put_byte out (ch CHR ''\"''))
              in case encode_bytes out (take len s) of
                   None \<Rightarrow> None
                 | Some out \<Rightarrow> let out = fst (buf_put_byte out (ch CHR ''\"'')) in Some (bt_buf out, bt_pos out))
         | None \<Rightarrow> (case buf_puts out (cstr ''null'') of (out, n) \<Rightarrow> Some (bt_buf out, n)))"

function subst_loop :: "buf_t \<Rightarrow> byte list \<Rightarrow> byte list \<Rightarrow> byte list \<Rightarrow> buf_t" where
  "subst_loop out p s1 s2 =
     (if s1 = [] then out
      else case memstr p s1 of
             None \<Rightarrow> fst (buf_puts out p)
           | Some q \<Rightarrow>
               subst_loop (fst (buf_puts (fst (buf_write out (take q p))) s2)) (drop (q + length s1) p) s1 s2)"
  by pat_completeness auto
termination
proof (relation "measure (\<lambda>(out, p, s1, s2). length p)")
  fix out p s1 s2 q
  assume "s1 \<noteq> []" "memstr p s1 = Some q"
  then show "((fst (buf_puts (fst (buf_write out (take q p))) s2), drop (q + length s1) p, s1, s2), (out, p, s1, s2))
      \<in> measure (\<lambda>(out, p, s1, s2). length p)"
    using memstr_spec(1) [of p s1 q] by (cases s1) (auto simp: occurs_at_def)
qed simp

declare subst_loop.simps [simp del]

text \<open>An empty \<open>s1\<close> is found at every position without advancing: the loop does not end, which is
  the value \<^verbatim>\<open>None\<close>.\<close>

definition strsubst :: "byte list \<Rightarrow> int \<Rightarrow> byte list \<Rightarrow> byte list \<Rightarrow> byte list \<Rightarrow> (byte list \<times> int) option" where
  "strsubst buf buf_size from s1 s2 =
     (if s1 = [] then None
      else let out = subst_loop (buf_init buf buf_size) from s1 s2 in Some (bt_buf out, bt_pos out))"

section \<open>The invariant\<close>

text \<open>The array has its declared size, the string in it is terminated inside it, and as long as the
  output fits the two lengths agree.\<close>

definition buf_inv :: "buf_t \<Rightarrow> bool" where
  "buf_inv bp \<longleftrightarrow> int (length (bt_buf bp)) = bt_size bp \<and> int (bt_len bp) < bt_size bp \<and>
     int (bt_len bp) \<le> bt_pos bp \<and> (bt_pos bp < bt_size bp \<longrightarrow> bt_pos bp = int (bt_len bp)) \<and>
     bt_buf bp ! bt_len bp = 0"

definition bt_text :: "buf_t \<Rightarrow> byte list" where
  "bt_text bp = take (bt_len bp) (bt_buf bp)"

lemma store_simps:
  assumes "off + length xs \<le> length arr"
  shows "length (store arr off xs) = length arr" "take off (store arr off xs) = take off arr"
    "take (off + length xs) (store arr off xs) = take off arr @ xs"
    "i < length xs \<Longrightarrow> store arr off xs ! (off + i) = xs ! i"
proof -
  have l: "length (take off arr) = off" using assms by simp
  show "length (store arr off xs) = length arr" "take off (store arr off xs) = take off arr"
    "take (off + length xs) (store arr off xs) = take off arr @ xs"
    using assms l by (simp_all add: store_def splice_at_def)
  show "i < length xs \<Longrightarrow> store arr off xs ! (off + i) = xs ! i"
    unfolding store_def splice_at_def using l by (simp add: nth_append)
qed

lemma put_at_text:
  assumes "bt_len bp + length xs < length (bt_buf bp)"
  shows "bt_text (put_at bp xs) = bt_text bp @ xs" "length (bt_buf (put_at bp xs)) = length (bt_buf bp)"
    "bt_buf (put_at bp xs) ! (bt_len bp + length xs) = 0"
proof -
  have a: "bt_len bp + length (xs @ [0]) \<le> length (bt_buf bp)" using assms by simp
  from store_simps(1,3) [OF a] store_simps(4) [OF a, of "length xs"]
  show "length (bt_buf (put_at bp xs)) = length (bt_buf bp)" "bt_buf (put_at bp xs) ! (bt_len bp + length xs) = 0"
    by (simp_all add: put_at_def)
  have "take (bt_len bp + length xs) (store (bt_buf bp) (bt_len bp) (xs @ [0])) =
      take (bt_len bp + length xs) (take (bt_len bp + length (xs @ [0])) (store (bt_buf bp) (bt_len bp) (xs @ [0])))"
    by simp
  also have "\<dots> = take (bt_len bp) (bt_buf bp) @ xs"
    unfolding store_simps(3) [OF a] using assms by simp
  finally show "bt_text (put_at bp xs) = bt_text bp @ xs" by (simp add: bt_text_def put_at_def)
qed

lemma put_at_fields [simp]: "bt_size (put_at bp xs) = bt_size bp" "bt_len (put_at bp xs) = bt_len bp + length xs"
  by (simp_all add: put_at_def)

lemma put_inv:
  assumes "buf_inv bp" "bt_pos bp + int (length xs) < bt_size bp"
  shows "buf_inv ((put_at bp xs)\<lparr>bt_pos := bt_pos bp + int (length xs)\<rparr>) \<and> bt_text (put_at bp xs) = bt_text bp @ xs"
proof -
  have "bt_pos bp = int (bt_len bp)" using assms by (auto simp: buf_inv_def)
  with assms have "bt_len bp + length xs < length (bt_buf bp)" by (auto simp: buf_inv_def)
  from put_at_text [OF this] show ?thesis
    using assms \<open>bt_pos bp = int (bt_len bp)\<close> by (auto simp: buf_inv_def)
qed

lemma bt_text_pos [simp]: "bt_text (bp\<lparr>bt_pos := x\<rparr>) = bt_text bp"
  by (simp add: bt_text_def)

lemma skip_inv: "buf_inv bp \<Longrightarrow> 0 \<le> n \<Longrightarrow> bt_size bp \<le> bt_pos bp + n \<Longrightarrow> buf_inv (bp\<lparr>bt_pos := bt_pos bp + n\<rparr>)"
  by (auto simp: buf_inv_def)

lemma encode_ascii: "c < 0x80 \<Longrightarrow> utf8_encode c = [ucast c]"
  by (simp add: utf8_encode_def)

lemma putc_utf8_cases:
  "buf_putc_utf8 bp c =
     (let n = int (length (utf8_encode c))
      in if bt_pos bp + n < bt_size bp then ((put_at bp (utf8_encode c))\<lparr>bt_pos := bt_pos bp + n\<rparr>, n)
         else (bp\<lparr>bt_pos := bt_pos bp + n\<rparr>, 0))"
  by (simp add: buf_putc_utf8_def Let_def encode_ascii)

lemma putc_utf8_inv:
  assumes "buf_inv bp"
  shows "buf_inv (fst (buf_putc_utf8 bp c))"
    "bt_pos (fst (buf_putc_utf8 bp c)) = bt_pos bp + int (length (utf8_encode c))"
    "bt_size (fst (buf_putc_utf8 bp c)) = bt_size bp"
    "bt_text (fst (buf_putc_utf8 bp c)) =
       (if bt_pos bp + int (length (utf8_encode c)) < bt_size bp then bt_text bp @ utf8_encode c else bt_text bp)"
  using put_inv [OF assms, of "utf8_encode c"] skip_inv [OF assms, of "int (length (utf8_encode c))"]
  by (auto simp: putc_utf8_cases Let_def)

lemma buf_init_inv:
  assumes "0 < sz" "int (length arr) = sz"
  shows "buf_inv (buf_init arr sz)" "bt_text (buf_init arr sz) = []" "bt_pos (buf_init arr sz) = 0"
    "bt_size (buf_init arr sz) = sz"
  using assms store_simps [of 0 "[0]" arr] store_simps(4) [of 0 "[0]" arr 0]
  by (cases arr; simp add: buf_init_def buf_inv_def bt_text_def)+

lemma put_byte_inv:
  assumes "buf_inv bp"
  shows "buf_inv (fst (buf_put_byte bp c))"
    "bt_pos bp + 1 < bt_size bp \<Longrightarrow> bt_text (fst (buf_put_byte bp c)) = bt_text bp @ [c]"
proof -
  have p: "length (bt_buf (put_at bp [c])) = length (bt_buf bp)" "bt_buf (put_at bp [c]) ! (bt_len bp + 1) = 0"
    "bt_text (put_at bp [c]) = bt_text bp @ [c]" if "int (bt_len bp) < bt_size bp - 1"
    using put_at_text [of bp "[c]"] that assms by (auto simp: buf_inv_def)
  then show "buf_inv (fst (buf_put_byte bp c))"
    using assms by (auto simp: buf_put_byte_def Let_def buf_inv_def)
  show "bt_pos bp + 1 < bt_size bp \<Longrightarrow> bt_text (fst (buf_put_byte bp c)) = bt_text bp @ [c]"
    using p assms by (auto simp: buf_put_byte_def Let_def buf_inv_def)
qed

lemma write_inv:
  assumes "buf_inv bp"
  shows "buf_inv (fst (buf_write bp src))"
    "bt_text (fst (buf_write bp src)) = bt_text bp @ take (nat (bt_size bp - bt_pos bp - 1)) src"
proof -
  define xs where "xs = take (nat (bt_size bp - bt_pos bp - 1)) src"
  have x: "take (nat (if n > int (length src) then int (length src) else n)) src = take (nat n) src" for n
    by auto
  have "buf_inv (fst (buf_write bp src)) \<and> bt_text (fst (buf_write bp src)) = bt_text bp @ xs"
  proof (cases "bt_pos bp < bt_size bp")
    case True
    then have l: "bt_pos bp = int (bt_len bp)" "bt_len bp + length xs < length (bt_buf bp)"
      using assms by (auto simp: buf_inv_def xs_def)
    have w: "fst (buf_write bp src) = (put_at bp xs)\<lparr>bt_pos := bt_pos bp + int (length src)\<rparr>"
      using True by (simp add: buf_write_def Let_def xs_def)
    have "length xs = length src \<or> bt_size bp \<le> bt_pos bp + int (length src)"
      using True by (auto simp: xs_def)
    with put_at_text [OF l(2)] l assms show ?thesis
      unfolding w by (auto simp: buf_inv_def xs_def)
  next
    case False
    with skip_inv [OF assms, of "int (length src)"] show ?thesis by (simp add: buf_write_def xs_def)
  qed
  then show "buf_inv (fst (buf_write bp src))"
    "bt_text (fst (buf_write bp src)) = bt_text bp @ take (nat (bt_size bp - bt_pos bp - 1)) src"
    by (simp_all add: xs_def)
qed

lemma printf_inv:
  assumes "buf_inv bp" "bt_pos bp < bt_size bp \<or> int (bt_len bp) = bt_size bp - 1"
  shows "\<exists>bp'. buf_printf bp s = Some (bp', int (length s)) \<and> buf_inv bp' \<and>
    bt_text bp' = bt_text bp @ take (nat (bt_size bp - bt_pos bp - 1)) s"
proof -
  define xs where "xs = take (nat (bt_size bp - bt_pos bp - 1)) s"
  define n where "n = (if bt_pos bp < bt_size bp then bt_size bp - bt_pos bp else 1)"
  have sz: "0 < bt_size bp" "int (length (bt_buf bp)) = bt_size bp" using assms(1) by (auto simp: buf_inv_def)
  have xn: "take (nat n - 1) s = xs" by (auto simp: n_def xs_def nat_diff_distrib)
  have l: "bt_len bp + length xs < length (bt_buf bp)"
    using assms by (auto simp: buf_inv_def xs_def)
  have len: "(if int (bt_len bp) + int (length s) \<ge> bt_size bp then (if bt_size bp - 1 < 0 then 0 else bt_size bp - 1)
      else int (bt_len bp) + int (length s)) = int (bt_len bp + length xs)"
    using assms sz by (auto simp: buf_inv_def xs_def)
  have "buf_printf bp s = Some ((put_at bp xs)\<lparr>bt_pos := bt_pos bp + int (length s)\<rparr>, int (length s))"
    using sz unfolding buf_printf_def Let_def n_def [symmetric] xn len by (simp add: put_at_def)
  moreover have "buf_inv ((put_at bp xs)\<lparr>bt_pos := bt_pos bp + int (length s)\<rparr>)"
    using put_at_text [OF l] l assms by (auto simp: buf_inv_def xs_def)
  ultimately show ?thesis using put_at_text(1) [OF l] by (simp add: xs_def)
qed

section \<open>Whole characters\<close>

text \<open>The longest prefix of a text whose encoding is shorter than \<open>n\<close> bytes.\<close>

fun fitting :: "int \<Rightarrow> char32 list \<Rightarrow> char32 list" where
  "fitting n [] = []"
| "fitting n (c # cs) =
     (if int (length (utf8_encode c)) < n then c # fitting (n - int (length (utf8_encode c))) cs else [])"

abbreviation utf8_text :: "char32 list \<Rightarrow> byte list" where
  "utf8_text cs \<equiv> concat (map utf8_encode cs)"

abbreviation put_all :: "buf_t \<Rightarrow> char32 list \<Rightarrow> buf_t" where
  "put_all bp cs \<equiv> foldl (\<lambda>bp c. fst (buf_putc_utf8 bp c)) bp cs"

lemma fitting_none: "n \<le> 1 \<Longrightarrow> fitting n cs = []"
  by (cases cs) (auto simp: utf8_encode_def)

lemma put_all_text:
  "buf_inv bp \<Longrightarrow> buf_inv (put_all bp cs) \<and> bt_pos (put_all bp cs) = bt_pos bp + int (length (utf8_text cs)) \<and>
     bt_text (put_all bp cs) = bt_text bp @ utf8_text (fitting (bt_size bp - bt_pos bp) cs)"
proof (induction cs arbitrary: bp)
  case (Cons c cs)
  note i = putc_utf8_inv [OF Cons.prems, of c]
  show ?case
  proof (cases "bt_pos bp + int (length (utf8_encode c)) < bt_size bp")
    case True
    with Cons.IH [OF i(1)] i show ?thesis by (auto simp: algebra_simps)
  next
    case False
    with Cons.IH [OF i(1)] i fitting_none [of "bt_size bp - (bt_pos bp + int (length (utf8_encode c)))" cs]
    show ?thesis by auto
  qed
qed simp

lemma encode_nonzero: "c \<noteq> 0 \<Longrightarrow> 0 \<notin> set (utf8_encode c)"
proof -
  have nz: "x OR m \<noteq> 0" if "m \<noteq> 0" for x m :: byte using that by (metis or_eq_0_iff)
  assume "c \<noteq> 0"
  moreover have "c < 0x80 \<Longrightarrow> unat (ucast c :: byte) = unat c"
    by (simp add: unsigned_ucast_eq take_bit_nat_eq_self word_less_nat_alt)
  ultimately have "c < 0x80 \<Longrightarrow> (ucast c :: byte) \<noteq> 0" by (auto simp: word_unat_eq_iff)
  moreover have "trail_byte k c \<noteq> 0" for k unfolding trail_byte_def by (rule nz) simp
  ultimately show ?thesis by (auto simp: utf8_encode_def nz nz [symmetric] dest: sym)
qed

lemma fitting_sub: "set (fitting n cs) \<subseteq> set cs"
  by (induction n cs rule: fitting.induct) auto

lemma fitting_all: "int (length (utf8_text cs)) < n \<Longrightarrow> fitting n cs = cs"
  by (induction n cs rule: fitting.induct) auto

lemma cstring_of: "buf_inv bp \<Longrightarrow> 0 \<notin> set (bt_text bp) \<Longrightarrow> takeWhile (\<lambda>c. c \<noteq> 0) (bt_buf bp) = bt_text bp"
proof -
  assume i: "buf_inv bp" and z: "0 \<notin> set (bt_text bp)"
  have "bt_len bp < length (bt_buf bp)" "bt_buf bp ! bt_len bp = 0" using i by (auto simp: buf_inv_def)
  then have "bt_buf bp = bt_text bp @ 0 # drop (Suc (bt_len bp)) (bt_buf bp)"
    unfolding bt_text_def by (metis id_take_nth_drop)
  moreover have "takeWhile (\<lambda>c. c \<noteq> 0) (xs @ 0 # ys) = xs" if "0 \<notin> set xs" for xs ys :: "byte list"
    using that by (induction xs) auto
  ultimately show ?thesis using z by metis
qed

text \<open>C36. Writing code points into an array of \<open>n\<close> bytes stores the encoding of the longest prefix
  that fits with its terminating zero, never a part of a character, and returns the length of
  the whole encoding; reading the array back gives that prefix, all of the text when the
  returned length is below \<open>n\<close>.\<close>

theorem char32_utf8_roundtrip:
  assumes "0 < n" "int (length dest) = n" "0 \<notin> set cs"
  shows "case char32_to_utf8 dest n cs of (arr, m) \<Rightarrow>
    int (length arr) = n \<and> takeWhile (\<lambda>c. c \<noteq> 0) arr = utf8_text (fitting n cs) \<and>
    m = int (length (utf8_text cs)) \<and>
    utf8_to_char32 (n + 1) (takeWhile (\<lambda>c. c \<noteq> 0) arr) = (fitting n cs @ [0], length (fitting n cs)) \<and>
    (m < n \<longrightarrow> fitting n cs = cs)"
proof -
  note b = buf_init_inv [OF assms(1,2)]
  define out where "out = put_all (buf_init dest n) cs"
  have o: "buf_inv out" "bt_pos out = int (length (utf8_text cs))" "bt_text out = utf8_text (fitting n cs)"
    using put_all_text [OF b(1), of cs] b by (simp_all add: out_def)
  have sz: "int (length (bt_buf out)) = n"
  proof -
    have "bt_size (put_all bp cs) = bt_size bp" for bp
      by (induction cs arbitrary: bp) (simp_all add: putc_utf8_cases Let_def)
    with o(1) b(4) show ?thesis by (simp add: buf_inv_def out_def)
  qed
  have z: "0 \<notin> set (fitting n cs)" using assms(3) fitting_sub by blast
  then have "\<forall>c \<in> set (fitting n cs). 0 \<notin> set (utf8_encode c)" using encode_nonzero by metis
  then have "0 \<notin> set (bt_text out)" unfolding o(3) by simp
  then have s: "takeWhile (\<lambda>c. c \<noteq> 0) (bt_buf out) = utf8_text (fitting n cs)"
    using cstring_of [OF o(1)] o(3) by simp
  have len: "int (length (fitting n cs)) \<le> n" if "0 \<le> n" for n
    using that
  proof (induction n cs rule: fitting.induct)
    case (2 n c cs)
    moreover have "1 \<le> int (length (utf8_encode c))" by (simp add: utf8_encode_def)
    ultimately show ?case by (simp; linarith)
  qed simp
  have "utf8_to_char32 (n + 1) (utf8_text (fitting n cs)) = (fitting n cs @ [0], length (fitting n cs))"
    using len [of n] assms(1) z by (simp add: utf8_to_char32_def utf8_chars_encode nat_add_distrib Let_def)
  with o sz s show ?thesis
    by (simp add: char32_to_utf8_def flip: out_def) (simp add: fitting_all)
qed

theorem char32_utf8_roundtrip_witness:
  "case char32_to_utf8 [1, 1, 1, 1] 4 [0x41, 0xE9, 0x20AC] of (arr, m) \<Rightarrow>
    takeWhile (\<lambda>c. c \<noteq> 0) arr = utf8_text (fitting 4 [0x41, 0xE9, 0x20AC]) \<and> m = 6"
proof -
  have "length (utf8_text [0x41, 0xE9, 0x20AC]) = 6" by (simp add: utf8_encode_def)
  then show ?thesis
    using char32_utf8_roundtrip [of 4 "[1, 1, 1, 1]" "[0x41, 0xE9, 0x20AC]"] by (auto split: prod.splits)
qed



text \<open>After a character that did not fit, \<^verbatim>\<open>buf_put_byte\<close> still stores, since it compares the
  length of the string and not the output position: the string is then not a prefix of the
  output. And \<^verbatim>\<open>buf_printf\<close> on an empty array writes through a null pointer.\<close>

theorem put_byte_after_truncation:
  "bt_text (fst (buf_put_byte (fst (buf_putc_utf8 (buf_init [1, 1, 1] 3) 0x20AC)) 0x61)) = [0x61] \<and>
   buf_printf (buf_init [] 0) s = None"
  by (simp add: buf_init_def buf_putc_utf8_def utf8_encode_def buf_put_byte_def put_at_def store_def splice_at_def
      bt_text_def buf_printf_def)

end
