(* ===== verification/Charset.thy ===== *)
theory Charset
  imports StringLaws
begin

text \<open>
  Character sets (\<^verbatim>\<open>src/charset.c\<close>, \<^verbatim>\<open>src/charset.h\<close>, \<^verbatim>\<open>src/charsetmore.c\<close>): the codecs,
  the positions of lines and characters inside a block of bytes, the registry of charsets and
  the detection of the charset and of the line ends of a file. A charset is referred to
  by \<open>charset_ref\<close>, the address of its static structure; the function pointers in the
  structure are the values of small datatypes, applied by the \<open>run_...\<close> functions. A block is
  the list of its bytes; a decoder is given the bytes from \<^verbatim>\<open>s->p\<close> on and returns the
  code point and the advance of the pointer. A little-endian host is modelled.
\<close>

section \<open>Types (charset.h)\<close>

datatype EOLType = EOL_UNIX | EOL_DOS | EOL_MAC

datatype charset_ref = charset_raw | charset_8859_1 | charset_vt100 | charset_7bit | charset_utf8
  | charset_utf8x | charset_ucs2le | charset_ucs2be | charset_ucs4le | charset_ucs4be | charset_mac_roman

datatype codec = Codec_raw | Codec_8859_1 | Codec_vt100 | Codec_7bit | Codec_8bit | Codec_utf8
  | Codec_ucs2le | Codec_ucs2be | Codec_ucs4le | Codec_ucs4be

datatype scan_funcs = Scan_8bit | Scan_utf8 | Scan_ucs2 | Scan_ucs4

type_synonym ushort = "16 word"

record QECharset =
  cs_name :: "byte list"
  cs_aliases :: "byte list option"
  cs_codec :: codec
  cs_scan :: scan_funcs
  cs_char_size :: nat
  cs_variable_size :: bool
  cs_table_alloc :: bool
  cs_eol_char :: byte
  cs_min_char :: nat
  cs_max_char :: nat
  cs_encode_table :: "ushort list"
  cs_private_table :: "ushort list"

record CharsetDecodeState =
  ds_table :: "ushort list"
  ds_char_size :: nat
  ds_eol_type :: EOLType
  ds_eol_char :: byte
  ds_charset :: charset_ref

abbreviation LF :: byte where "LF \<equiv> 10"
abbreviation CR :: byte where "CR \<equiv> 13"

definition ESCAPE_CHAR :: ushort where "ESCAPE_CHAR = 0xffff"

section \<open>Tables\<close>

definition table_idem :: "ushort list" where "table_idem = map of_nat [0..<256]"
definition table_none :: "ushort list" where "table_none = replicate 256 ESCAPE_CHAR"
definition table_utf8 :: "ushort list" where
  "table_utf8 = map of_nat [0..<128] @ replicate 64 (ucast INVALID_CHAR) @ replicate 64 ESCAPE_CHAR"

definition table_mac_roman :: "ushort list" where
  "table_mac_roman =
    [0x00c4, 0x00c5, 0x00c7, 0x00c9, 0x00d1, 0x00d6, 0x00dc, 0x00e1,
     0x00e0, 0x00e2, 0x00e4, 0x00e3, 0x00e5, 0x00e7, 0x00e9, 0x00e8,
     0x00ea, 0x00eb, 0x00ed, 0x00ec, 0x00ee, 0x00ef, 0x00f1, 0x00f3,
     0x00f2, 0x00f4, 0x00f6, 0x00f5, 0x00fa, 0x00f9, 0x00fb, 0x00fc,
     0x2020, 0x00b0, 0x00a2, 0x00a3, 0x00a7, 0x2022, 0x00b6, 0x00df,
     0x00ae, 0x00a9, 0x2122, 0x00b4, 0x00a8, 0x2260, 0x00c6, 0x00d8,
     0x221e, 0x00b1, 0x2264, 0x2265, 0x00a5, 0x00b5, 0x2202, 0x2211,
     0x220f, 0x03c0, 0x222b, 0x00aa, 0x00ba, 0x03a9, 0x00e6, 0x00f8,
     0x00bf, 0x00a1, 0x00ac, 0x221a, 0x0192, 0x2248, 0x0394, 0x00ab,
     0x00bb, 0x2026, 0x00a0, 0x00c0, 0x00c3, 0x00d5, 0x0152, 0x0153,
     0x2013, 0x2014, 0x201c, 0x201d, 0x2018, 0x2019, 0x00f7, 0x25ca,
     0x00ff, 0x0178, 0x2044, 0x20ac, 0x2039, 0x203a, 0xfb01, 0xfb02,
     0x2021, 0x00b7, 0x201a, 0x201e, 0x2030, 0x00c2, 0x00ca, 0x00c1,
     0x00cb, 0x00c8, 0x00cd, 0x00ce, 0x00cf, 0x00cc, 0x00d3, 0x00d4,
     0xf8ff, 0x00d2, 0x00da, 0x00db, 0x00d9, 0x0131, 0x02c6, 0x02dc,
     0x00af, 0x02d8, 0x02d9, 0x02da, 0x00b8, 0x02dd, 0x02db, 0x02c7]"

text \<open>The characters below 32 that text files contain.\<close>

definition magic :: "nat list" where
  "magic = [8, 9, 12, 10, 13, 27, 0x0e, 0x0f, 0x1a, 0x1f]"

section \<open>8 bit codecs\<close>

definition encode_raw :: "char32 \<Rightarrow> byte list option" where
  "encode_raw c = (if c \<le> 0xff then Some [ucast c] else None)"

definition encode_8859_1 :: "char32 \<Rightarrow> byte list option" where
  "encode_8859_1 c = (if c \<le> 0xff then Some [ucast c] else None)"

definition encode_vt100 :: "char32 \<Rightarrow> byte list option" where
  "encode_vt100 c = (if c \<le> 0xff then Some [ucast c] else None)"

definition encode_7bit :: "char32 \<Rightarrow> byte list option" where
  "encode_7bit c = (if c \<le> 0x7f then Some [ucast c] else None)"

fun find_index :: "ushort list \<Rightarrow> char32 \<Rightarrow> nat \<Rightarrow> nat option" where
  "find_index [] c i = None"
| "find_index (t # ts) c i = (if ucast t = c then Some i else find_index ts c (Suc i))"

definition encode_8bit :: "QECharset \<Rightarrow> char32 \<Rightarrow> byte list option" where
  "encode_8bit charset c =
     (if c < of_nat (cs_min_char charset) then Some [ucast c]
      else if c > of_nat (cs_max_char charset) \<and> c \<le> 0xff then Some [ucast c]
      else let n = cs_max_char charset - cs_min_char charset + 1
           in case find_index (take n (cs_private_table charset)) c 0 of
                None \<Rightarrow> None
              | Some i \<Rightarrow> Some [of_nat (cs_min_char charset + i)])"

definition decode_8bit_init :: "QECharset \<Rightarrow> ushort list" where
  "decode_8bit_init charset =
     (let n = cs_max_char charset - cs_min_char charset + 1
      in map of_nat [0..<cs_min_char charset] @ take n (cs_private_table charset) @
         map of_nat [cs_max_char charset + 1..<256])"

definition decode_8bit :: "CharsetDecodeState \<Rightarrow> byte list \<Rightarrow> char32 \<times> nat" where
  "decode_8bit s p = (ucast (ds_table s ! unat (head0 p)), 1)"

section \<open>UTF-8 and UCS codecs\<close>

definition decode_utf8_func :: "byte list \<Rightarrow> char32 \<times> nat" where
  "decode_utf8_func p = utf8_decode p"

definition encode_utf8 :: "char32 \<Rightarrow> byte list option" where
  "encode_utf8 c = Some (utf8_encode c)"

abbreviation byte_at :: "byte list \<Rightarrow> nat \<Rightarrow> char32" where
  "byte_at p i \<equiv> ucast (char_at p i)"

definition decode_ucs2le :: "byte list \<Rightarrow> char32 \<times> nat" where
  "decode_ucs2le p = (byte_at p 0 + push_bit 8 (byte_at p 1), 2)"

definition encode_ucs2le :: "char32 \<Rightarrow> byte list option" where
  "encode_ucs2le c = Some [ucast c, ucast (drop_bit 8 c)]"

definition decode_ucs2be :: "byte list \<Rightarrow> char32 \<times> nat" where
  "decode_ucs2be p = (push_bit 8 (byte_at p 0) + byte_at p 1, 2)"

definition encode_ucs2be :: "char32 \<Rightarrow> byte list option" where
  "encode_ucs2be c = Some [ucast (drop_bit 8 c), ucast c]"

definition decode_ucs4le :: "byte list \<Rightarrow> char32 \<times> nat" where
  "decode_ucs4le p =
     (byte_at p 0 + push_bit 8 (byte_at p 1) + push_bit 16 (byte_at p 2) + push_bit 24 (byte_at p 3), 4)"

definition encode_ucs4le :: "char32 \<Rightarrow> byte list option" where
  "encode_ucs4le c = Some [ucast c, ucast (drop_bit 8 c), ucast (drop_bit 16 c), ucast (drop_bit 24 c)]"

definition decode_ucs4be :: "byte list \<Rightarrow> char32 \<times> nat" where
  "decode_ucs4be p =
     (push_bit 24 (byte_at p 0) + push_bit 16 (byte_at p 1) + push_bit 8 (byte_at p 2) + byte_at p 3, 4)"

definition encode_ucs4be :: "char32 \<Rightarrow> byte list option" where
  "encode_ucs4be c = Some [ucast (drop_bit 24 c), ucast (drop_bit 16 c), ucast (drop_bit 8 c), ucast c]"

section \<open>Probing\<close>

text \<open>The counts of the source are only tested for being zero or compared with a threshold:
  \<open>n\<close> is their sum.\<close>

fun probe_8859_1_loop :: "byte list \<Rightarrow> nat \<Rightarrow> nat option" where
  "probe_8859_1_loop [] n = Some n"
| "probe_8859_1_loop (c # p) n =
     (if c \<le> 32 then
        (if c = 32 \<or> c = LF then probe_8859_1_loop p (Suc n)
         else if unat c \<notin> set magic then None else probe_8859_1_loop p n)
      else if c < 0x7F then probe_8859_1_loop p n
      else if c < 0x80 then None
      else probe_8859_1_loop p n)"

definition probe_8859_1 :: "byte list \<Rightarrow> bool" where
  "probe_8859_1 buf = (case probe_8859_1_loop buf 0 of None \<Rightarrow> False | Some n \<Rightarrow> n \<noteq> 0)"

abbreviation trailing :: "byte \<Rightarrow> bool" where
  "trailing b \<equiv> b XOR 0x80 \<le> 0x3f"

text \<open>The bytes after the block, which \<^verbatim>\<open>probe_utf8\<close> reads when the block ends inside a
  sequence, are \<open>beyond\<close>.\<close>

fun probe_utf8_loop :: "byte list \<Rightarrow> byte list \<Rightarrow> nat \<Rightarrow> nat option" where
  "probe_utf8_loop beyond [] n = Some n"
| "probe_utf8_loop beyond (c # p) n =
     (if c \<le> 32 then
        (if c = 32 \<or> c = LF then probe_utf8_loop beyond p (Suc n)
         else if unat c \<notin> set magic then None else probe_utf8_loop beyond p n)
      else if c < 0x7F then probe_utf8_loop beyond p n
      else if c < 0xc2 then None
      else let k = (if c < 0xe0 then 1 else if c < 0xf0 then 2 else 3)
           in if c \<ge> 0xf8 then None
              else if list_all trailing (take k (p @ beyond)) then probe_utf8_loop beyond (drop k p) (Suc n)
              else None)"

definition probe_utf8 :: "byte list \<Rightarrow> byte list \<Rightarrow> bool" where
  "probe_utf8 beyond buf = (case probe_utf8_loop beyond buf 0 of None \<Rightarrow> False | Some n \<Rightarrow> n \<noteq> 0)"

fun probe_wide_loop :: "char32 list \<Rightarrow> char32 \<Rightarrow> nat \<Rightarrow> nat option" where
  "probe_wide_loop [] mx n = Some n"
| "probe_wide_loop (c # p) mx n =
     (if c \<le> 32 then
        (if c = 32 \<or> c = 10 then probe_wide_loop p mx (Suc n)
         else if unat c \<notin> set magic then None else probe_wide_loop p mx n)
      else if c > mx then None
      else probe_wide_loop p mx n)"

text \<open>The code units of a block, read with the four byte orders.\<close>

fun units :: "nat \<Rightarrow> (byte list \<Rightarrow> char32 \<times> nat) \<Rightarrow> nat \<Rightarrow> byte list \<Rightarrow> char32 list" where
  "units 0 dec w p = []"
| "units (Suc n) dec w p = fst (dec p) # units n dec w (drop w p)"

definition probe_ucs2le :: "byte list \<Rightarrow> bool" where
  "probe_ucs2le buf =
     (if length buf mod 2 \<noteq> 0 then False
      else case probe_wide_loop (units (length buf div 2) decode_ucs2le 2 buf) 0xffff 0 of
             None \<Rightarrow> False | Some n \<Rightarrow> n > length buf div (16 * 2))"

definition probe_ucs2be :: "byte list \<Rightarrow> bool" where
  "probe_ucs2be buf =
     (if length buf mod 2 \<noteq> 0 then False
      else case probe_wide_loop (units (length buf div 2) decode_ucs2be 2 buf) 0xffff 0 of
             None \<Rightarrow> False | Some n \<Rightarrow> n > length buf div (16 * 2))"

definition probe_ucs4le :: "byte list \<Rightarrow> bool" where
  "probe_ucs4le buf =
     (if length buf mod 4 \<noteq> 0 then False
      else case probe_wide_loop (units (length buf div 4) decode_ucs4le 4 buf) 0x10FFFF 0 of
             None \<Rightarrow> False | Some n \<Rightarrow> n > length buf div (16 * 4))"

definition probe_ucs4be :: "byte list \<Rightarrow> bool" where
  "probe_ucs4be buf =
     (if length buf mod 4 \<noteq> 0 then False
      else case probe_wide_loop (units (length buf div 4) decode_ucs4be 4 buf) 0x10FFFF 0 of
             None \<Rightarrow> False | Some n \<Rightarrow> n > length buf div (16 * 4))"

section \<open>Positions inside a block\<close>

definition memchr :: "'a list \<Rightarrow> 'a \<Rightarrow> 'a list option" where
  "memchr p c = (case dropWhile (\<lambda>x. x \<noteq> c) p of [] \<Rightarrow> None | q \<Rightarrow> Some q)"

lemma memchr_shorter: "memchr p c = Some q \<Longrightarrow> length q \<le> length p \<and> q \<noteq> []"
  using length_dropWhile_le [of "\<lambda>x. x \<noteq> c" p] by (cases "dropWhile (\<lambda>x. x \<noteq> c) p") (auto simp: memchr_def)

text \<open>A line feed at the start of the block, or after a carriage return, is skipped in DOS mode.\<close>

definition skip_lf :: "bool \<Rightarrow> 'a \<Rightarrow> 'a list \<Rightarrow> 'a list" where
  "skip_lf dos lf p = (if dos \<and> p \<noteq> [] \<and> hd p = lf then tl p else p)"

lemma skip_lf_shorter: "length (skip_lf dos lf p) \<le> length p"
  by (simp add: skip_lf_def)

function pos_memchr :: "bool \<Rightarrow> byte \<Rightarrow> byte list \<Rightarrow> byte list \<Rightarrow> nat \<Rightarrow> nat \<times> nat" where
  "pos_memchr dos nl p lp line =
     (case memchr p nl of
        None \<Rightarrow> (line, length lp)
      | Some q \<Rightarrow> let p' = skip_lf dos LF (tl q) in pos_memchr dos nl p' p' (Suc line))"
  by pat_completeness auto
termination
proof (relation "measure (\<lambda>(dos, nl, p, lp, line). length p)")
  fix dos nl p lp and line :: nat and q p'
  assume "memchr p nl = Some q" "p' = skip_lf dos LF (tl q)"
  moreover have "length (skip_lf dos LF (tl q)) \<le> length (tl q)" by (rule skip_lf_shorter)
  ultimately show "((dos, nl, p', p', Suc line), (dos, nl, p, lp, line)) \<in> measure (\<lambda>(dos, nl, p, lp, line). length p)"
    using memchr_shorter [of p nl q] by (cases q) auto
qed simp

declare pos_memchr.simps [simp del]

definition charset_get_pos_8bit :: "CharsetDecodeState \<Rightarrow> byte list \<Rightarrow> nat \<times> nat" where
  "charset_get_pos_8bit s buf =
     (let dos = (ds_eol_type s = EOL_DOS); p = skip_lf dos LF buf
      in pos_memchr dos (ds_eol_char s) p p 0)"

function line_memchr :: "bool \<Rightarrow> byte \<Rightarrow> byte list \<Rightarrow> byte list \<Rightarrow> int \<Rightarrow> byte list" where
  "line_memchr dos nl p lp nlines =
     (if nlines > 0 then
        (case memchr p nl of
           None \<Rightarrow> lp
         | Some q \<Rightarrow> let p' = skip_lf dos LF (tl q) in line_memchr dos nl p' p' (nlines - 1))
      else lp)"
  by pat_completeness auto
termination
  by (relation "measure (\<lambda>(dos, nl, p, lp, n). nat n)") auto

declare line_memchr.simps [simp del]

definition charset_goto_line_8bit :: "CharsetDecodeState \<Rightarrow> byte list \<Rightarrow> int \<Rightarrow> nat" where
  "charset_goto_line_8bit s buf nlines =
     (let dos = (ds_eol_type s = EOL_DOS); p = skip_lf dos LF buf
      in length buf - length (line_memchr dos (ds_eol_char s) p p nlines))"

text \<open>The wide variants read the block as 16 or 32 bit units in the byte order of the host and
  build the line end and line feed units through a union.\<close>

fun units16 :: "byte list \<Rightarrow> ushort list" where
  "units16 (a # b # p) = (ucast a OR push_bit 8 (ucast b)) # units16 p"
| "units16 p = []"

fun units32 :: "byte list \<Rightarrow> char32 list" where
  "units32 (a # b # c # d # p) =
     (ucast a OR push_bit 8 (ucast b) OR push_bit 16 (ucast c) OR push_bit 24 (ucast d)) # units32 p"
| "units32 p = []"

definition unit16 :: "bool \<Rightarrow> byte \<Rightarrow> ushort" where
  "unit16 be c = (if be then push_bit 8 (ucast c) else ucast c)"

definition unit32 :: "bool \<Rightarrow> byte \<Rightarrow> char32" where
  "unit32 be c = (if be then push_bit 24 (ucast c) else ucast c)"

function pos_units :: "bool \<Rightarrow> 'a \<Rightarrow> 'a \<Rightarrow> 'a list \<Rightarrow> 'a list \<Rightarrow> nat \<Rightarrow> nat \<times> nat" where
  "pos_units dos nl lf [] lp line = (line, length lp)"
| "pos_units dos nl lf (c # p) lp line =
     (if c = nl then let p' = skip_lf dos lf p in pos_units dos nl lf p' p' (Suc line)
      else pos_units dos nl lf p lp line)"
  by pat_completeness auto
termination
proof (relation "measure (\<lambda>(dos, nl, lf, p, lp, line). length p)")
  fix dos and nl lf c :: 'a and p lp p' and line :: nat
  assume "p' = skip_lf dos lf p"
  then show "((dos, nl, lf, p', p', Suc line), (dos, nl, lf, c # p, lp, line))
      \<in> measure (\<lambda>(dos, nl, lf, p, lp, line). length p)"
    using skip_lf_shorter [of dos lf p] by simp
qed simp_all

function line_units :: "bool \<Rightarrow> 'a \<Rightarrow> 'a \<Rightarrow> 'a list \<Rightarrow> 'a list \<Rightarrow> int \<Rightarrow> 'a list" where
  "line_units dos nl lf [] lp nlines = lp"
| "line_units dos nl lf (c # p) lp nlines =
     (if nlines > 0 then
        (if c = nl then let p' = skip_lf dos lf p in line_units dos nl lf p' p' (nlines - 1)
         else line_units dos nl lf p lp nlines)
      else lp)"
  by pat_completeness auto
termination
proof (relation "measure (\<lambda>(dos, nl, lf, p, lp, line). length p)")
  fix dos and nl lf c :: 'a and p lp p' and n :: int
  assume "p' = skip_lf dos lf p"
  then show "((dos, nl, lf, p', p', n - 1), (dos, nl, lf, c # p, lp, n))
      \<in> measure (\<lambda>(dos, nl, lf, p, lp, line). length p)"
    using skip_lf_shorter [of dos lf p] by simp
qed simp_all

definition charset_get_pos_ucs2 :: "CharsetDecodeState \<Rightarrow> byte list \<Rightarrow> nat \<times> nat" where
  "charset_get_pos_ucs2 s buf =
     (let be = (ds_charset s = charset_ucs2be); dos = (ds_eol_type s = EOL_DOS);
          nl = unit16 be (ds_eol_char s); lf = unit16 be LF; p = skip_lf dos lf (units16 buf)
      in pos_units dos nl lf p p 0)"

definition charset_goto_line_ucs2 :: "CharsetDecodeState \<Rightarrow> byte list \<Rightarrow> int \<Rightarrow> nat" where
  "charset_goto_line_ucs2 s buf nlines =
     (let be = (ds_charset s = charset_ucs2be); dos = (ds_eol_type s = EOL_DOS);
          nl = unit16 be (ds_eol_char s); lf = unit16 be LF; p = skip_lf dos lf (units16 buf)
      in 2 * (length (units16 buf) - length (line_units dos nl lf p p nlines)))"

definition charset_get_pos_ucs4 :: "CharsetDecodeState \<Rightarrow> byte list \<Rightarrow> nat \<times> nat" where
  "charset_get_pos_ucs4 s buf =
     (let be = (ds_charset s = charset_ucs4be); dos = (ds_eol_type s = EOL_DOS);
          nl = unit32 be (ds_eol_char s); lf = unit32 be LF; p = skip_lf dos lf (units32 buf)
      in pos_units dos nl lf p p 0)"

definition charset_goto_line_ucs4 :: "CharsetDecodeState \<Rightarrow> byte list \<Rightarrow> int \<Rightarrow> nat" where
  "charset_goto_line_ucs4 s buf nlines =
     (let be = (ds_charset s = charset_ucs4be); dos = (ds_eol_type s = EOL_DOS);
          nl = unit32 be (ds_eol_char s); lf = unit32 be LF; p = skip_lf dos lf (units32 buf)
      in 4 * (length (units32 buf) - length (line_units dos nl lf p p nlines)))"

text \<open>UTF-8: lines are found as in the 8 bit charsets without the DOS rule, columns by the
  length of each character.\<close>

function utf8_columns :: "byte list \<Rightarrow> nat" where
  "utf8_columns [] = 0"
| "utf8_columns (b # p) = Suc (utf8_columns (drop (utf8_length b) (b # p)))"
  by pat_completeness auto
termination
proof (relation "measure length")
  fix b :: byte and p
  have "1 \<le> utf8_length b" by (simp add: utf8_length_cases)
  then show "(drop (utf8_length b) (b # p), b # p) \<in> measure length" by simp
qed simp

function utf8_last_line :: "byte \<Rightarrow> byte list \<Rightarrow> byte list \<Rightarrow> nat \<Rightarrow> nat \<times> byte list" where
  "utf8_last_line nl p lp line =
     (case memchr p nl of None \<Rightarrow> (line, lp) | Some q \<Rightarrow> utf8_last_line nl (tl q) (tl q) (Suc line))"
  by pat_completeness auto
termination
proof (relation "measure (\<lambda>(nl, p, lp, line). length p)")
  fix nl p lp and line :: nat and q
  assume "memchr p nl = Some q"
  then show "((nl, tl q, tl q, Suc line), (nl, p, lp, line)) \<in> measure (\<lambda>(nl, p, lp, line). length p)"
    using memchr_shorter [of p nl q] by (cases q) auto
qed simp

declare utf8_last_line.simps [simp del]

definition charset_get_pos_utf8 :: "CharsetDecodeState \<Rightarrow> byte list \<Rightarrow> nat \<times> nat" where
  "charset_get_pos_utf8 s buf =
     (let (line, lp) = utf8_last_line (ds_eol_char s) buf buf 0 in (line, utf8_columns lp))"

text \<open>Characters: a unit for which \<open>skipped\<close> holds does not count.\<close>

fun count_units :: "('a \<Rightarrow> bool) \<Rightarrow> 'a list \<Rightarrow> nat" where
  "count_units skipped [] = 0"
| "count_units skipped (c # p) = (if skipped c then 0 else 1) + count_units skipped p"

fun goto_unit :: "('a \<Rightarrow> bool) \<Rightarrow> 'a list \<Rightarrow> int \<Rightarrow> int \<Rightarrow> nat" where
  "goto_unit skipped [] nb_chars pos = 0"
| "goto_unit skipped (c # p) nb_chars pos =
     (if skipped c then Suc (goto_unit skipped p nb_chars pos)
      else if nb_chars \<ge> pos then 0
      else Suc (goto_unit skipped p (nb_chars + 1) pos))"

definition charset_get_chars_8bit :: "CharsetDecodeState \<Rightarrow> byte list \<Rightarrow> nat" where
  "charset_get_chars_8bit s buf =
     (if ds_eol_type s \<noteq> EOL_DOS then length buf else count_units (\<lambda>c. c = LF) buf)"

definition charset_goto_char_8bit :: "CharsetDecodeState \<Rightarrow> byte list \<Rightarrow> int \<Rightarrow> int" where
  "charset_goto_char_8bit s buf pos =
     (if ds_eol_type s \<noteq> EOL_DOS then min_int pos (int (length buf))
      else int (goto_unit (\<lambda>c. c = LF) buf 0 pos))"

definition charset_get_chars_utf8 :: "CharsetDecodeState \<Rightarrow> byte list \<Rightarrow> nat" where
  "charset_get_chars_utf8 s buf =
     count_units (\<lambda>c. (c = LF \<and> ds_eol_type s = EOL_DOS) \<or> \<not> c XOR 0x80 > 0x3f) buf"

definition charset_goto_char_utf8 :: "CharsetDecodeState \<Rightarrow> byte list \<Rightarrow> int \<Rightarrow> int" where
  "charset_goto_char_utf8 s buf pos =
     int (goto_unit (\<lambda>c. c XOR 0x80 \<le> 0x3f \<or> (c = LF \<and> ds_eol_type s = EOL_DOS)) buf 0 pos)"

definition charset_get_chars_ucs2 :: "CharsetDecodeState \<Rightarrow> byte list \<Rightarrow> nat" where
  "charset_get_chars_ucs2 s buf =
     (if ds_eol_type s \<noteq> EOL_DOS then length buf div 2
      else let nl = unit16 (ds_charset s = charset_ucs2be) LF in count_units (\<lambda>c. c = nl) (units16 buf))"

definition charset_goto_char_ucs2 :: "CharsetDecodeState \<Rightarrow> byte list \<Rightarrow> int \<Rightarrow> int" where
  "charset_goto_char_ucs2 s buf pos =
     (if ds_eol_type s \<noteq> EOL_DOS then min_int (pos * 2) (int (length buf))
      else let nl = unit16 (ds_charset s = charset_ucs2be) LF
           in 2 * int (goto_unit (\<lambda>c. c = nl) (units16 buf) 0 pos))"

definition charset_get_chars_ucs4 :: "CharsetDecodeState \<Rightarrow> byte list \<Rightarrow> nat" where
  "charset_get_chars_ucs4 s buf =
     (if ds_eol_type s \<noteq> EOL_DOS then length buf div 4
      else let nl = unit32 (ds_charset s = charset_ucs4be) LF in count_units (\<lambda>c. c = nl) (units32 buf))"

definition charset_goto_char_ucs4 :: "CharsetDecodeState \<Rightarrow> byte list \<Rightarrow> int \<Rightarrow> int" where
  "charset_goto_char_ucs4 s buf pos =
     (if ds_eol_type s \<noteq> EOL_DOS then min_int (pos * 4) (int (length buf))
      else let nl = unit32 (ds_charset s = charset_ucs4be) LF
           in 4 * int (goto_unit (\<lambda>c. c = nl) (units32 buf) 0 pos))"

section \<open>The charsets and their registry\<close>

definition simple_charset :: "byte list \<Rightarrow> byte list option \<Rightarrow> codec \<Rightarrow> scan_funcs \<Rightarrow> nat \<Rightarrow> bool \<Rightarrow> ushort list \<Rightarrow> QECharset" where
  "simple_charset name al cd sc sz var tab =
     \<lparr>cs_name = name, cs_aliases = al, cs_codec = cd, cs_scan = sc, cs_char_size = sz, cs_variable_size = var,
      cs_table_alloc = False, cs_eol_char = 10, cs_min_char = 0, cs_max_char = 0,
      cs_encode_table = tab, cs_private_table = []\<rparr>"

definition raw_struct :: QECharset where
  "raw_struct =
     simple_charset (cstr ''raw'') (Some (cstr ''binary|none'')) Codec_raw Scan_8bit 1 False table_idem"

definition cs_8859_1_struct :: QECharset where
  "cs_8859_1_struct =
     simple_charset (cstr ''8859-1'') (Some (cstr ''ISO-8859-1|iso-ir-100|latin1|l1|819''))
     Codec_8859_1 Scan_8bit 1 False table_idem"

definition vt100_struct :: QECharset where
  "vt100_struct =
     simple_charset (cstr ''vt100'') None Codec_vt100 Scan_8bit 1 False table_idem"

definition cs_7bit_struct :: QECharset where
  "cs_7bit_struct =
     simple_charset (cstr ''7bit'') (Some (cstr ''us-ascii|ascii|7-bit|iso-ir-6|ANSI_X3.4|646''))
     Codec_7bit Scan_8bit 1 False table_idem"

definition utf8_struct :: QECharset where
  "utf8_struct =
     simple_charset (cstr ''utf8'') (Some (cstr ''utf-8|al32utf8'')) Codec_utf8 Scan_utf8 1 True table_utf8"

definition utf8x_struct :: QECharset where
  "utf8x_struct =
     simple_charset (cstr ''utf8x'') (Some (cstr ''utf-8x'')) Codec_utf8 Scan_utf8 1 True table_utf8"

definition ucs2le_struct :: QECharset where
  "ucs2le_struct =
     simple_charset (cstr ''ucs2le'') (Some (cstr ''utf16le|utf-16le'')) Codec_ucs2le Scan_ucs2 2 False table_none"

definition ucs2be_struct :: QECharset where
  "ucs2be_struct =
     simple_charset (cstr ''ucs2be'') (Some (cstr ''ucs2|utf16|utf-16|utf16be|utf-16be''))
     Codec_ucs2be Scan_ucs2 2 False table_none"

definition ucs4le_struct :: QECharset where
  "ucs4le_struct =
     simple_charset (cstr ''ucs4le'') (Some (cstr ''utf32le|utf-32le'')) Codec_ucs4le Scan_ucs4 4 False table_none"

definition ucs4be_struct :: QECharset where
  "ucs4be_struct =
     simple_charset (cstr ''ucs4be'') (Some (cstr ''ucs4|utf32|utf-32|utf32be|utf-32be''))
     Codec_ucs4be Scan_ucs4 4 False table_none"

definition mac_roman_struct :: QECharset where
  "mac_roman_struct =
     \<lparr>cs_name = cstr ''mac-roman'', cs_aliases = Some (cstr ''x-mac|mac''), cs_codec = Codec_8bit, cs_scan = Scan_8bit,
      cs_char_size = 1, cs_variable_size = False, cs_table_alloc = True, cs_eol_char = 10,
      cs_min_char = 128, cs_max_char = 255, cs_encode_table = [], cs_private_table = table_mac_roman\<rparr>"

fun charset_at :: "charset_ref \<Rightarrow> QECharset" where
  "charset_at charset_raw = raw_struct"
| "charset_at charset_8859_1 = cs_8859_1_struct"
| "charset_at charset_vt100 = vt100_struct"
| "charset_at charset_7bit = cs_7bit_struct"
| "charset_at charset_utf8 = utf8_struct"
| "charset_at charset_utf8x = utf8x_struct"
| "charset_at charset_ucs2le = ucs2le_struct"
| "charset_at charset_ucs2be = ucs2be_struct"
| "charset_at charset_ucs4le = ucs4le_struct"
| "charset_at charset_ucs4be = ucs4be_struct"
| "charset_at charset_mac_roman = mac_roman_struct"

lemmas charset_structs = simple_charset_def raw_struct_def cs_8859_1_struct_def vt100_struct_def cs_7bit_struct_def utf8_struct_def utf8x_struct_def ucs2le_struct_def ucs2be_struct_def ucs4le_struct_def ucs4be_struct_def mac_roman_struct_def

fun qe_register_charset :: "charset_ref list \<Rightarrow> charset_ref \<Rightarrow> charset_ref list" where
  "qe_register_charset [] charset = [charset]"
| "qe_register_charset (c # first_charset) charset =
     (if c = charset then c # first_charset else c # qe_register_charset first_charset charset)"

definition charset_init :: "charset_ref list \<Rightarrow> charset_ref list" where
  "charset_init first_charset = foldl qe_register_charset first_charset
     [charset_raw, charset_8859_1, charset_vt100, charset_7bit, charset_utf8, charset_utf8x,
      charset_ucs2le, charset_ucs2be, charset_ucs4le, charset_ucs4be]"

definition charset_more_init :: "charset_ref list \<Rightarrow> charset_ref list" where
  "charset_more_init first_charset = qe_register_charset first_charset charset_mac_roman"

fun find_charset_loop :: "charset_ref list \<Rightarrow> byte list \<Rightarrow> charset_ref option" where
  "find_charset_loop [] name = None"
| "find_charset_loop (c # rest) name =
     (if strxcmp (cs_name (charset_at c)) name = 0
         \<or> (cs_aliases (charset_at c) \<noteq> None \<and> strxfind (cs_aliases (charset_at c)) name)
      then Some c else find_charset_loop rest name)"

definition find_charset :: "charset_ref list \<Rightarrow> byte list option \<Rightarrow> charset_ref option" where
  "find_charset first_charset name =
     (case name of None \<Rightarrow> None | Some n \<Rightarrow> find_charset_loop first_charset n)"

text \<open>The names offered for completion: each name, then its aliases cut to 31 bytes.\<close>

function alias_names :: "byte list \<Rightarrow> byte list list" where
  "alias_names p =
     (let w = takeWhile (\<lambda>c. c \<noteq> BAR) p; here = (if w \<noteq> [] then [pstrncpy [] 32 w (int (length w))] else [])
      in case dropWhile (\<lambda>c. c \<noteq> BAR) p of [] \<Rightarrow> here | _ # r \<Rightarrow> here @ alias_names r)"
  by pat_completeness auto
termination
proof (relation "measure length")
  fix p w :: "byte list" and h :: "byte list list" and c and r :: "byte list"
  assume "dropWhile (\<lambda>c. c \<noteq> BAR) p = c # r"
  then have "length (c # r) \<le> length p" by (metis length_dropWhile_le)
  then show "(r, p) \<in> measure length" by simp
qed simp

declare alias_names.simps [simp del]

definition charset_complete :: "charset_ref list \<Rightarrow> byte list list" where
  "charset_complete first_charset =
     concat (map (\<lambda>c. cs_name (charset_at c) # (case cs_aliases (charset_at c) of None \<Rightarrow> [] | Some a \<Rightarrow> alias_names a))
       first_charset)"

section \<open>Decoding state\<close>

definition charset_decode_init :: "charset_ref \<Rightarrow> EOLType \<Rightarrow> CharsetDecodeState" where
  "charset_decode_init charset eol_type =
     (let cs = charset_at charset
      in \<lparr>ds_table = (if cs_table_alloc cs then decode_8bit_init cs else cs_encode_table cs),
          ds_char_size = cs_char_size cs, ds_eol_type = eol_type,
          ds_eol_char = (if cs_eol_char cs = LF \<and> (eol_type = EOL_MAC \<or> eol_type = EOL_DOS) then CR else cs_eol_char cs),
          ds_charset = charset\<rparr>)"

fun run_decode :: "CharsetDecodeState \<Rightarrow> codec \<Rightarrow> byte list \<Rightarrow> char32 \<times> nat" where
  "run_decode s Codec_utf8 p = decode_utf8_func p"
| "run_decode s Codec_ucs2le p = decode_ucs2le p"
| "run_decode s Codec_ucs2be p = decode_ucs2be p"
| "run_decode s Codec_ucs4le p = decode_ucs4le p"
| "run_decode s Codec_ucs4be p = decode_ucs4be p"
| "run_decode s _ p = decode_8bit s p"

fun run_encode :: "charset_ref \<Rightarrow> codec \<Rightarrow> char32 \<Rightarrow> byte list option" where
  "run_encode r Codec_raw c = encode_raw c"
| "run_encode r Codec_8859_1 c = encode_8859_1 c"
| "run_encode r Codec_vt100 c = encode_vt100 c"
| "run_encode r Codec_7bit c = encode_7bit c"
| "run_encode r Codec_8bit c = encode_8bit (charset_at r) c"
| "run_encode r Codec_utf8 c = encode_utf8 c"
| "run_encode r Codec_ucs2le c = encode_ucs2le c"
| "run_encode r Codec_ucs2be c = encode_ucs2be c"
| "run_encode r Codec_ucs4le c = encode_ucs4le c"
| "run_encode r Codec_ucs4be c = encode_ucs4be c"

fun run_get_pos :: "CharsetDecodeState \<Rightarrow> scan_funcs \<Rightarrow> byte list \<Rightarrow> nat \<times> nat" where
  "run_get_pos s Scan_8bit buf = charset_get_pos_8bit s buf"
| "run_get_pos s Scan_utf8 buf = charset_get_pos_utf8 s buf"
| "run_get_pos s Scan_ucs2 buf = charset_get_pos_ucs2 s buf"
| "run_get_pos s Scan_ucs4 buf = charset_get_pos_ucs4 s buf"

fun run_goto_line :: "CharsetDecodeState \<Rightarrow> scan_funcs \<Rightarrow> byte list \<Rightarrow> int \<Rightarrow> nat" where
  "run_goto_line s Scan_8bit buf n = charset_goto_line_8bit s buf n"
| "run_goto_line s Scan_utf8 buf n = charset_goto_line_8bit s buf n"
| "run_goto_line s Scan_ucs2 buf n = charset_goto_line_ucs2 s buf n"
| "run_goto_line s Scan_ucs4 buf n = charset_goto_line_ucs4 s buf n"

fun run_get_chars :: "CharsetDecodeState \<Rightarrow> scan_funcs \<Rightarrow> byte list \<Rightarrow> nat" where
  "run_get_chars s Scan_8bit buf = charset_get_chars_8bit s buf"
| "run_get_chars s Scan_utf8 buf = charset_get_chars_utf8 s buf"
| "run_get_chars s Scan_ucs2 buf = charset_get_chars_ucs2 s buf"
| "run_get_chars s Scan_ucs4 buf = charset_get_chars_ucs4 s buf"

fun run_goto_char :: "CharsetDecodeState \<Rightarrow> scan_funcs \<Rightarrow> byte list \<Rightarrow> int \<Rightarrow> int" where
  "run_goto_char s Scan_8bit buf n = charset_goto_char_8bit s buf n"
| "run_goto_char s Scan_utf8 buf n = charset_goto_char_utf8 s buf n"
| "run_goto_char s Scan_ucs2 buf n = charset_goto_char_ucs2 s buf n"
| "run_goto_char s Scan_ucs4 buf n = charset_goto_char_ucs4 s buf n"

section \<open>Detection of line ends\<close>

text \<open>One bit per kind of line end seen.\<close>

fun eol_bit :: "EOLType \<Rightarrow> nat" where
  "eol_bit EOL_UNIX = 1" | "eol_bit EOL_DOS = 2" | "eol_bit EOL_MAC = 4"

fun eol_bits_8bit :: "byte list \<Rightarrow> nat \<Rightarrow> nat" where
  "eol_bits_8bit (c # d # p) bits =
     (if c = CR then
        (if d = CR then eol_bits_8bit (d # p) bits
         else if d = LF then eol_bits_8bit p (bits OR eol_bit EOL_DOS)
         else eol_bits_8bit (d # p) (bits OR eol_bit EOL_MAC))
      else if c = LF then eol_bits_8bit (d # p) (bits OR eol_bit EOL_UNIX)
      else eol_bits_8bit (d # p) bits)"
| "eol_bits_8bit p bits = bits"

fun eol_bits_wide :: "'a \<Rightarrow> 'a \<Rightarrow> 'a list \<Rightarrow> nat \<Rightarrow> nat" where
  "eol_bits_wide cr lf (c # d # p) bits =
     (if c = cr then
        (if d = lf then eol_bits_wide cr lf p (bits OR eol_bit EOL_DOS)
         else eol_bits_wide cr lf (d # p) (bits OR eol_bit EOL_MAC))
      else if c = lf then eol_bits_wide cr lf (d # p) (bits OR eol_bit EOL_UNIX)
      else eol_bits_wide cr lf (d # p) bits)"
| "eol_bits_wide cr lf p bits = bits"

definition eol_of_bits :: "nat \<Rightarrow> EOLType \<Rightarrow> EOLType" where
  "eol_of_bits eol_bits eol_type =
     (if eol_bits = 0 then eol_type
      else if eol_bits = eol_bit EOL_UNIX then EOL_UNIX
      else if eol_bits = eol_bit EOL_DOS then EOL_DOS
      else if eol_bits = eol_bit EOL_MAC then EOL_MAC
      else EOL_UNIX)"

definition detect_eol_type_8bit :: "byte list \<Rightarrow> EOLType \<Rightarrow> EOLType" where
  "detect_eol_type_8bit buf eol = eol_of_bits (eol_bits_8bit buf 0) eol"

definition detect_eol_type_16bit :: "byte list \<Rightarrow> charset_ref \<Rightarrow> EOLType \<Rightarrow> EOLType" where
  "detect_eol_type_16bit buf charset eol =
     (let be = (charset = charset_ucs2be)
      in eol_of_bits (eol_bits_wide (unit16 be CR) (unit16 be LF) (units16 buf) 0) eol)"

definition detect_eol_type_32bit :: "byte list \<Rightarrow> charset_ref \<Rightarrow> EOLType \<Rightarrow> EOLType" where
  "detect_eol_type_32bit buf charset eol =
     (let be = (charset = charset_ucs4be)
      in eol_of_bits (eol_bits_wide (unit32 be CR) (unit32 be LF) (units32 buf) 0) eol)"

definition detect_eol_type :: "byte list \<Rightarrow> charset_ref \<Rightarrow> EOLType \<Rightarrow> charset_ref \<times> EOLType" where
  "detect_eol_type buf charset eol =
     (charset,
      if cs_char_size (charset_at charset) = 4 then detect_eol_type_32bit buf charset eol
      else if cs_char_size (charset_at charset) = 2 then detect_eol_type_16bit buf charset eol
      else detect_eol_type_8bit buf eol)"

section \<open>Detection of the charset\<close>

text \<open>What the scan of the file finds: the flags of the source as a record of booleans.\<close>

record detect_bits =
  has_binary :: bool
  has_utf8 :: bool
  trailing_bytes :: bool
  invalid_sequence :: bool
  overlong_encoding :: bool
  has_surrogate :: bool
  invalid_code :: bool

definition no_bits :: detect_bits where
  "no_bits = \<lparr>has_binary = False, has_utf8 = False, trailing_bytes = False, invalid_sequence = False,
     overlong_encoding = False, has_surrogate = False, invalid_code = False\<rparr>"

fun detect_trail :: "nat \<Rightarrow> char32 \<Rightarrow> byte list \<Rightarrow> nat \<Rightarrow> char32 \<times> nat" where
  "detect_trail (Suc n) c (b # p) j =
     (let c1 = b XOR 0x80
      in if c1 > 0x3f then (c, j) else detect_trail n (push_bit 6 c + ucast c1) p (Suc j))"
| "detect_trail n c p j = (c, j)"

definition lead_info :: "byte \<Rightarrow> nat \<times> char32 \<times> char32" where
  "lead_info c =
     (if c < 0xE0 then (1, 0x80, ucast c AND 0x1f)
      else if c < 0xF0 then (2, 0x800, ucast c AND 0x0f)
      else if c < 0xF8 then (3, 0x10000, ucast c AND 0x07)
      else if c < 0xFC then (4, 0x00200000, ucast c AND 0x03)
      else (5, 0x04000000, ucast c AND 0x03))"

function detect_loop :: "byte list \<Rightarrow> detect_bits \<Rightarrow> detect_bits" where
  "detect_loop [] bits = bits"
| "detect_loop (b # r) bits =
     (if b < 32 then detect_loop r (if unat b \<notin> set magic then bits\<lparr>has_binary := True\<rparr> else bits)
      else if b < 0x80 then detect_loop r bits
      else if b < 0xC0 then detect_loop r (bits\<lparr>trailing_bytes := True\<rparr>)
      else let bits = bits\<lparr>has_utf8 := True\<rparr>; (trail, min_code, c) = lead_info b
           in if trail > length r then bits
              else let (c, j) = detect_trail trail c r 0
                   in detect_loop (drop j r)
                        (if j < trail then bits\<lparr>invalid_sequence := True\<rparr>
                         else bits\<lparr>overlong_encoding := overlong_encoding bits \<or> c < min_code,
                                   has_surrogate := has_surrogate bits \<or> (c \<ge> 0xd800 \<and> c \<le> 0xdfff),
                                   invalid_code := invalid_code bits \<or> c = 0xfffe \<or> c = 0xffff \<or> c > 0x10ffff\<rparr>))"
  by pat_completeness auto
termination
  by (relation "measure (\<lambda>(p, bits). length p)") auto

declare detect_loop.simps(2) [simp del]

definition detect_charset :: "byte list \<Rightarrow> EOLType \<Rightarrow> charset_ref \<times> EOLType" where
  "detect_charset buf eol =
     (let bits = detect_loop buf no_bits; sz = length buf
      in if has_utf8 bits \<and> \<not> has_binary bits \<and> \<not> trailing_bytes bits \<and> \<not> invalid_sequence bits then
           (if \<not> overlong_encoding bits \<and> \<not> has_surrogate bits \<and> \<not> invalid_code bits
            then detect_eol_type buf charset_utf8 eol
            else detect_eol_type buf charset_utf8x eol)
         else if sz \<ge> 2 \<and> char_at buf 0 = 0xff \<and> char_at buf 1 = 0xfe then
           (if sz \<ge> 4 \<and> char_at buf 2 = 0 \<and> char_at buf 3 = 0
            then detect_eol_type buf charset_ucs4le eol
            else detect_eol_type buf charset_ucs2le eol)
         else if sz \<ge> 2 \<and> char_at buf 0 = 0xfe \<and> char_at buf 1 = 0xff then
           detect_eol_type buf charset_ucs2be eol
         else if sz \<ge> 4 \<and> char_at buf 0 = 0 \<and> char_at buf 1 = 0 \<and> char_at buf 2 = 0xfe \<and> char_at buf 3 = 0xff then
           detect_eol_type buf charset_ucs4be eol
         else if probe_ucs4le buf then detect_eol_type buf charset_ucs4le eol
         else if probe_ucs4be buf then detect_eol_type buf charset_ucs4be eol
         else if probe_ucs2le buf then detect_eol_type buf charset_ucs2le eol
         else if probe_ucs2be buf then detect_eol_type buf charset_ucs2be eol
         else if has_binary bits then (charset_raw, EOL_UNIX)
         else let eol = snd (detect_eol_type buf charset_raw eol)
              in if eol = EOL_MAC then (charset_mac_roman, eol)
                 else if eol = EOL_DOS \<or> trailing_bytes bits \<or> invalid_sequence bits
                 then (charset_8859_1, eol)
                 else (charset_utf8, eol))"

end
