(* ===== verification/CharsetLaws.thy ===== *)
theory CharsetLaws
  imports Charset
begin

text \<open>
  Laws of the charsets: every codec decodes what it encodes, the positions of lines and of
  characters agree with each other, and what the detection finds.
\<close>

section \<open>Codecs\<close>

text \<open>The contract of a codec: whatever follows, decoding an encoded character gives it back and
  advances by its bytes.\<close>

locale codec_pair =
  fixes enc :: "char32 \<Rightarrow> byte list option"
    and dec :: "byte list \<Rightarrow> char32 \<times> nat"
    and ok :: "char32 \<Rightarrow> bool"
  assumes dec_enc: "enc c = Some bs \<Longrightarrow> ok c \<Longrightarrow> dec (bs @ rest) = (c, length bs)"
    and enc_nonempty: "enc c = Some bs \<Longrightarrow> bs \<noteq> []"

fun encode_text :: "(char32 \<Rightarrow> byte list option) \<Rightarrow> char32 list \<Rightarrow> byte list option" where
  "encode_text enc [] = Some []"
| "encode_text enc (c # cs) =
     (case enc c of None \<Rightarrow> None
      | Some bs \<Rightarrow> (case encode_text enc cs of None \<Rightarrow> None | Some r \<Rightarrow> Some (bs @ r)))"

text \<open>Reading a text: as many characters as the fuel allows, one byte each at least.\<close>

fun decode_text :: "(byte list \<Rightarrow> char32 \<times> nat) \<Rightarrow> nat \<Rightarrow> byte list \<Rightarrow> char32 list" where
  "decode_text dec 0 p = []"
| "decode_text dec (Suc n) p =
     (if p = [] then [] else case dec p of (c, k) \<Rightarrow> c # decode_text dec n (drop k p))"

context codec_pair
begin

lemma text_back:
  "encode_text enc cs = Some bs \<Longrightarrow> \<forall>c \<in> set cs. ok c \<Longrightarrow> length bs \<le> n \<Longrightarrow> decode_text dec n bs = cs"
proof (induction cs arbitrary: bs n)
  case Nil
  then show ?case by (cases n) auto
next
  case (Cons c cs)
  then obtain b r where b: "enc c = Some b" "encode_text enc cs = Some r" "bs = b @ r"
    by (auto split: option.splits)
  have n: "b \<noteq> []" using b enc_nonempty by blast
  then obtain m where m: "n = Suc m" using Cons.prems(3) b(3) by (cases n) auto
  have "length r \<le> m" using n Cons.prems(3) b(3) m by (cases b) auto
  with Cons.IH [OF b(2) _ this] Cons.prems(2) dec_enc [OF b(1), of r] n m b(3) show ?case by simp
qed

end

lemma unat_byte: "c \<le> 0xff \<Longrightarrow> unat (ucast c :: byte) = unat (c :: char32)"
  by (simp add: unsigned_ucast_eq take_bit_nat_eq_self word_le_nat_alt)

lemma idem_nth: "b \<le> 0xff \<Longrightarrow> ucast (table_idem ! unat (b :: char32)) = b"
proof -
  assume "b \<le> 0xff"
  then have u: "unat b < 256" by (simp add: word_le_nat_alt)
  then have "unat (ucast (of_nat (unat b) :: ushort) :: char32) = unat b"
    by (simp add: unsigned_ucast_eq take_bit_nat_eq_self unsigned_of_nat unsigned_take_bit_eq)
  with u show ?thesis by (simp add: table_idem_def word_unat_eq_iff)
qed

lemma decode_idem:
  "ds_table s = table_idem \<Longrightarrow> c \<le> 0xff \<Longrightarrow> decode_8bit s (ucast c # rest) = (c, 1)"
  by (simp add: decode_8bit_def unat_byte idem_nth)

lemma find_index_spec:
  "find_index ts c k = Some i \<Longrightarrow> k \<le> i \<and> i < k + length ts \<and> ucast (ts ! (i - k)) = c"
  by (induction ts c k rule: find_index.induct) (auto split: if_splits simp: nth_Cons')

lemma bit_below: "unat (c :: char32) < 2 ^ k \<Longrightarrow> bit c n \<Longrightarrow> n < k"
proof -
  assume "unat c < 2 ^ k" "bit c n"
  then have "unat (take_bit k c) = unat c" by (simp add: unsigned_take_bit_eq take_bit_nat_eq_self)
  then have "take_bit k c = c" by (simp add: word_unat_eq_iff)
  with \<open>bit c n\<close> show "n < k" by (metis bit_take_bit_iff)
qed

lemma ucs2_join:
  assumes "c < 0x10000"
  shows "(ucast (ucast c :: byte) :: char32) + push_bit 8 (ucast (ucast (drop_bit 8 c) :: byte)) = c"
proof -
  have d: "n < 16" if "bit c n" for n using bit_below [of c 16 n] that assms by (simp add: word_less_nat_alt)
  have "(ucast (ucast c :: byte) :: char32) + push_bit 8 (ucast (ucast (drop_bit 8 c) :: byte)) =
      ucast (ucast c :: byte) OR push_bit 8 (ucast (ucast (drop_bit 8 c) :: byte))"
    by (rule disjunctive_add) (auto simp: bit_simps)
  also have "\<dots> = c"
  proof (rule bit_eqI)
    fix n
    show "bit (ucast (ucast c :: byte) OR push_bit 8 (ucast (ucast (drop_bit 8 c) :: byte)) :: char32) n = bit c n"
      using d [of n] by (cases "n < 8"; cases "n < 16") (auto simp: bit_simps)
  qed
  finally show ?thesis .
qed

lemma ucs4_join:
  "(ucast (ucast c :: byte) :: char32) + push_bit 8 (ucast (ucast (drop_bit 8 c) :: byte)) +
     push_bit 16 (ucast (ucast (drop_bit 16 c) :: byte)) + push_bit 24 (ucast (ucast (drop_bit 24 c) :: byte)) = c"
proof -
  let ?a = "(ucast (ucast c :: byte) :: char32)" and ?b = "push_bit 8 (ucast (ucast (drop_bit 8 c) :: byte)) :: char32"
  let ?c = "push_bit 16 (ucast (ucast (drop_bit 16 c) :: byte)) :: char32"
  let ?d = "push_bit 24 (ucast (ucast (drop_bit 24 c) :: byte)) :: char32"
  have 1: "?a + ?b = ?a OR ?b" by (rule disjunctive_add) (auto simp: bit_simps)
  have 2: "(?a OR ?b) + ?c = ?a OR ?b OR ?c" by (subst disjunctive_add) (auto simp: bit_simps or.assoc)
  have 3: "(?a OR ?b OR ?c) + ?d = ?a OR ?b OR ?c OR ?d" by (subst disjunctive_add) (auto simp: bit_simps or.assoc)
  have "?a OR ?b OR ?c OR ?d = c"
  proof (rule bit_eqI)
    fix n
    show "bit (?a OR ?b OR ?c OR ?d) n = bit c n"
      using bit_imp_le_length [of c n]
      by (cases "n < 8"; cases "n < 16"; cases "n < 24"; cases "n < 32") (auto simp: bit_simps)
  qed
  then show ?thesis by (simp only: 1 2 3)
qed

lemma ucs_join_be:
  "c < 0x10000 \<Longrightarrow> push_bit 8 (ucast (ucast (drop_bit 8 c) :: byte)) + (ucast (ucast c :: byte) :: char32) = c"
  "push_bit 24 (ucast (ucast (drop_bit 24 c) :: byte)) + push_bit 16 (ucast (ucast (drop_bit 16 c) :: byte)) +
     push_bit 8 (ucast (ucast (drop_bit 8 c) :: byte)) + (ucast (ucast c :: byte) :: char32) = c"
  using ucs2_join [of c] ucs4_join [of c] by (simp_all only: ac_simps)

lemmas ucs_joins = ucs2_join ucs4_join ucs_join_be

lemma mac_decode:
  assumes "encode_8bit (charset_at charset_mac_roman) c = Some bs"
  shows "decode_8bit (charset_decode_init charset_mac_roman eol) (bs @ rest) = (c, length bs)"
proof -
  define tab where "tab = decode_8bit_init (charset_at charset_mac_roman)"
  have t: "tab = map of_nat [0..<128] @ table_mac_roman"
    by (simp add: tab_def decode_8bit_init_def charset_structs table_mac_roman_def)
  have s: "ds_table (charset_decode_init charset_mac_roman eol) = tab"
    by (simp add: charset_decode_init_def tab_def charset_structs Let_def)
  have l: "length table_mac_roman = 128" by (simp add: table_mac_roman_def)
  show ?thesis
  proof (cases "c < 128")
    case True
    then have u: "unat c < 128" by (simp add: word_less_nat_alt)
    have "unat (ucast c :: byte) = unat c" using u by (intro unat_byte) (simp add: word_le_nat_alt)
    moreover have "unat (ucast (of_nat (unat c) :: ushort) :: char32) = unat c"
      using u by (simp add: unsigned_ucast_eq take_bit_nat_eq_self unsigned_of_nat unsigned_take_bit_eq)
    moreover have "bs = [ucast c]" using True assms by (simp add: encode_8bit_def charset_structs)
    ultimately show ?thesis
      using u by (simp add: decode_8bit_def s t nth_append word_unat_eq_iff)
  next
    case False
    have gt: "\<not> (c > 255 \<and> c \<le> 0xff)" by auto
    from False gt assms l obtain i where i: "find_index table_mac_roman c 0 = Some i" "bs = [of_nat (128 + i)]"
      by (auto simp: encode_8bit_def Let_def charset_structs split: option.splits)
    from find_index_spec [OF i(1)] l have "i < 128" "ucast (table_mac_roman ! i) = c" by auto
    moreover have k: "unat (of_nat k :: byte) = k" if "k < 256" for k
      using that by (simp add: unsigned_of_nat take_bit_nat_eq_self)
    moreover have "unat (of_nat (128 + i) :: byte) = 128 + i" by (rule k) (use \<open>i < 128\<close> in simp)
    ultimately show ?thesis by (simp add: i(2) decode_8bit_def s t nth_append del: of_nat_add)
  qed
qed

lemma idem_state:
  "r \<in> {charset_raw, charset_8859_1, charset_vt100, charset_7bit} \<Longrightarrow> ds_table (charset_decode_init r eol) = table_idem"
  by (auto simp: charset_decode_init_def charset_structs Let_def)

text \<open>Only the 16 bit charsets encode characters they cannot decode: they keep the low 16 bits.\<close>

definition encodable :: "charset_ref \<Rightarrow> char32 \<Rightarrow> bool" where
  "encodable r c \<longleftrightarrow> (r \<in> {charset_ucs2le, charset_ucs2be} \<longrightarrow> c < 0x10000)"

abbreviation charset_encode :: "charset_ref \<Rightarrow> char32 \<Rightarrow> byte list option" where
  "charset_encode r \<equiv> run_encode r (cs_codec (charset_at r))"

abbreviation charset_decode :: "charset_ref \<Rightarrow> EOLType \<Rightarrow> byte list \<Rightarrow> char32 \<times> nat" where
  "charset_decode r eol \<equiv> run_decode (charset_decode_init r eol) (cs_codec (charset_at r))"

lemma charset_pair: "codec_pair (charset_encode r) (charset_decode r eol) (encodable r)"
proof
  fix c bs and rest :: "byte list"
  assume e: "charset_encode r c = Some bs" and k: "encodable r c"
  note id = decode_idem [OF idem_state [of r eol]]
  have s7: "c \<le> 0x7f \<Longrightarrow> c \<le> 0xff" by (simp add: word_le_nat_alt)
  show "charset_decode r eol (bs @ rest) = (c, length bs)"
  proof (cases r)
    case charset_mac_roman
    with e mac_decode show ?thesis by (simp add: mac_roman_struct_def)
  qed (use e k id s7 in \<open>auto simp: charset_structs encode_raw_def encode_8859_1_def encode_vt100_def encode_7bit_def
      encode_utf8_def decode_utf8_func_def decode_encode encode_ucs2le_def encode_ucs2be_def encode_ucs4le_def encode_ucs4be_def
      decode_ucs2le_def decode_ucs2be_def decode_ucs4le_def decode_ucs4be_def char_at_def ucs_joins
      encodable_def split: if_splits\<close>)
next
  fix c bs
  assume "charset_encode r c = Some bs"
  then show "bs \<noteq> []"
    by (cases r) (auto simp: charset_structs encode_raw_def encode_8859_1_def encode_vt100_def encode_7bit_def
      encode_utf8_def encode_ucs2le_def encode_ucs2be_def encode_ucs4le_def encode_ucs4be_def encode_8bit_def utf8_encode_def Let_def
      split: if_splits option.splits)
qed

interpretation cs: codec_pair "charset_encode r" "charset_decode r eol" "encodable r" for r eol
  by (rule charset_pair)

text \<open>C28. In every charset, decoding what the charset encoded gives the character back and
  advances by exactly its bytes, whatever follows and for every type of line end; so a text
  that can be encoded is read back unchanged. The 16 bit charsets are restricted to the
  characters below 0x10000.\<close>

theorem charset_roundtrip:
  assumes "encode_text (charset_encode r) cs = Some bs" "\<forall>c \<in> set cs. encodable r c"
  shows "decode_text (charset_decode r eol) (length bs) bs = cs \<and>
    (\<forall>c cbs rest. encodable r c \<longrightarrow> charset_encode r c = Some cbs \<longrightarrow>
      charset_decode r eol (cbs @ rest) = (c, length cbs))"
  using cs.text_back [OF assms order_refl] cs.dec_enc by blast

theorem charset_roundtrip_witness:
  "decode_text (charset_decode charset_ucs2be EOL_UNIX) 4 [0x20, 0xAC, 0, 0x41] = [0x20AC, 0x41]"
proof -
  have "encode_text (charset_encode charset_ucs2be) [0x20AC, 0x41] = Some [0x20, 0xAC, 0, 0x41]"
    by (simp add: charset_structs encode_ucs2be_def)
  moreover have "\<forall>c \<in> set [0x20AC, 0x41]. encodable charset_ucs2be c" by (simp add: encodable_def)
  moreover have "4 = length [0x20, 0xAC, 0, 0x41 :: byte]" by simp
  ultimately show ?thesis using charset_roundtrip [of charset_ucs2be "[0x20AC, 0x41]" _ EOL_UNIX] by metis
qed

section \<open>Lines\<close>

lemma pos_memchr_units: "pos_memchr dos nl p lp k = pos_units dos nl LF p lp k"
proof (induction dos nl LF p lp k rule: pos_units.induct)
  case (1 dos nl lp line)
  then show ?case by (subst pos_memchr.simps) (simp add: memchr_def)
next
  case (2 dos nl c p lp line)
  show ?case
  proof (cases "c = nl")
    case True
    with 2(1) [OF True refl] show ?thesis by (subst pos_memchr.simps) (simp add: memchr_def Let_def)
  next
    case False
    with 2(2) [OF False] show ?thesis
      by (subst pos_memchr.simps, subst (asm) pos_memchr.simps) (simp add: memchr_def)
  qed
qed

lemma line_memchr_units: "line_memchr dos nl p lp n = line_units dos nl LF p lp n"
proof (induction dos nl LF p lp n rule: line_units.induct)
  case (1 dos nl lp n)
  then show ?case by (subst line_memchr.simps) (simp add: memchr_def)
next
  case (2 dos nl c p lp n)
  show ?case
  proof (cases "n > 0")
    case True
    note n = True
    show ?thesis
    proof (cases "c = nl")
      case True
      with 2(1) [OF n True refl] n show ?thesis by (subst line_memchr.simps) (simp add: memchr_def Let_def)
    next
      case False
      with 2(2) [OF n False] n show ?thesis
        by (subst line_memchr.simps, subst (asm) line_memchr.simps) (simp add: memchr_def)
    qed
  qed (subst line_memchr.simps, simp)
qed

lemma pos_units_Suc:
  "pos_units dos nl lf p lp (Suc k) = (Suc (fst (pos_units dos nl lf p lp k)), snd (pos_units dos nl lf p lp k))"
  by (induction dos nl lf p lp k rule: pos_units.induct) (simp_all add: Let_def)

lemma pos_units_lines: "fst (pos_units dos nl lf p lp k) = fst (pos_units dos nl lf p [] k)"
  by (induction dos nl lf p lp k rule: pos_units.induct) (simp_all add: Let_def)

lemma skip_lf_split: obtains pre where "p = pre @ skip_lf dos lf p" "pre = [] \<or> (dos \<and> pre = [lf])"
proof (cases "dos \<and> p \<noteq> [] \<and> hd p = lf")
  case True
  with that [of "[lf]"] show thesis by (cases p) (auto simp: skip_lf_def)
next
  case False
  with that [of "[]"] show thesis by (auto simp: skip_lf_def)
qed

lemma skip_lf_prefix:
  assumes "u = pre @ skip_lf dos lf u" "pre = [] \<or> (dos \<and> pre = [lf])" "skip_lf dos lf u = a @ q"
  shows "skip_lf dos lf (pre @ a) = a"
proof (cases "pre = []")
  case True
  then have e: "skip_lf dos lf u = u" "u = a @ q" using assms(1,3) by simp_all
  show ?thesis
  proof (cases "a = []")
    case False
    with e(2) have h: "u \<noteq> []" "hd u = hd a" by simp_all
    have "\<not> (dos \<and> hd u = lf)"
    proof
      assume "dos \<and> hd u = lf"
      with h(1) e(1) have "tl u = u" by (simp add: skip_lf_def)
      with h(1) show False by (cases u) simp_all
    qed
    with True h(2) show ?thesis by (auto simp: skip_lf_def)
  qed (simp add: True skip_lf_def)
qed (use assms(2) in \<open>auto simp: skip_lf_def\<close>)

text \<open>Going to line \<open>n\<close> of a block with at least \<open>n\<close> line ends leaves before it a prefix of
  exactly \<open>n\<close> lines.\<close>

lemma goto_lines:
  "0 < n \<Longrightarrow> n \<le> int (fst (pos_units dos nl lf p lp 0)) \<Longrightarrow>
    \<exists>a. p = a @ line_units dos nl lf p lp n \<and> a \<noteq> [] \<and> (\<forall>lp' k. pos_units dos nl lf a lp' k = (k + nat n, 0))"
proof (induction dos nl lf p lp n rule: line_units.induct)
  case (2 dos nl lf c p lp n)
  show ?case
  proof (cases "c = nl")
    case True
    define p' where "p' = skip_lf dos lf p"
    obtain pre where pre: "p = pre @ p'" "pre = [] \<or> (dos \<and> pre = [lf])"
      using skip_lf_split [of p dos lf] unfolding p'_def by blast
    show ?thesis
    proof (cases "n = 1")
      case True
      have "line_units dos nl lf p' p' 0 = p'" by (cases p') simp_all
      moreover have "pos_units dos nl lf (c # pre) lp' k = (Suc k, 0)" for lp' k
        using pre(2) \<open>c = nl\<close> by (auto simp: skip_lf_def)
      moreover have "line_units dos nl lf (c # p) lp n = line_units dos nl lf p' p' 0"
        using True \<open>c = nl\<close> by (simp add: Let_def flip: p'_def)
      moreover have "c # p = (c # pre) @ p'" using pre(1) by simp
      ultimately show ?thesis using True by (intro exI [of _ "c # pre"]) simp
    next
      case False
      then have n: "0 < n - 1" using 2 by simp
      have "n - 1 \<le> int (fst (pos_units dos nl lf p' p' 0))"
        using "2.prems"(2) True by (simp add: Let_def pos_units_Suc flip: p'_def)
      from "2.IH"(1) [OF _ True p'_def n this] "2.prems"(1)
      obtain a where a: "p' = a @ line_units dos nl lf p' p' (n - 1)" "a \<noteq> []"
        "\<forall>lp' k. pos_units dos nl lf a lp' k = (k + nat (n - 1), 0)" by blast
      have "skip_lf dos lf (pre @ a) = a"
        using skip_lf_prefix [of p pre dos lf a] pre a(1) unfolding p'_def by blast
      then have "pos_units dos nl lf (c # pre @ a) lp' k = (k + nat n, 0)" for lp' k
        using a(3) True n by (simp add: Let_def nat_diff_distrib)
      moreover have "line_units dos nl lf (c # p) lp n = line_units dos nl lf p' p' (n - 1)"
        using True "2.prems"(1) by (simp add: Let_def flip: p'_def)
      moreover have "c # p = (c # pre @ a) @ line_units dos nl lf p' p' (n - 1)"
        using pre(1) a(1) by (metis append_Cons append_assoc)
      ultimately show ?thesis by (intro exI [of _ "c # pre @ a"]) simp
    qed
  next
    case False
    with "2.IH"(2) [OF _ False] "2.prems" obtain a where "p = a @ line_units dos nl lf p lp n"
      "\<forall>lp' k. pos_units dos nl lf a lp' k = (k + nat n, 0)" by auto
    with False "2.prems"(1) show ?thesis by (intro exI [of _ "c # a"]) simp
  qed
qed simp

lemma pos_units_none: "fst (pos_units dos nl lf p lp k) = k \<Longrightarrow> snd (pos_units dos nl lf p lp k) = length lp"
proof -
  have ge: "k \<le> fst (pos_units dos nl lf p lp k)" for p lp :: "'b list" and k and dos and nl lf :: 'b
    by (induction dos nl lf p lp k rule: pos_units.induct) (auto simp: Let_def)
  show "fst (pos_units dos nl lf p lp k) = k \<Longrightarrow> ?thesis"
  proof (induction dos nl lf p lp k rule: pos_units.induct)
    case (2 dos nl lf c p lp k)
    have "Suc k \<le> fst (pos_units dos nl lf (skip_lf dos lf p) (skip_lf dos lf p) (Suc k))"
      by (rule ge)
    with 2 show ?case by (cases "c = nl") (simp_all add: Let_def)
  qed simp
qed

lemma goto_last_line:
  "int (fst (pos_units dos nl lf p lp 0)) \<le> n \<Longrightarrow> length (line_units dos nl lf p lp n) = snd (pos_units dos nl lf p lp 0)"
proof (induction dos nl lf p lp n rule: line_units.induct)
  case (2 dos nl lf c p lp n)
  show ?case
  proof (cases "n > 0")
    case True
    with 2 show ?thesis by (cases "c = nl") (simp_all add: Let_def pos_units_Suc)
  next
    case False
    with 2 pos_units_none [of dos nl lf "c # p" lp 0] show ?thesis by (simp del: pos_units.simps)
  qed
qed simp

text \<open>The scan of a whole block of units.\<close>

definition unit_pos :: "bool \<Rightarrow> 'a \<Rightarrow> 'a \<Rightarrow> 'a list \<Rightarrow> nat \<times> nat" where
  "unit_pos dos nl lf u = pos_units dos nl lf (skip_lf dos lf u) (skip_lf dos lf u) 0"

definition unit_line :: "bool \<Rightarrow> 'a \<Rightarrow> 'a \<Rightarrow> 'a list \<Rightarrow> int \<Rightarrow> nat" where
  "unit_line dos nl lf u n = length u - length (line_units dos nl lf (skip_lf dos lf u) (skip_lf dos lf u) n)"

lemma unit_line_last: "int (fst (unit_pos dos nl lf u)) \<le> n \<Longrightarrow> unit_line dos nl lf u n = length u - snd (unit_pos dos nl lf u)"
  by (simp add: unit_line_def unit_pos_def goto_last_line)

lemma unit_line_pos:
  assumes "0 \<le> n" "n \<le> int (fst (unit_pos dos nl lf u))"
  shows "unit_pos dos nl lf (take (unit_line dos nl lf u n) u) = (nat n, 0)"
proof -
  define p where "p = skip_lf dos lf u"
  obtain pre where pre: "u = pre @ p" "pre = [] \<or> (dos \<and> pre = [lf])"
    using skip_lf_split [of u dos lf] unfolding p_def by blast
  show ?thesis
  proof (cases "n = 0")
    case True
    have "line_units dos nl lf p p 0 = p" by (cases p) simp_all
    then have "unit_line dos nl lf u n = length pre"
      using True arg_cong [OF pre(1), of length] unfolding unit_line_def p_def [symmetric] by simp
    then have "take (unit_line dos nl lf u n) u = pre" using pre(1) by simp
    moreover have "skip_lf dos lf pre = []" using pre(2) by (auto simp: skip_lf_def)
    ultimately show ?thesis using True by (simp add: unit_pos_def)
  next
    case False
    with assms goto_lines [of n dos nl lf p p] obtain a where a: "p = a @ line_units dos nl lf p p n"
      "\<forall>lp' k. pos_units dos nl lf a lp' k = (k + nat n, 0)" by (auto simp: unit_pos_def p_def)
    define q where "q = line_units dos nl lf p p n"
    have "unit_line dos nl lf u n = length u - length q"
      unfolding unit_line_def p_def [symmetric] q_def ..
    moreover have "u = pre @ a @ q" using pre(1) a(1) unfolding q_def [symmetric] by simp
    ultimately have "take (unit_line dos nl lf u n) u = pre @ a" by simp
    moreover have "skip_lf dos lf (pre @ a) = a"
      using skip_lf_prefix [of u pre dos lf a q] pre a(1) unfolding p_def q_def by simp
    ultimately show ?thesis using a(2) by (simp add: unit_pos_def)
  qed
qed

lemma take_units16: "units16 (take (2 * k) buf) = take k (units16 buf)"
proof (induction buf arbitrary: k rule: units16.induct)
  case (1 a b p)
  show ?case
  proof (cases k)
    case (Suc j)
    have "take (2 * k) (a # b # p) = a # b # take (2 * j) p"
      by (simp add: Suc)
    with Suc 1 show ?thesis by simp
  qed simp
qed (auto simp: take_Cons' eval_nat_numeral)

lemma take_units32: "units32 (take (4 * k) buf) = take k (units32 buf)"
proof (induction buf arbitrary: k rule: units32.induct)
  case (1 a b c d p)
  show ?case
  proof (cases k)
    case (Suc j)
    have "take (4 * k) (a # b # c # d # p) = a # b # c # d # take (4 * j) p"
      by (simp add: Suc eval_nat_numeral)
    with Suc 1 show ?thesis by simp
  qed simp
qed (auto simp: take_Cons' eval_nat_numeral)

lemma length_units16: "length (units16 buf) = length buf div 2"
  by (induction buf rule: units16.induct) auto

lemma length_units32: "length (units32 buf) = length buf div 4"
  by (induction buf rule: units32.induct) auto

text \<open>The contract of the line functions of a charset: going to a line that exists, the part of
  the block before it has just that many lines; going beyond the last line leads to its start.\<close>

locale line_scanner =
  fixes get_pos :: "byte list \<Rightarrow> nat \<times> nat" and goto_line :: "byte list \<Rightarrow> int \<Rightarrow> nat" and w :: nat
  assumes before_line: "0 \<le> n \<Longrightarrow> n \<le> int (fst (get_pos buf)) \<Longrightarrow> get_pos (take (goto_line buf n) buf) = (nat n, 0)"
    and last_line: "int (fst (get_pos buf)) \<le> n \<Longrightarrow> goto_line buf n = w * (length buf div w - snd (get_pos buf))"
begin

lemma goto_own_line: "get_pos (take (goto_line buf (int (fst (get_pos buf)))) buf) = (fst (get_pos buf), 0)"
  using before_line [of "int (fst (get_pos buf))" buf] by simp

lemma goto_line_stops: "int (fst (get_pos buf)) \<le> n \<Longrightarrow> goto_line buf n = goto_line buf (int (fst (get_pos buf)))"
  by (simp add: last_line)

end

lemma scan_8bit: "line_scanner (charset_get_pos_8bit s) (charset_goto_line_8bit s) 1"
proof -
  have g: "charset_get_pos_8bit s b = unit_pos (ds_eol_type s = EOL_DOS) (ds_eol_char s) LF b"
    "charset_goto_line_8bit s b k = unit_line (ds_eol_type s = EOL_DOS) (ds_eol_char s) LF b k" for b k
    by (simp_all add: charset_get_pos_8bit_def charset_goto_line_8bit_def unit_pos_def unit_line_def
        pos_memchr_units line_memchr_units Let_def)
  show ?thesis by unfold_locales (simp_all add: g unit_line_pos unit_line_last)
qed

lemma scan_ucs2: "line_scanner (charset_get_pos_ucs2 s) (charset_goto_line_ucs2 s) 2"
proof -
  define be where "be = (ds_charset s = charset_ucs2be)"
  have g: "charset_get_pos_ucs2 s b = unit_pos (ds_eol_type s = EOL_DOS) (unit16 be (ds_eol_char s)) (unit16 be LF) (units16 b)"
    "charset_goto_line_ucs2 s b k = 2 * unit_line (ds_eol_type s = EOL_DOS) (unit16 be (ds_eol_char s)) (unit16 be LF) (units16 b) k" for b k
    by (simp_all add: charset_get_pos_ucs2_def charset_goto_line_ucs2_def unit_pos_def unit_line_def Let_def be_def)
  show ?thesis by unfold_locales (simp_all add: g take_units16 unit_line_pos unit_line_last length_units16)
qed

lemma scan_ucs4: "line_scanner (charset_get_pos_ucs4 s) (charset_goto_line_ucs4 s) 4"
proof -
  define be where "be = (ds_charset s = charset_ucs4be)"
  have g: "charset_get_pos_ucs4 s b = unit_pos (ds_eol_type s = EOL_DOS) (unit32 be (ds_eol_char s)) (unit32 be LF) (units32 b)"
    "charset_goto_line_ucs4 s b k = 4 * unit_line (ds_eol_type s = EOL_DOS) (unit32 be (ds_eol_char s)) (unit32 be LF) (units32 b) k" for b k
    by (simp_all add: charset_get_pos_ucs4_def charset_goto_line_ucs4_def unit_pos_def unit_line_def Let_def be_def)
  show ?thesis by unfold_locales (simp_all add: g take_units32 unit_line_pos unit_line_last length_units32)
qed

interpretation l8: line_scanner "charset_get_pos_8bit s" "charset_goto_line_8bit s" 1 for s by (rule scan_8bit)
interpretation l16: line_scanner "charset_get_pos_ucs2 s" "charset_goto_line_ucs2 s" 2 for s by (rule scan_ucs2)
interpretation l32: line_scanner "charset_get_pos_ucs4 s" "charset_goto_line_ucs4 s" 4 for s by (rule scan_ucs4)

text \<open>C29. In the 8, 16 and 32 bit charsets, for all three kinds of line ends, going to line \<open>n\<close> of
  a block and counting the lines before that place gives \<open>n\<close> and column 0; going beyond the
  last line leads to the start of the last line, as far from the end as its column count.\<close>

theorem line_positions:
  assumes "sc \<noteq> Scan_utf8" "0 \<le> n" "w = (case sc of Scan_8bit \<Rightarrow> 1 | Scan_ucs2 \<Rightarrow> 2 | _ \<Rightarrow> 4)"
  shows "(n \<le> int (fst (run_get_pos s sc buf)) \<longrightarrow>
      run_get_pos s sc (take (run_goto_line s sc buf n) buf) = (nat n, 0)) \<and>
    (int (fst (run_get_pos s sc buf)) \<le> n \<longrightarrow>
      run_goto_line s sc buf n = w * (length buf div w - snd (run_get_pos s sc buf)))"
  using assms
  by (cases sc) (simp_all add: l8.before_line l8.last_line l16.before_line l16.last_line l32.before_line l32.last_line del: One_nat_def)

theorem line_positions_witness:
  "charset_get_pos_8bit (charset_decode_init charset_8859_1 EOL_DOS)
     (take (charset_goto_line_8bit (charset_decode_init charset_8859_1 EOL_DOS) (cstr ''a'' @ [13, 10] @ cstr ''bc'') 1)
       (cstr ''a'' @ [13, 10] @ cstr ''bc'')) = (1, 0)"
proof -
  let ?s = "charset_decode_init charset_8859_1 EOL_DOS" and ?b = "cstr ''a'' @ [13, 10] @ cstr ''bc''"
  have "fst (run_get_pos ?s Scan_8bit ?b) = 1"
    by (simp add: charset_get_pos_8bit_def pos_memchr_units charset_decode_init_def charset_structs cstr_def skip_lf_def Let_def)
  then have "run_get_pos ?s Scan_8bit (take (run_goto_line ?s Scan_8bit ?b 1) ?b) = (nat 1, 0)"
    by (intro line_positions [THEN conjunct1, rule_format]) simp_all
  then show ?thesis by simp
qed

text \<open>The column of the UTF-8 charset disagrees with the 8 bit one on DOS files: it counts the
  line feed after the carriage return as a character of the next line.\<close>

theorem utf8_dos_column:
  "charset_get_pos_utf8 (charset_decode_init charset_utf8 EOL_DOS) [13, 10, 0x61, 0x62] = (1, 3) \<and>
   charset_get_pos_8bit (charset_decode_init charset_8859_1 EOL_DOS) [13, 10, 0x61, 0x62] = (1, 2)"
  by (simp add: charset_get_pos_8bit_def pos_memchr_units charset_get_pos_utf8_def utf8_last_line.simps memchr_def utf8_length_cases
      charset_decode_init_def charset_structs skip_lf_def Let_def)

section \<open>Characters\<close>

lemma count_goto:
  "0 \<le> pos \<Longrightarrow> 0 \<le> nb \<Longrightarrow> nb \<le> pos \<Longrightarrow>
    count_units sk (take (goto_unit sk p nb pos) p) = min (nat (pos - nb)) (count_units sk p) \<and> goto_unit sk p nb pos \<le> length p"
proof (induction sk p nb pos rule: goto_unit.induct)
  case (2 sk c p nb pos)
  show ?case
  proof (cases "sk c")
    case False
    show ?thesis
    proof (cases "pos \<le> nb")
      case True
      with 2 False show ?thesis by simp
    next
      case less: False
      then have "nat (pos - nb) = Suc (nat (pos - (nb + 1)))" using 2 by simp
      with 2 less False show ?thesis by simp
    qed
  qed (use 2 in simp)
qed simp

lemma goto_unit_0:
  "0 \<le> pos \<Longrightarrow> count_units sk (take (goto_unit sk p 0 pos) p) = min (nat pos) (count_units sk p)"
  "0 \<le> pos \<Longrightarrow> goto_unit sk p 0 pos \<le> length p"
  using count_goto [of pos 0 sk p] by simp_all

text \<open>C30. In every charset and for all kinds of line ends, the place of character \<open>pos\<close> of a block
  is inside the block and has exactly \<open>pos\<close> characters before it, all of them when the block
  has fewer.\<close>

theorem char_positions:
  assumes "0 \<le> pos"
  shows "run_get_chars s sc (take (nat (run_goto_char s sc buf pos)) buf) = min (nat pos) (run_get_chars s sc buf) \<and>
    0 \<le> run_goto_char s sc buf pos \<and> run_goto_char s sc buf pos \<le> int (length buf)"
proof (cases sc)
  case Scan_8bit
  show ?thesis
    unfolding Scan_8bit run_get_chars.simps run_goto_char.simps charset_get_chars_8bit_def charset_goto_char_8bit_def
    using assms by (cases "ds_eol_type s = EOL_DOS") (auto simp: goto_unit_0 [OF assms])
next
  case Scan_utf8
  have sk: "(\<lambda>c. (c = LF \<and> ds_eol_type s = EOL_DOS) \<or> \<not> c XOR 0x80 > 0x3f) =
      (\<lambda>c. c XOR 0x80 \<le> 0x3f \<or> (c = LF \<and> ds_eol_type s = EOL_DOS))" by (auto simp: not_less)
  show ?thesis
    unfolding Scan_utf8 run_get_chars.simps run_goto_char.simps charset_get_chars_utf8_def charset_goto_char_utf8_def sk
    by (simp add: goto_unit_0 [OF assms])
next
  case Scan_ucs2
  have u: "2 * goto_unit sk (units16 buf) 0 pos \<le> length buf" for sk
    using goto_unit_0(2) [OF assms, of sk "units16 buf"] by (simp add: length_units16)
  have "2 * int (goto_unit sk (units16 buf) 0 pos) \<le> int (length buf)" for sk using u [of sk] by linarith
  with assms show ?thesis
    unfolding Scan_ucs2 run_get_chars.simps run_goto_char.simps charset_get_chars_ucs2_def charset_goto_char_ucs2_def Let_def
    by (cases "ds_eol_type s = EOL_DOS")
       (auto simp: goto_unit_0(1) [OF assms] nat_mult_distrib take_units16 min_def)
next
  case Scan_ucs4
  have u: "4 * goto_unit sk (units32 buf) 0 pos \<le> length buf" for sk
    using goto_unit_0(2) [OF assms, of sk "units32 buf"] by (simp add: length_units32)
  have "4 * int (goto_unit sk (units32 buf) 0 pos) \<le> int (length buf)" for sk using u [of sk] by linarith
  with assms show ?thesis
    unfolding Scan_ucs4 run_get_chars.simps run_goto_char.simps charset_get_chars_ucs4_def charset_goto_char_ucs4_def Let_def
    by (cases "ds_eol_type s = EOL_DOS")
       (auto simp: goto_unit_0(1) [OF assms] nat_mult_distrib take_units32 min_def)
qed

theorem char_positions_witness:
  "run_get_chars (charset_decode_init charset_utf8 EOL_UNIX) Scan_utf8
     (take (nat (run_goto_char (charset_decode_init charset_utf8 EOL_UNIX) Scan_utf8 [0xC3, 0xA9, 0x61] 1)) [0xC3, 0xA9, 0x61])
    = min (nat 1) (run_get_chars (charset_decode_init charset_utf8 EOL_UNIX) Scan_utf8 [0xC3, 0xA9, 0x61])"
  using char_positions [of 1 "charset_decode_init charset_utf8 EOL_UNIX" Scan_utf8 "[0xC3, 0xA9, 0x61]"] by linarith

end
