(* ===== verification/CharsetDetect.thy ===== *)
theory CharsetDetect
  imports CharsetLaws
begin

text \<open>
  What the detection of charsets and line ends finds on texts of a known kind, and the
  registry of charsets.
\<close>

section \<open>Line ends\<close>

fun eol_bytes :: "EOLType \<Rightarrow> byte list" where
  "eol_bytes EOL_UNIX = [LF]" | "eol_bytes EOL_DOS = [CR, LF]" | "eol_bytes EOL_MAC = [CR]"

definition plain_line :: "byte list \<Rightarrow> bool" where
  "plain_line l \<longleftrightarrow> CR \<notin> set l \<and> LF \<notin> set l"

text \<open>Lines with their ends, then an unfinished last line.\<close>

definition lines_text :: "EOLType \<Rightarrow> byte list list \<Rightarrow> byte list \<Rightarrow> byte list" where
  "lines_text k ls t = concat (map (\<lambda>l. l @ eol_bytes k) ls) @ t"

lemma lines_text_simps [simp]:
  "lines_text k [] t = t" "lines_text k (l # ls) t = l @ eol_bytes k @ lines_text k ls t"
  by (simp_all add: lines_text_def)

lemma lines_text_nonempty: "t \<noteq> [] \<Longrightarrow> lines_text k ls t \<noteq> []"
  by (simp add: lines_text_def)

lemma eol_bits_plain: "plain_line l \<Longrightarrow> r \<noteq> [] \<Longrightarrow> eol_bits_8bit (l @ r) bits = eol_bits_8bit r bits"
proof (induction l)
  case (Cons c l)
  then show ?case by (cases "l @ r") (auto simp: plain_line_def)
qed simp

lemma eol_bits_last: "plain_line t \<Longrightarrow> eol_bits_8bit t bits = bits"
  by (induction t bits rule: eol_bits_8bit.induct) (auto simp: plain_line_def)

lemma eol_bits_text:
  assumes "\<forall>l \<in> set ls. plain_line l" "plain_line t" "t \<noteq> []"
  shows "eol_bits_8bit (lines_text k ls t) bits = (if ls = [] then bits else bits OR eol_bit k)"
  using assms(1)
proof (induction ls arbitrary: bits)
  case Nil
  with assms(2) show ?case by (simp add: eol_bits_last)
next
  case (Cons l ls)
  define r where "r = lines_text k ls t"
  have r: "r \<noteq> []" using assms(3) by (simp add: r_def lines_text_nonempty)
  have IH: "eol_bits_8bit r b = (if ls = [] then b else b OR eol_bit k)" for b
    using Cons by (simp add: r_def)
  have "eol_bits_8bit (eol_bytes k @ r) bits = bits OR eol_bit k"
  proof (cases k)
    case EOL_UNIX
    with r IH show ?thesis by (cases r) (simp_all add: or.assoc)
  next
    case EOL_DOS
    with IH show ?thesis by (simp add: or.assoc)
  next
    case EOL_MAC
    show ?thesis
    proof (cases "hd r = CR")
      case True
      have "ls \<noteq> []"
      proof
        assume "ls = []"
        then have "hd t = CR" using True by (simp add: r_def)
        with assms(2,3) show False by (cases t) (auto simp: plain_line_def)
      qed
      with True r IH EOL_MAC show ?thesis by (cases r) simp_all
    next
      case False
      have "hd r \<noteq> LF"
        using assms(2,3) Cons.prems EOL_MAC by (cases ls; cases t) (auto simp: r_def plain_line_def hd_append, metis hd_in_set)
      with False r IH EOL_MAC show ?thesis by (cases r) (simp_all add: or.assoc)
    qed
  qed
  with eol_bits_plain [of l "eol_bytes k @ r" bits] Cons.prems r show ?case by (simp add: r_def)
qed

text \<open>A file whose lines all end in the same way, with some text after the last line end, is
  recognised as Unix, DOS or Mac whatever the default; a file with no line end keeps the default.\<close>

theorem detect_eol_uniform:
  assumes "\<forall>l \<in> set ls. plain_line l" "plain_line t" "t \<noteq> []"
  shows "detect_eol_type_8bit (lines_text k ls t) d = (if ls = [] then d else k)"
  using eol_bits_text [OF assms, of k 0] by (cases k) (simp_all add: detect_eol_type_8bit_def eol_of_bits_def)

theorem detect_eol_uniform_witness:
  "detect_eol_type_8bit (lines_text EOL_DOS [cstr ''ab'', []] (cstr ''c'')) EOL_UNIX = EOL_DOS"
  using detect_eol_uniform [of "[cstr ''ab'', []]" "cstr ''c''" EOL_DOS EOL_UNIX] by (simp add: plain_line_def cstr_def)

section \<open>UTF-8 files\<close>

definition text_char :: "char32 \<Rightarrow> bool" where
  "text_char c \<longleftrightarrow> (if c < 0x80 then c \<ge> 32 \<or> unat c \<in> set magic
     else \<not> (c \<ge> 0xd800 \<and> c \<le> 0xdfff) \<and> c \<noteq> 0xfffe \<and> c \<noteq> 0xffff \<and> c \<le> 0x10ffff)"

lemma detect_trail_decode: "decode_trail n c p = Some c' \<Longrightarrow> detect_trail n c p j = (c', j + n)"
  by (induction n c p arbitrary: j rule: decode_trail.induct) (auto simp: Let_def split: if_splits)

lemma detect_lead:
  assumes "0xC0 \<le> b" "lead_info b = (n, mc, x)" "decode_trail n x p = Some c" "mc \<le> c" "text_char c" "\<not> c < 0x80"
  shows "detect_loop (b # p) bits = detect_loop (drop n p) (bits\<lparr>has_utf8 := True\<rparr>)"
proof -
  have b: "\<not> b < 32" "\<not> b < 0x80" "\<not> b < 0xC0" using assms(1) by (auto simp: word_less_nat_alt word_le_nat_alt)
  have n: "\<not> n > length p" using decode_trail_length [OF assms(3)] by simp
  have c: "(c < mc) = False" "(c \<ge> 0xd800 \<and> c \<le> 0xdfff) = False"
    "(c = 0xfffe) = False" "(c = 0xffff) = False" "(c > 0x10ffff) = False"
    using assms(4-6) by (auto simp: text_char_def not_less)
  show ?thesis
    using b n by (cases bits) (simp add: detect_loop.simps(2) assms(2) Let_def detect_trail_decode [OF assms(3)] c)
qed

lemma lead_mask:
  assumes "unat b = lo + unat x" "2 ^ j dvd lo" "unat (x :: char32) < 2 ^ j" "j \<le> 6"
  shows "ucast (b :: byte) AND mask j = x"
proof -
  have "unat (ucast b AND mask j :: char32) = take_bit j (unat b)"
    by (simp add: unat_ucast32 unsigned_take_bit_eq flip: take_bit_eq_mask)
  also have "\<dots> = unat x" using assms(1-3) by (auto simp: take_bit_eq_mod mod_add_eq [symmetric, of lo])
  finally show ?thesis by (simp add: word_unat_eq_iff)
qed

lemma detect_char:
  assumes "text_char c"
  shows "detect_loop (utf8_encode c @ r) bits = detect_loop r (if c < 0x80 then bits else bits\<lparr>has_utf8 := True\<rparr>)"
proof -
  note lt = word_less_nat_alt word_le_nat_alt
  consider "c < 0x80" | "\<not> c < 0x80" "c < 0x800" | "\<not> c < 0x800" "c < 0x10000" | "\<not> c < 0x10000" by blast
  then show ?thesis
  proof cases
    case 1
    then have u: "unat (ucast c :: byte) = unat c" by (intro unat_byte) (simp add: lt)
    have "\<not> ucast c < (32 :: byte) \<or> unat c \<in> set magic" using assms 1 u by (auto simp: text_char_def lt)
    moreover have "(ucast c :: byte) < 0x80" using 1 u by (simp add: lt)
    ultimately show ?thesis using 1 u by (auto simp: utf8_encode_def detect_loop.simps(2))
  next
    case 2
    then have x: "unat (drop_bit 6 c) < 32" using unat_drop_less [of c 6 5] by (simp add: lt)
    define b :: byte where "b = ucast (drop_bit 6 c) OR 0xc0"
    have ub: "unat b = 192 + unat (drop_bit 6 c)" unfolding b_def by (rule lead_bytes(1) [OF x])
    have m: "ucast b AND 0x1f = drop_bit 6 c" using lead_mask [OF ub, of 5] x by (simp add: mask_eq_exp_minus_1)
    have "lead_info b = (1, 0x80, drop_bit 6 c)" using ub x m by (simp add: lead_info_def lt)
    from detect_lead [OF _ this decode_chain(1) _ assms] ub 2 show ?thesis
      by (simp add: utf8_encode_def lt flip: b_def)
  next
    case 3
    then have x: "unat (drop_bit 12 c) < 16" using unat_drop_less [of c 12 4] by (simp add: lt)
    define b :: byte where "b = ucast (drop_bit 12 c) OR 0xe0"
    have ub: "unat b = 224 + unat (drop_bit 12 c)" unfolding b_def by (rule lead_bytes(2) [OF x])
    have m: "ucast b AND 0x0f = drop_bit 12 c" using lead_mask [OF ub, of 4] x by (simp add: mask_eq_exp_minus_1)
    have "lead_info b = (2, 0x800, drop_bit 12 c)" using ub x m by (simp add: lead_info_def lt)
    from detect_lead [OF _ this decode_chain(2) _ assms] ub 3 show ?thesis
      by (simp add: utf8_encode_def lt flip: b_def)
  next
    case 4
    then have "c < 0x00200000" using assms by (auto simp: text_char_def lt)
    then have x: "unat (drop_bit 18 c) < 8" using unat_drop_less [of c 18 3] by (simp add: lt)
    define b :: byte where "b = ucast (drop_bit 18 c) OR 0xf0"
    have ub: "unat b = 240 + unat (drop_bit 18 c)" unfolding b_def by (rule lead_bytes(3) [OF x])
    have m: "ucast b AND 0x07 = drop_bit 18 c" using lead_mask [OF ub, of 3] x by (simp add: mask_eq_exp_minus_1)
    have "lead_info b = (3, 0x10000, drop_bit 18 c)" using ub x m by (simp add: lead_info_def lt)
    from detect_lead [OF _ this decode_chain(3) _ assms] ub 4 \<open>c < 0x00200000\<close> show ?thesis
      by (simp add: utf8_encode_def lt flip: b_def)
  qed
qed

abbreviation utf8_bytes :: "char32 list \<Rightarrow> byte list" where
  "utf8_bytes cs \<equiv> concat (map utf8_encode cs)"

lemma detect_text:
  "\<forall>c \<in> set cs. text_char c \<Longrightarrow>
    detect_loop (utf8_bytes cs) bits = (if \<exists>c \<in> set cs. \<not> c < 0x80 then bits\<lparr>has_utf8 := True\<rparr> else bits)"
  by (induction cs arbitrary: bits) (auto simp: detect_char)

text \<open>C31. A file in UTF-8 with at least one character beyond ASCII, whose control characters are
  those of text files and whose characters are valid, is detected as UTF-8; its line ends are
  determined as in the 8 bit charsets.\<close>

theorem detect_utf8_files:
  assumes "\<forall>c \<in> set cs. text_char c" "\<exists>c \<in> set cs. \<not> c < 0x80"
  shows "detect_charset (utf8_bytes cs) d = (charset_utf8, detect_eol_type_8bit (utf8_bytes cs) d)"
  using detect_text [OF assms(1), of no_bits] assms(2)
  by (simp add: detect_charset_def no_bits_def detect_eol_type_def charset_structs Let_def)

theorem detect_utf8_files_witness:
  "fst (detect_charset (utf8_bytes [0x63, 0x61, 0x66, 0xE9, 10]) EOL_DOS) = charset_utf8"
  using detect_utf8_files [of "[0x63, 0x61, 0x66, 0xE9, 10]" EOL_DOS] by (simp add: text_char_def magic_def)

section \<open>The registry\<close>

lemma register_set: "set (qe_register_charset l c) = insert c (set l)"
  by (induction l c rule: qe_register_charset.induct) auto

lemma register_distinct: "distinct l \<Longrightarrow> distinct (qe_register_charset l c)"
  by (induction l c rule: qe_register_charset.induct) (auto simp: register_set)

lemma register_known: "c \<in> set l \<Longrightarrow> qe_register_charset l c = l"
  by (induction l c rule: qe_register_charset.induct) auto

lemma register_new: "c \<notin> set l \<Longrightarrow> qe_register_charset l c = l @ [c]"
  by (induction l c rule: qe_register_charset.induct) auto

text \<open>Names compare by their normal forms, computed once.\<close>

definition names_of :: "charset_ref \<Rightarrow> char32 list list" where
  "names_of r = xnorm (cs_name (charset_at r)) #
     (case cs_aliases (charset_at r) of None \<Rightarrow> [] | Some a \<Rightarrow> map xnorm (bar_words a))"

lemma lex_cmp_0: "lex_cmp xs ys = 0 \<longleftrightarrow> xs = ys"
  by (induction xs ys rule: lex_cmp.induct) auto

lemma charset_names_nonzero:
  "0 \<notin> set (cs_name (charset_at r))" "cs_aliases (charset_at r) = Some a \<Longrightarrow> 0 \<notin> set a"
  by (cases r; auto simp: charset_structs cstr_def)+

lemma find_charset_names:
  assumes "name \<noteq> []" "0 \<notin> set name" "BAR \<notin> set name"
  shows "find_charset_loop l name = find (\<lambda>r. xnorm name \<in> set (names_of r)) l"
proof (induction l)
  case (Cons r l)
  have "strxcmp (cs_name (charset_at r)) name = 0 \<longleftrightarrow> xnorm (cs_name (charset_at r)) = xnorm name"
    using charset_names_nonzero(1) assms(2) by (simp add: strxcmp_lex lex_cmp_0)
  moreover have "strxfind (Some a) name \<longleftrightarrow> xnorm name \<in> xnorm ` set (bar_words a)"
    if "cs_aliases (charset_at r) = Some a" for a
    using assms charset_names_nonzero(2) [OF that] by (auto simp: strxfind_def scan_found found_words)
  ultimately show ?case
    using Cons by (cases "cs_aliases (charset_at r)") (auto simp: names_of_def)
qed simp

lemmas name_eval = names_of_def charset_structs cstr_def is_sep_def up_def qe_toupper_def qe_inrange_def

lemma charset_names:
  "names_of charset_raw = map (map wch) [''RAW'', ''BINARY'', ''NONE'']"
  "names_of charset_8859_1 = map (map wch) [''88591'', ''ISO88591'', ''ISOIR100'', ''LATIN1'', ''L1'', ''819'']"
  "names_of charset_vt100 = map (map wch) [''VT100'']"
  "names_of charset_7bit = map (map wch) [''7BIT'', ''USASCII'', ''ASCII'', ''7BIT'', ''ISOIR6'', ''ANSIX3.4'', ''646'']"
  "names_of charset_utf8 = map (map wch) [''UTF8'', ''UTF8'', ''AL32UTF8'']"
  "names_of charset_utf8x = map (map wch) [''UTF8X'', ''UTF8X'']"
  "names_of charset_ucs2le = map (map wch) [''UCS2LE'', ''UTF16LE'', ''UTF16LE'']"
  "names_of charset_ucs2be = map (map wch) [''UCS2BE'', ''UCS2'', ''UTF16'', ''UTF16'', ''UTF16BE'', ''UTF16BE'']"
  "names_of charset_ucs4le = map (map wch) [''UCS4LE'', ''UTF32LE'', ''UTF32LE'']"
  "names_of charset_ucs4be = map (map wch) [''UCS4BE'', ''UCS4'', ''UTF32'', ''UTF32'', ''UTF32BE'', ''UTF32BE'']"
  "names_of charset_mac_roman = map (map wch) [''MACROMAN'', ''XMAC'', ''MAC'']"
  by (simp_all add: name_eval)

lemma all_charsets:
  "charset_more_init (charset_init []) = [charset_raw, charset_8859_1, charset_vt100, charset_7bit, charset_utf8,
     charset_utf8x, charset_ucs2le, charset_ucs2be, charset_ucs4le, charset_ucs4be, charset_mac_roman]"
  by (simp add: charset_more_init_def charset_init_def)

lemma found_by_name:
  "find_charset (charset_more_init (charset_init [])) (Some (cs_name (charset_at r))) = Some r"
proof -
  have n: "cs_name (charset_at r) \<noteq> []" "BAR \<notin> set (cs_name (charset_at r))"
    by (cases r; simp add: charset_structs cstr_def)+
  have x: "xnorm (cs_name (charset_at r)) = hd (names_of r)" by (simp add: names_of_def)
  show ?thesis
    unfolding find_charset_def option.case find_charset_names [OF n(1) charset_names_nonzero(1) n(2)] all_charsets x
    by (cases r) (simp_all add: charset_names)
qed

text \<open>C32. The list of charsets never holds a charset twice: registering a known charset changes
  nothing, a new one comes last, so the order of registration decides which charset a name
  finds; initialising twice is initialising once, and every built-in charset is found by its name.\<close>

theorem charset_registry:
  assumes "distinct l"
  shows "distinct (qe_register_charset l c) \<and>
    qe_register_charset l c = (if c \<in> set l then l else l @ [c]) \<and>
    charset_init (charset_init l) = charset_init l \<and>
    (\<forall>r \<in> set (charset_more_init (charset_init [])).
      find_charset (charset_more_init (charset_init [])) (Some (cs_name (charset_at r))) = Some r)"
proof (intro conjI)
  have k: "foldl qe_register_charset l cs = l" if "set cs \<subseteq> set l" for cs l
    using that by (induction cs) (auto simp: register_known)
  have m: "set (foldl qe_register_charset l cs) = set l \<union> set cs" for cs l
    by (induction cs arbitrary: l) (auto simp: register_set)
  show "charset_init (charset_init l) = charset_init l"
    by (simp only: charset_init_def) (rule k, auto simp only: m)
  show "\<forall>r \<in> set (charset_more_init (charset_init [])).
      find_charset (charset_more_init (charset_init [])) (Some (cs_name (charset_at r))) = Some r"
    by (simp add: found_by_name)
qed (use assms in \<open>simp_all add: register_distinct register_known register_new\<close>)

theorem charset_registry_witness:
  "qe_register_charset [charset_utf8, charset_raw] charset_raw = [charset_utf8, charset_raw]"
  using charset_registry [of "[charset_utf8, charset_raw]" charset_raw] by simp

end
