(* ===== verification/Sorting.thy ===== *)
theory Sorting
  imports StringLaws "HOL-Library.Multiset"
begin

text \<open>
  Sorting (\<^verbatim>\<open>src/util.c\<close>, \<^verbatim>\<open>qe_qsort_r\<close>): a quicksort that keeps the segments still to be sorted
  on an explicit stack of 64 entries and sorts segments of less than seven elements by
  insertion. The array is the list of its elements, a pointer into it an index, and the
  comparison function with its \<^verbatim>\<open>thunk\<close> a function to \<^typ>\<open>int\<close>. A push on a full stack is undefined
  in C and gives \<^const>\<open>None\<close>.
\<close>

section \<open>Model\<close>

type_synonym segment = "nat \<times> nat"

definition MAXSTACK :: nat where "MAXSTACK = 64"

text \<open>The exchange functions differ only in the unit in which they swap two elements.\<close>

definition exchange :: "'a list \<Rightarrow> nat \<Rightarrow> nat \<Rightarrow> 'a list" where
  "exchange xs i j = xs[i := xs ! j, j := xs ! i]"

definition med3_r :: "'a compare_fn \<Rightarrow> 'a list \<Rightarrow> nat \<Rightarrow> nat \<Rightarrow> nat \<Rightarrow> nat" where
  "med3_r cmp xs a b c =
     (if cmp (xs ! a) (xs ! b) < 0
      then (if cmp (xs ! b) (xs ! c) < 0 then b else if cmp (xs ! a) (xs ! c) < 0 then c else a)
      else (if cmp (xs ! b) (xs ! c) > 0 then b else if cmp (xs ! a) (xs ! c) < 0 then a else c))"

function scan_up :: "'a compare_fn \<Rightarrow> 'a list \<Rightarrow> nat \<Rightarrow> nat \<Rightarrow> nat \<Rightarrow> nat" where
  "scan_up cmp xs lb i j = (if i < j \<and> cmp (xs ! lb) (xs ! i) > 0 then scan_up cmp xs lb (i + 1) j else i)"
  by pat_completeness auto
termination
  by (relation "measure (\<lambda>(cmp, xs, lb, i, j). j - i)") auto

text \<open>The pointer \<open>j\<close> stays above the start of the array, since \<open>i\<close> starts at \<open>lb + 1\<close>.\<close>

fun scan_down :: "'a compare_fn \<Rightarrow> 'a list \<Rightarrow> nat \<Rightarrow> nat \<Rightarrow> nat \<Rightarrow> nat \<Rightarrow> nat \<times> nat" where
  "scan_down cmp xs lb i 0 m0 = (0, m0)"
| "scan_down cmp xs lb i (Suc j) m0 =
     (if Suc j \<ge> i \<and> cmp (xs ! Suc j) (xs ! lb) > 0 then scan_down cmp xs lb i j (m0 - 1) else (Suc j, m0))"

declare scan_up.simps [simp del]

lemma scan_up_ge: "i \<le> scan_up cmp xs lb i j"
  by (induction cmp xs lb i j rule: scan_up.induct) (subst scan_up.simps, force)

lemma scan_down_le: "scan_down cmp xs lb i j m0 = (j', m0') \<Longrightarrow> j' \<le> j \<and> m0' \<le> m0"
  by (induction cmp xs lb i j m0 rule: scan_down.induct) (auto split: if_splits)

function partition_loop ::
  "'a compare_fn \<Rightarrow> 'a list \<Rightarrow> nat \<Rightarrow> nat \<Rightarrow> nat \<Rightarrow> nat \<Rightarrow> 'a list \<times> nat \<times> nat" where
  "partition_loop cmp xs lb i j m0 =
     (let i = scan_up cmp xs lb i j;
          (j, m0) = scan_down cmp xs lb i j m0
      in if i \<ge> j then (xs, j, m0)
         else partition_loop cmp (exchange xs i j) lb (i + 1) (j - 1) (m0 - 1))"
  by pat_completeness auto
termination
proof (relation "measure (\<lambda>(cmp, xs, lb, i, j, m0). j - i)")
  fix cmp :: "'a compare_fn" and xs lb i j m0 i' x j' m0'
  assume "i' = scan_up cmp xs lb i j" "x = scan_down cmp xs lb i' j m0" "(j', m0') = x" "\<not> j' \<le> i'"
  then show "((cmp, exchange xs i' j', lb, i' + 1, j' - 1, m0' - 1), cmp, xs, lb, i, j, m0)
      \<in> measure (\<lambda>(cmp, xs, lb, i, j, m0). j - i)"
    using scan_up_ge [of i cmp xs lb j] scan_down_le [of cmp xs lb i' j m0 j' m0'] by auto
qed simp

declare partition_loop.simps [simp del]

text \<open>One round of the inner loop: the pivot is moved to the front, the rest is split, and the
  pivot is put between the two parts, at \<open>j\<close>; \<open>m0\<close> is the size of the left part.\<close>

definition partition_segment :: "'a compare_fn \<Rightarrow> 'a list \<Rightarrow> nat \<Rightarrow> nat \<Rightarrow> 'a list \<times> nat \<times> nat" where
  "partition_segment cmp xs lb n =
     (let m0 = n div 4;
          m = med3_r cmp xs (lb + m0) (lb + 2 * m0) (lb + 3 * m0);
          (xs, j, m0) = partition_loop cmp (exchange xs lb m) lb (lb + 1) (lb + n - 1) (n - 1)
      in (exchange xs lb j, j, m0))"

definition push :: "segment list \<Rightarrow> segment \<Rightarrow> segment list option" where
  "push stack seg = (if length stack < MAXSTACK then Some (seg # stack) else None)"

lemma partition_loop_le: "partition_loop cmp xs lb i j m0 = (xs', j', m0') \<Longrightarrow> m0' \<le> m0"
proof (induction cmp xs lb i j m0 rule: partition_loop.induct)
  case (1 cmp xs lb i j m0)
  obtain j1 m1 where d: "scan_down cmp xs lb (scan_up cmp xs lb i j) j m0 = (j1, m1)" by (metis surj_pair)
  note le = scan_down_le [OF d]
  show ?case
  proof (cases "j1 \<le> scan_up cmp xs lb i j")
    case True
    with "1.prems" d le show ?thesis by (simp add: partition_loop.simps [of cmp xs] Let_def)
  next
    case False
    with "1.prems" d have "partition_loop cmp (exchange xs (scan_up cmp xs lb i j) j1) lb
        (scan_up cmp xs lb i j + 1) (j1 - 1) (m1 - 1) = (xs', j', m0')"
      by (simp add: partition_loop.simps [of cmp xs] Let_def)
    from "1.IH" [OF refl d [symmetric] refl False this] le show ?thesis by linarith
  qed
qed

lemma partition_segment_le: "partition_segment cmp xs lb n = (xs', j, m0) \<Longrightarrow> m0 \<le> n - 1"
  by (auto simp: partition_segment_def Let_def split: prod.splits dest: partition_loop_le)

function sort_segment ::
  "'a compare_fn \<Rightarrow> 'a list \<Rightarrow> segment list \<Rightarrow> nat \<Rightarrow> nat \<Rightarrow> ('a list \<times> segment list \<times> nat \<times> nat) option" where
  "sort_segment cmp xs stack lb n =
     (if n \<ge> 7 then
        let (xs, j, m0) = partition_segment cmp xs lb n;
            n1 = n - m0 - 1
        in if m0 < n1
           then (case (if n1 > 1 then push stack (j + 1, n1) else Some stack) of
                   None \<Rightarrow> None
                 | Some stack \<Rightarrow> sort_segment cmp xs stack lb m0)
           else (case (if m0 > 1 then push stack (lb, m0) else Some stack) of
                   None \<Rightarrow> None
                 | Some stack \<Rightarrow> sort_segment cmp xs stack (j + 1) n1)
      else Some (xs, stack, lb, n))"
  by pat_completeness auto
termination
  by (relation "measure (\<lambda>(cmp, xs, stack, lb, n). n)") auto

declare sort_segment.simps [simp del]

function insert_back :: "'a compare_fn \<Rightarrow> 'a list \<Rightarrow> nat \<Rightarrow> nat \<Rightarrow> 'a list" where
  "insert_back cmp xs lb m =
     (if m > lb \<and> cmp (xs ! (m - 1)) (xs ! m) > 0
      then insert_back cmp (exchange xs m (m - 1)) lb (m - 1) else xs)"
  by pat_completeness auto
termination
  by (relation "measure (\<lambda>(cmp, xs, lb, m). m)") auto

declare insert_back.simps [simp del]

function insertion_sort :: "'a compare_fn \<Rightarrow> 'a list \<Rightarrow> nat \<Rightarrow> nat \<Rightarrow> nat \<Rightarrow> 'a list" where
  "insertion_sort cmp xs lb i j =
     (if i < j then insertion_sort cmp (insert_back cmp xs lb i) lb (i + 1) j else xs)"
  by pat_completeness auto
termination
  by (relation "measure (\<lambda>(cmp, xs, lb, i, j). j - i)") auto

declare insertion_sort.simps [simp del]

definition pending :: "segment list \<Rightarrow> nat" where
  "pending stack = (\<Sum>(b, c) \<leftarrow> stack. Suc c)"

lemma push_pending: "push stack (b, c) = Some stack' \<Longrightarrow> pending stack' = Suc c + pending stack"
  by (auto simp: push_def pending_def split: if_splits)

text \<open>The round that \<open>sort_segment\<close> makes on a segment of at least seven elements: what it pushes,
  and the part it goes on with.\<close>

lemma sort_segment_round:
  assumes "n \<ge> 7" "partition_segment cmp xs lb n = (ys, j, m0)" "n1 = n - m0 - 1"
    "sort_segment cmp xs stack lb n = Some r"
  obtains b c lb' n' stack' where "(b, c, lb', n') = (if m0 < n1 then (j + 1, n1, lb, m0) else (lb, m0, j + 1, n1))"
    "(if c > 1 then push stack (b, c) else Some stack) = Some stack'"
    "sort_segment cmp ys stack' lb' n' = Some r"
proof (cases "m0 < n1")
  case True
  with assms show thesis
    unfolding sort_segment.simps [of cmp xs] by (auto simp: Let_def split: option.splits if_splits intro: that)
next
  case False
  with assms show thesis
    unfolding sort_segment.simps [of cmp xs] by (auto simp: Let_def split: option.splits if_splits intro: that)
qed

lemma sort_segment_pending:
  "sort_segment cmp xs stack lb n = Some (xs', stack', lb', n') \<Longrightarrow> pending stack' + Suc n' \<le> pending stack + Suc n"
proof (induction n arbitrary: xs stack lb rule: less_induct)
  case (less n)
  show ?case
  proof (cases "n \<ge> 7")
    case True
    obtain ys j m0 where p: "partition_segment cmp xs lb n = (ys, j, m0)" by (metis surj_pair)
    note le = partition_segment_le [OF p]
    from sort_segment_round [OF True p refl less.prems] obtain b c l k st where
      r: "(b, c, l, k) = (if m0 < n - m0 - 1 then (j + 1, n - m0 - 1, lb, m0) else (lb, m0, j + 1, n - m0 - 1))"
      and st: "(if c > 1 then push stack (b, c) else Some stack) = Some st"
      and s: "sort_segment cmp ys st l k = Some (xs', stack', lb', n')" by metis
    from r le True have k: "c + k = n - 1" "k < n" by (auto split: if_splits)
    have "pending st \<le> pending stack + Suc c" using st by (auto split: if_splits dest!: push_pending)
    with less.IH [OF k(2) s] k True show ?thesis by linarith
  qed (use less.prems in \<open>auto simp: sort_segment.simps [of cmp xs]\<close>)
qed

function sort_stack :: "'a compare_fn \<Rightarrow> 'a list \<Rightarrow> segment list \<Rightarrow> 'a list option" where
  "sort_stack cmp xs [] = Some xs"
| "sort_stack cmp xs ((lb, n) # stack) =
     (case sort_segment cmp xs stack lb n of
        None \<Rightarrow> None
      | Some (xs, stack, lb, n) \<Rightarrow> sort_stack cmp (insertion_sort cmp xs lb (lb + 1) (lb + n)) stack)"
  by pat_completeness auto
termination
proof (relation "measure (\<lambda>(cmp, xs, stack). pending stack)")
  fix cmp :: "'a compare_fn" and xs lb n stack a xs' y stack' z lb' n'
  assume "sort_segment cmp xs stack lb n = Some a" "(xs', y) = a" "(stack', z) = y" "(lb', n') = z"
  then show "((cmp, insertion_sort cmp xs' lb' (lb' + 1) (lb' + n'), stack'), cmp, xs, (lb, n) # stack)
      \<in> measure (\<lambda>(cmp, xs, stack). pending stack)"
    using sort_segment_pending [of cmp xs stack lb n xs' stack' lb' n'] by (auto simp: pending_def)
qed simp

definition qe_qsort_r :: "'a compare_fn \<Rightarrow> 'a list \<Rightarrow> 'a list option" where
  "qe_qsort_r cmp xs = (if length xs < 2 then Some xs else sort_stack cmp xs [(0, length xs)])"

section \<open>Shuffling a segment\<close>

definition shuffled :: "nat \<Rightarrow> nat \<Rightarrow> 'a list \<Rightarrow> 'a list \<Rightarrow> bool" where
  "shuffled b c xs ys \<longleftrightarrow> length ys = length xs \<and> mset ys = mset xs \<and>
     (\<forall>k. \<not> (b \<le> k \<and> k < b + c) \<longrightarrow> ys ! k = xs ! k) \<and>
     (\<forall>k. b \<le> k \<and> k < b + c \<longrightarrow> (\<exists>k'. b \<le> k' \<and> k' < b + c \<and> ys ! k = xs ! k'))"

lemma shuffled_refl [simp]: "shuffled b c xs xs"
  by (auto simp: shuffled_def)

lemma shuffled_trans [trans]: "shuffled b c xs ys \<Longrightarrow> shuffled b c ys zs \<Longrightarrow> shuffled b c xs zs"
  unfolding shuffled_def by metis

lemma shuffled_length: "shuffled b c xs ys \<Longrightarrow> length ys = length xs"
  by (simp add: shuffled_def)

lemma exchange_nth:
  "i < length xs \<Longrightarrow> j < length xs \<Longrightarrow> exchange xs i j ! k = (if k = j then xs ! i else if k = i then xs ! j else xs ! k)"
  by (simp add: exchange_def nth_list_update)

lemma length_exchange [simp]: "length (exchange xs i j) = length xs"
  by (simp add: exchange_def)

lemma shuffled_exchange:
  assumes "b \<le> i" "i < b + c" "b \<le> j" "j < b + c" "b + c \<le> length xs"
  shows "shuffled b c xs (exchange xs i j)"
proof -
  have "mset (exchange xs i j) = mset xs"
    using assms mset_swap [of j xs i] by (simp add: exchange_def)
  with assms show ?thesis
    by (auto simp: shuffled_def exchange_nth)
qed

section \<open>Safety for every comparison function\<close>

text \<open>Whatever the comparison function returns, all accesses stay inside the segment, the array is
  only permuted and the stack does not overflow.\<close>

lemma scan_up_shape: "scan_up cmp xs lb i j \<le> max i j"
  by (induction cmp xs lb i j rule: scan_up.induct) (subst scan_up.simps, auto)

lemma scan_down_shape:
  "scan_down cmp xs lb i j m0 = (j', m0') \<Longrightarrow> lb < i \<Longrightarrow> i \<le> j + 1 \<Longrightarrow> m0 = j - lb \<Longrightarrow> i \<le> j' + 1 \<and> m0' = j' - lb"
  by (induction cmp xs lb i j m0 rule: scan_down.induct) (auto split: if_splits)

lemma partition_loop_shape:
  assumes "partition_loop cmp xs lb i j m0 = (ys, j', m0')" "lb < i" "i \<le> j + 1" "j < lb + n" "lb + n \<le> length xs" "m0 = j - lb"
  shows "shuffled lb n xs ys \<and> lb \<le> j' \<and> j' < lb + n \<and> m0' = j' - lb"
  using assms
proof (induction cmp xs lb i j m0 rule: partition_loop.induct)
  case (1 cmp xs lb i j m0)
  define i1 where "i1 = scan_up cmp xs lb i j"
  obtain j1 m1 where d: "scan_down cmp xs lb i1 j m0 = (j1, m1)" by (metis surj_pair)
  have i1: "lb < i1" "i1 \<le> j + 1"
    using scan_up_ge [of i cmp xs lb j] scan_up_shape [of cmp xs lb i j] "1.prems"(2,3) by (auto simp: i1_def)
  have j1: "i1 \<le> j1 + 1" "m1 = j1 - lb" "j1 \<le> j"
    using scan_down_shape [OF d i1 "1.prems"(6)] scan_down_le [OF d] by auto
  note eq = partition_loop.simps [of cmp xs lb i j m0, folded i1_def, unfolded d Let_def prod.case]
  show ?case
  proof (cases "i1 \<ge> j1")
    case True
    with eq "1.prems" i1 j1 show ?thesis by auto
  next
    case False
    have sh: "shuffled lb n xs (exchange xs i1 j1)"
      using False i1 j1 "1.prems"(4,5) by (intro shuffled_exchange) auto
    have "partition_loop cmp (exchange xs i1 j1) lb (i1 + 1) (j1 - 1) (m1 - 1) = (ys, j', m0')"
      using eq "1.prems"(1) False by simp
    from "1.IH" [OF i1_def d [symmetric] refl False this] False i1 j1 "1.prems"(4,5) shuffled_trans [OF sh]
    show ?thesis by auto
  qed
qed

lemma partition_segment_shape:
  assumes "partition_segment cmp xs lb n = (ys, j, m0)" "7 \<le> n" "lb + n \<le> length xs"
  shows "shuffled lb n xs ys \<and> j = lb + m0 \<and> m0 < n"
proof -
  define m where "m = med3_r cmp xs (lb + n div 4) (lb + 2 * (n div 4)) (lb + 3 * (n div 4))"
  obtain zs where z: "partition_loop cmp (exchange xs lb m) lb (lb + 1) (lb + n - 1) (n - 1) = (zs, j, m0)" "ys = exchange zs lb j"
    using assms(1) by (auto simp: partition_segment_def Let_def m_def split: prod.splits)
  have "m \<in> {lb + n div 4, lb + 2 * (n div 4), lb + 3 * (n div 4)}" by (simp add: m_def med3_r_def)
  moreover have "3 * (n div 4) < n" using assms(2) by presburger
  ultimately have s1: "shuffled lb n xs (exchange xs lb m)" using assms(3) by (intro shuffled_exchange) auto
  have p: "shuffled lb n (exchange xs lb m) zs \<and> lb \<le> j \<and> j < lb + n \<and> m0 = j - lb"
    using assms(2,3) by (intro partition_loop_shape [OF z(1)]) auto
  then have "shuffled lb n zs ys"
    unfolding z(2) using assms(3) shuffled_length by (intro shuffled_exchange) fastforce+
  with p shuffled_trans [OF s1] shuffled_trans show ?thesis by fastforce
qed

lemma insert_back_shape: "lb \<le> m \<Longrightarrow> m < lb + n \<Longrightarrow> lb + n \<le> length xs \<Longrightarrow> shuffled lb n xs (insert_back cmp xs lb m)"
proof (induction cmp xs lb m rule: insert_back.induct)
  case (1 cmp xs lb m)
  show ?case
  proof (cases "m > lb \<and> cmp (xs ! (m - 1)) (xs ! m) > 0")
    case True
    with "1.prems" have "shuffled lb n xs (exchange xs m (m - 1))" by (intro shuffled_exchange) auto
    moreover have "shuffled lb n (exchange xs m (m - 1)) (insert_back cmp (exchange xs m (m - 1)) lb (m - 1))"
      using "1.IH" [OF True] True "1.prems" by auto
    moreover have "insert_back cmp xs lb m = insert_back cmp (exchange xs m (m - 1)) lb (m - 1)"
      using True by (subst insert_back.simps) simp
    ultimately show ?thesis using shuffled_trans by metis
  next
    case False
    then have "insert_back cmp xs lb m = xs" by (subst insert_back.simps) auto
    then show ?thesis by simp
  qed
qed

lemma insertion_sort_shape: "lb < i \<Longrightarrow> lb + n \<le> length xs \<Longrightarrow> shuffled lb n xs (insertion_sort cmp xs lb i (lb + n))"
proof (induction "lb + n - i" arbitrary: xs i)
  case (Suc d)
  then have "shuffled lb n xs (insert_back cmp xs lb i)" by (intro insert_back_shape) auto
  moreover from this have "shuffled lb n (insert_back cmp xs lb i) (insertion_sort cmp (insert_back cmp xs lb i) lb (i + 1) (lb + n))"
    using Suc.hyps(1) [of "i + 1" "insert_back cmp xs lb i"] Suc.hyps(2) Suc.prems shuffled_length by fastforce
  moreover have "i < lb + n" using Suc.hyps(2) by simp
  then have "insertion_sort cmp xs lb i (lb + n) = insertion_sort cmp (insert_back cmp xs lb i) lb (i + 1) (lb + n)"
    by (subst insertion_sort.simps) simp
  ultimately show ?case using shuffled_trans by metis
qed (simp add: insertion_sort.simps)

section \<open>Loops over the stack\<close>

text \<open>The part of a split segment that is pushed, if it has more than one element, and the part the
  loop goes on with.\<close>

abbreviation split_round :: "nat \<Rightarrow> nat \<Rightarrow> nat \<Rightarrow> nat \<Rightarrow> nat \<times> nat \<times> nat \<times> nat" where
  "split_round lb n j m0 \<equiv> (if m0 < n - m0 - 1 then (j + 1, n - m0 - 1, lb, m0) else (lb, m0, j + 1, n - m0 - 1))"

text \<open>An invariant of the segments on the stack and of the array holds at the end of the sort if it is
  kept by every split and by the insertion sort of a segment.\<close>

locale segment_invariant =
  fixes cmp :: "'a compare_fn" and ok :: "segment list \<Rightarrow> 'a list \<Rightarrow> bool"
  assumes round: "ok ((lb, n) # stack) xs \<Longrightarrow> 7 \<le> n \<Longrightarrow> partition_segment cmp xs lb n = (ys, j, m0) \<Longrightarrow>
      (b, c, lb', n') = split_round lb n j m0 \<Longrightarrow>
      ok ((lb', n') # (if c > 1 then (b, c) # stack else stack)) ys \<and> n' < n \<and> (c > 1 \<longrightarrow> length stack < MAXSTACK)"
    and finish: "ok ((lb, n) # stack) xs \<Longrightarrow> ok stack (insertion_sort cmp xs lb (lb + 1) (lb + n))"
begin

lemma segment_kept:
  "ok ((lb, n) # stack) xs \<Longrightarrow>
    \<exists>xs' stack' lb' n'. sort_segment cmp xs stack lb n = Some (xs', stack', lb', n') \<and> ok ((lb', n') # stack') xs'"
proof (induction n arbitrary: xs stack lb rule: less_induct)
  case (less n)
  show ?case
  proof (cases "n \<ge> 7")
    case True
    obtain ys j m0 where p: "partition_segment cmp xs lb n = (ys, j, m0)" by (metis surj_pair)
    obtain b c lb' n' where r: "(b, c, lb', n') = split_round lb n j m0" by (metis surj_pair)
    define ss where "ss = (if c > 1 then (b, c) # stack else stack)"
    have s: "ok ((lb', n') # ss) ys" "n' < n" "c > 1 \<longrightarrow> length stack < MAXSTACK"
      using round [OF less.prems True p r] by (simp_all add: ss_def)
    have "(if c > 1 then push stack (b, c) else Some stack) = Some ss" using s(3) by (simp add: ss_def push_def)
    then have "sort_segment cmp xs stack lb n = sort_segment cmp ys ss lb' n'"
      using True r by (simp only: sort_segment.simps [of cmp xs] p Let_def prod.case if_True option.case if_cancel split: if_splits) simp_all
    with less.IH [OF s(2,1)] show ?thesis by simp
  qed (use less.prems in \<open>auto simp: sort_segment.simps [of cmp xs]\<close>)
qed

lemma stack_kept: "ok ss xs \<Longrightarrow> \<exists>ys. sort_stack cmp xs ss = Some ys \<and> ok [] ys"
proof (induction "pending ss" arbitrary: xs ss rule: less_induct)
  case less
  show ?case
  proof (cases ss)
    case (Cons s stack)
    obtain lb n where s: "s = (lb, n)" by (cases s)
    from segment_kept [OF less.prems [unfolded Cons s]] obtain ys stack' lb' n' where
      g: "sort_segment cmp xs stack lb n = Some (ys, stack', lb', n')" "ok ((lb', n') # stack') ys" by blast
    have "pending stack' < pending ss"
      using sort_segment_pending [OF g(1)] by (simp add: Cons s pending_def)
    with less.hyps finish [OF g(2)] show ?thesis by (simp add: Cons s g(1))
  qed (use less.prems in simp)
qed

end

text \<open>An element of the stack at height \<open>h\<close> has at most \<open>N / 2\<^sup>h\<close> elements, since the smaller part is
  processed first.\<close>

definition halving :: "nat \<Rightarrow> segment list \<Rightarrow> bool" where
  "halving N ss \<longleftrightarrow> (\<forall>h < length ss. snd (rev ss ! h) * 2 ^ h \<le> N)"

lemma halving_push: "halving N ss \<Longrightarrow> c * 2 ^ length ss \<le> N \<Longrightarrow> halving N ((b, c) # ss)"
  by (auto simp: halving_def nth_append less_Suc_eq)

lemma halving_pop: "halving N ((b, c) # ss) \<Longrightarrow> halving N ss \<and> c * 2 ^ length ss \<le> N"
  by (auto simp: halving_def nth_append split: if_splits)

lemma stack_room:
  fixes c N :: nat
  assumes "1 < c" "c * 2 ^ h \<le> N" "N < 2 ^ 64"
  shows "h < MAXSTACK"
proof -
  have "(2::nat) ^ h \<le> c * 2 ^ h" using assms(1) by simp
  with assms(2,3) have "(2::nat) ^ h < 2 ^ 64" by linarith
  then have "h < 64" by (simp only: power_strict_increasing_iff)
  then show ?thesis by (simp add: MAXSTACK_def)
qed

definition perm_state :: "'a list \<Rightarrow> segment list \<Rightarrow> 'a list \<Rightarrow> bool" where
  "perm_state xs0 ss xs \<longleftrightarrow> mset xs = mset xs0 \<and> length xs = length xs0 \<and> length xs0 < 2 ^ 64 \<and>
     (\<forall>s \<in> set ss. fst s + snd s \<le> length xs0) \<and> halving (length xs0) ss"

lemma perm_state_round:
  assumes "perm_state xs0 ((lb, n) # stack) xs" "7 \<le> n" "partition_segment cmp xs lb n = (ys, j, m0)"
    "(b, c, lb', n') = split_round lb n j m0"
  shows "perm_state xs0 ((lb', n') # (if c > 1 then (b, c) # stack else stack)) ys \<and> n' < n \<and>
    (c > 1 \<longrightarrow> length stack < MAXSTACK)"
proof -
  define ss where "ss = (if c > 1 then (b, c) # stack else stack)"
  have x: "lb + n \<le> length xs" "length xs = length xs0" "length xs0 < 2 ^ 64" "\<forall>s \<in> set stack. fst s + snd s \<le> length xs0"
    "halving (length xs0) stack" "n * 2 ^ length stack \<le> length xs0"
    using assms(1) by (auto simp: perm_state_def dest: halving_pop)
  note ps = partition_segment_shape [OF assms(3,2) x(1)]
  have c: "c \<le> n" "2 * n' \<le> n" "n' < n" using assms(4) ps by (auto split: if_splits)
  have ch: "c * 2 ^ length stack \<le> length xs0" using x(6) c(1) by (meson le_trans mult_le_mono1)
  have "n' * 2 ^ length ss \<le> length xs0"
    using c unfolding ss_def by (auto intro: order_trans [OF _ x(6)] simp: mult.assoc [symmetric])
  moreover have "halving (length xs0) ss" using x(5) ch halving_push unfolding ss_def by simp
  ultimately have "halving (length xs0) ((lb', n') # ss)" by (intro halving_push)
  moreover have "fst s + snd s \<le> length xs0" if "s \<in> set ((lb', n') # ss)" for s
    using that x ps assms(4) by (auto simp: ss_def split: if_splits)
  ultimately have "perm_state xs0 ((lb', n') # ss) ys"
    using assms(1) ps by (auto simp: perm_state_def shuffled_def)
  moreover have "c > 1 \<longrightarrow> length stack < MAXSTACK" using stack_room [OF _ ch x(3)] by blast
  ultimately show ?thesis using c(3) by (simp add: ss_def)
qed

lemma perm_state_shuffle:
  "perm_state xs0 ((lb, n) # stack) xs \<Longrightarrow> shuffled lb n xs ys \<Longrightarrow> perm_state xs0 stack ys"
  by (auto simp: perm_state_def shuffled_def dest: halving_pop)

lemma perm_state_bound: "perm_state xs0 ((lb, n) # stack) xs \<Longrightarrow> lb + n \<le> length xs"
  by (auto simp: perm_state_def)

lemma perm_state_start: "length xs < 2 ^ 64 \<Longrightarrow> perm_state xs [(0, length xs)] xs"
  by (simp add: perm_state_def halving_def)

interpretation any: segment_invariant cmp "perm_state xs0" for cmp xs0
proof
  fix lb n stack and xs :: "'a list"
  assume a: "perm_state xs0 ((lb, n) # stack) xs"
  show "perm_state xs0 stack (insertion_sort cmp xs lb (lb + 1) (lb + n))"
    by (rule perm_state_shuffle [OF a insertion_sort_shape [OF _ perm_state_bound [OF a]]]) simp
qed (rule perm_state_round)

section \<open>The array is sorted up to the segments on the stack\<close>

definition in_segment :: "segment \<Rightarrow> nat \<Rightarrow> bool" where
  "in_segment s k \<longleftrightarrow> fst s \<le> k \<and> k < fst s + snd s"

definition disjoint_segments :: "segment list \<Rightarrow> bool" where
  "disjoint_segments ss \<longleftrightarrow> sorted_wrt (\<lambda>s t. \<forall>k. \<not> (in_segment s k \<and> in_segment t k)) ss"

definition sorted_upto :: "'a compare_fn \<Rightarrow> segment list \<Rightarrow> 'a list \<Rightarrow> bool" where
  "sorted_upto cmp ss xs \<longleftrightarrow>
     (\<forall>p q. p < q \<and> q < length xs \<longrightarrow>
        cmp (xs ! p) (xs ! q) \<le> 0 \<or> (\<exists>s \<in> set ss. in_segment s p \<and> in_segment s q))"

text \<open>A segment may be replaced by parts of itself, after a shuffle that sorts it up to these.\<close>

lemma sorted_upto_refine:
  assumes "sorted_upto cmp ((b, c) # ss) xs" "disjoint_segments ((b, c) # ss)" "shuffled b c xs ys"
    and inner: "\<And>p q. b \<le> p \<Longrightarrow> p < q \<Longrightarrow> q < b + c \<Longrightarrow>
      cmp (ys ! p) (ys ! q) \<le> 0 \<or> (\<exists>s \<in> set ts. in_segment s p \<and> in_segment s q)"
    and bound: "b + c \<le> length xs"
  shows "sorted_upto cmp (ts @ ss) ys"
  unfolding sorted_upto_def
proof (intro allI impI)
  fix p q
  assume pq: "p < q \<and> q < length ys"
  let ?I = "in_segment (b, c)"
  have dis: "\<not> in_segment s k" if "s \<in> set ss" "?I k" for s k
    using assms(2) that by (auto simp: disjoint_segments_def)
  have out: "ys ! k = xs ! k" if "\<not> ?I k" for k
    using assms(3) that by (auto simp: shuffled_def in_segment_def)
  have ins: "\<exists>k'. ?I k' \<and> ys ! k = xs ! k'" if "?I k" for k
    using assms(3) that unfolding shuffled_def in_segment_def by auto
  have xs: "cmp (xs ! p') (xs ! q') \<le> 0 \<or> (?I p' \<and> ?I q') \<or> (\<exists>s \<in> set ss. in_segment s p' \<and> in_segment s q')"
    if "p' < q'" "q' < length xs" for p' q'
    using assms(1) that by (auto simp: sorted_upto_def)
  have len: "length ys = length xs" using assms(3) by (rule shuffled_length)
  consider "?I p" "?I q" | "?I p" "\<not> ?I q" | "\<not> ?I p" "?I q" | "\<not> ?I p" "\<not> ?I q" by blast
  then show "cmp (ys ! p) (ys ! q) \<le> 0 \<or> (\<exists>s \<in> set (ts @ ss). in_segment s p \<and> in_segment s q)"
  proof cases
    case 1
    with inner [of p q] pq show ?thesis by (auto simp: in_segment_def)
  next
    case 2
    from ins [OF 2(1)] obtain k where k: "?I k" "ys ! p = xs ! k" by blast
    with 2 pq have "k < q" by (auto simp: in_segment_def)
    with xs [of k q] pq len 2 k dis out show ?thesis by auto
  next
    case 3
    from ins [OF 3(2)] obtain k where k: "?I k" "ys ! q = xs ! k" by blast
    with 3 pq have "p < k" "k < length xs" using bound by (auto simp: in_segment_def)
    with xs [of p k] 3 k dis out show ?thesis by auto
  next
    case 4
    with xs [of p q] pq len out show ?thesis by auto
  qed
qed

lemma sorted_upto_weaken:
  "sorted_upto cmp ss xs \<Longrightarrow> (\<And>s. s \<in> set ss \<Longrightarrow> snd s > 1 \<Longrightarrow> s \<in> set ts) \<Longrightarrow> sorted_upto cmp ts xs"
proof -
  assume a: "sorted_upto cmp ss xs" and b: "\<And>s. s \<in> set ss \<Longrightarrow> snd s > 1 \<Longrightarrow> s \<in> set ts"
  have "s \<in> set ts" if "s \<in> set ss" "in_segment s p" "in_segment s q" "p < q" for s p q
    using b [OF that(1)] that(2-4) by (auto simp: in_segment_def)
  with a show ?thesis unfolding sorted_upto_def by blast
qed

section \<open>Partition\<close>

context compare_contract
begin

lemma scan_up_spec:
  "scan_up cmp xs lb i j = i' \<Longrightarrow>
     i \<le> i' \<and> i' \<le> max i j \<and> (\<forall>k. i \<le> k \<and> k < i' \<longrightarrow> cmp (xs ! k) (xs ! lb) \<le> 0) \<and>
     (i' < j \<longrightarrow> cmp (xs ! lb) (xs ! i') \<le> 0)"
proof (induction "j - i" arbitrary: i)
  case 0
  then show ?case by (auto simp: scan_up.simps [of cmp xs lb i])
next
  case (Suc d)
  show ?case
  proof (cases "cmp (xs ! lb) (xs ! i) > 0")
    case True
    have "i < j" using Suc.hyps(2) by simp
    with True Suc.prems have "scan_up cmp xs lb (i + 1) j = i'"
      by (simp add: scan_up.simps [of cmp xs lb i])
    from Suc.hyps(1) [OF _ this] Suc.hyps(2)
    have IH: "i + 1 \<le> i' \<and> i' \<le> max (i + 1) j \<and> (\<forall>k. i + 1 \<le> k \<and> k < i' \<longrightarrow> cmp (xs ! k) (xs ! lb) \<le> 0) \<and>
      (i' < j \<longrightarrow> cmp (xs ! lb) (xs ! i') \<le> 0)" by simp
    have "cmp (xs ! k) (xs ! lb) \<le> 0" if "i \<le> k" "k < i'" for k
      using IH that cmp_connex(2) [OF True] by (cases "k = i") auto
    with IH \<open>i < j\<close> show ?thesis by auto
  next
    case False
    with Suc.prems Suc.hyps(2) cmp_connex(1) [OF False] show ?thesis by (auto simp: scan_up.simps [of cmp xs lb i])
  qed
qed

lemma scan_down_spec:
  "scan_down cmp xs lb i j m0 = (j', m0') \<Longrightarrow> 0 < i \<Longrightarrow> i \<le> j + 1 \<Longrightarrow> lb < i \<Longrightarrow> m0 = j - lb \<Longrightarrow>
     j' \<le> j \<and> i \<le> j' + 1 \<and> m0' = j' - lb \<and> (\<forall>k. j' < k \<and> k \<le> j \<longrightarrow> cmp (xs ! lb) (xs ! k) \<le> 0) \<and>
     (i \<le> j' \<longrightarrow> cmp (xs ! j') (xs ! lb) \<le> 0)"
proof (induction j arbitrary: m0)
  case (Suc j)
  show ?case
  proof (cases "Suc j \<ge> i \<and> cmp (xs ! Suc j) (xs ! lb) > 0")
    case True
    with Suc.prems have "scan_down cmp xs lb i j (m0 - 1) = (j', m0')" "m0 - 1 = j - lb" by simp_all
    note IH = Suc.IH [OF this(1) Suc.prems(2) _ Suc.prems(4) this(2)]
    with True Suc.prems cmp_connex(2) [of "xs ! Suc j" "xs ! lb"] show ?thesis by (auto simp: le_Suc_eq)
  next
    case False
    with Suc.prems cmp_connex(1) show ?thesis by auto
  qed
qed auto

definition split_at :: "nat \<Rightarrow> nat \<Rightarrow> 'a list \<Rightarrow> nat \<Rightarrow> bool" where
  "split_at lb n ys j \<longleftrightarrow> lb \<le> j \<and> j < lb + n \<and>
     (\<forall>k. lb < k \<and> k \<le> j \<longrightarrow> cmp (ys ! k) (ys ! lb) \<le> 0) \<and>
     (\<forall>k. j < k \<and> k < lb + n \<longrightarrow> cmp (ys ! lb) (ys ! k) \<le> 0)"

lemma partition_loop_spec:
  assumes "partition_loop cmp xs lb i j m0 = (ys, j', m0')"
    "lb < i" "i \<le> j + 1" "j < lb + n" "lb + n \<le> length xs" "m0 = j - lb"
    "\<forall>k. lb < k \<and> k < i \<longrightarrow> cmp (xs ! k) (xs ! lb) \<le> 0"
    "\<forall>k. j < k \<and> k < lb + n \<longrightarrow> cmp (xs ! lb) (xs ! k) \<le> 0"
  shows "shuffled lb n xs ys \<and> ys ! lb = xs ! lb \<and> m0' = j' - lb \<and> split_at lb n ys j'"
  using assms
proof (induction "j - i" arbitrary: xs i j m0 rule: less_induct)
  case less
  define i1 where "i1 = scan_up cmp xs lb i j"
  obtain j1 m1 where d: "scan_down cmp xs lb i1 j m0 = (j1, m1)" by (metis surj_pair)
  note u = scan_up_spec [OF i1_def [symmetric]]
  have i1: "lb < i1" "i1 \<le> j + 1" using u less.prems(2,3) by auto
  note dn = scan_down_spec [OF d _ i1(2,1) less.prems(6)]
  have lo: "\<forall>k. lb < k \<and> k < i1 \<longrightarrow> cmp (xs ! k) (xs ! lb) \<le> 0"
    using u less.prems(7) by (meson not_le)
  have hi: "\<forall>k. j1 < k \<and> k < lb + n \<longrightarrow> cmp (xs ! lb) (xs ! k) \<le> 0"
    using dn i1 less.prems(8) by (metis gr_zeroI not_le not_less0)
  note eq = partition_loop.simps [of cmp xs lb i j m0, folded i1_def, unfolded d Let_def prod.case]
  show ?case
  proof (cases "i1 \<ge> j1")
    case True
    with eq less.prems(1) have r: "ys = xs" "j' = j1" "m0' = m1" by simp_all
    have "cmp (xs ! k) (xs ! lb) \<le> 0" if "lb < k" "k \<le> j1" for k
    proof (cases "k < i1")
      case False
      with that True have "k = j1" "i1 \<le> j1" by simp_all
      with dn i1 show ?thesis by auto
    qed (use lo that in auto)
    with hi dn i1 less.prems(4) show ?thesis unfolding r split_at_def by auto
  next
    case False
    define zs where "zs = exchange xs i1 j1"
    have b: "j1 \<le> j" "i1 < j1" "m1 = j1 - lb" using dn i1 False by auto
    have sh: "shuffled lb n xs zs"
      unfolding zs_def using b i1 less.prems(4,5) by (intro shuffled_exchange) auto
    have z: "zs ! k = (if k = j1 then xs ! i1 else if k = i1 then xs ! j1 else xs ! k)" for k
      unfolding zs_def using b i1 less.prems(4,5) by (intro exchange_nth) auto
    have x: "cmp (xs ! j1) (xs ! lb) \<le> 0" "cmp (xs ! lb) (xs ! i1) \<le> 0" using dn u b i1 by auto
    have "partition_loop cmp zs lb (i1 + 1) (j1 - 1) (m1 - 1) = (ys, j', m0')"
      using eq less.prems(1) False by (simp add: zs_def)
    moreover have "j1 - 1 - (i1 + 1) < j - i" using b u by auto
    moreover have "\<forall>k. lb < k \<and> k < i1 + 1 \<longrightarrow> cmp (zs ! k) (zs ! lb) \<le> 0"
      using lo x(1) b i1 by (auto simp: z less_Suc_eq)
    moreover have "\<forall>k. j1 - 1 < k \<and> k < lb + n \<longrightarrow> cmp (zs ! lb) (zs ! k) \<le> 0"
      using hi x(2) b i1 by (auto simp: z)
    moreover have "lb < i1 + 1" "i1 + 1 \<le> j1 - 1 + 1" "j1 - 1 < lb + n" "lb + n \<le> length zs" "m1 - 1 = j1 - 1 - lb"
      using b i1 less.prems(4,5) shuffled_length [OF sh] by auto
    ultimately have "shuffled lb n zs ys \<and> ys ! lb = zs ! lb \<and> m0' = j' - lb \<and> split_at lb n ys j'"
      by (intro less.hyps)
    moreover have "zs ! lb = xs ! lb" using b i1 by (simp add: z)
    ultimately show ?thesis using shuffled_trans [OF sh] by metis
  qed
qed

lemma med3_r_range: "med3_r cmp xs a b c \<in> {a, b, c}"
  by (simp add: med3_r_def)

lemma partition_segment_spec:
  assumes "partition_segment cmp xs lb n = (ys, j, m0)" "7 \<le> n" "lb + n \<le> length xs"
  shows "shuffled lb n xs ys" "j < lb + n" "j = lb + m0"
    "\<And>p q. lb \<le> p \<Longrightarrow> p \<le> j \<Longrightarrow> j \<le> q \<Longrightarrow> q < lb + n \<Longrightarrow> p < q \<Longrightarrow> cmp (ys ! p) (ys ! q) \<le> 0"
proof -
  define m where "m = med3_r cmp xs (lb + n div 4) (lb + 2 * (n div 4)) (lb + 3 * (n div 4))"
  obtain zs where z: "partition_loop cmp (exchange xs lb m) lb (lb + 1) (lb + n - 1) (n - 1) = (zs, j, m0)"
    "ys = exchange zs lb j"
    using assms(1) by (auto simp: partition_segment_def Let_def m_def split: prod.splits)
  have "m \<in> {lb + n div 4, lb + 2 * (n div 4), lb + 3 * (n div 4)}" unfolding m_def by (rule med3_r_range)
  moreover have "3 * (n div 4) < n" using assms(2) by presburger
  ultimately have m: "lb \<le> m" "m < lb + n" by auto
  have s1: "shuffled lb n xs (exchange xs lb m)" using m assms(3) by (intro shuffled_exchange) auto
  have "shuffled lb n (exchange xs lb m) zs \<and> zs ! lb = exchange xs lb m ! lb \<and> m0 = j - lb \<and> split_at lb n zs j"
    using assms(2,3) by (intro partition_loop_spec [OF z(1)]) auto
  then have p: "shuffled lb n (exchange xs lb m) zs \<and> lb \<le> j \<and> j < lb + n \<and> m0 = j - lb \<and>
      (\<forall>k. lb < k \<and> k \<le> j \<longrightarrow> cmp (zs ! k) (zs ! lb) \<le> 0) \<and>
      (\<forall>k. j < k \<and> k < lb + n \<longrightarrow> cmp (zs ! lb) (zs ! k) \<le> 0)" unfolding split_at_def by blast
  have l: "length zs = length xs" using p shuffled_length by fastforce
  have s2: "shuffled lb n zs ys" unfolding z(2) using p assms(3) l by (intro shuffled_exchange) auto
  show "shuffled lb n xs ys" using shuffled_trans [OF s1 shuffled_trans [OF conjunct1 [OF p] s2]] .
  show "j < lb + n" "j = lb + m0" using p by auto
  have y: "ys ! k = (if k = j then zs ! lb else if k = lb then zs ! j else zs ! k)" for k
    unfolding z(2) using p assms(3) l by (intro exchange_nth) auto
  fix a q
  assume a: "lb \<le> a" "a \<le> j" "j \<le> q" "q < lb + n" "a < q"
  have self: "cmp (zs ! lb) (zs ! lb) \<le> 0" using cmp_flip [of "zs ! lb" "zs ! lb"] by linarith
  have "cmp (ys ! a) (zs ! lb) \<le> 0" using p a self by (auto simp: y)
  moreover have "cmp (zs ! lb) (ys ! q) \<le> 0" using p a self by (auto simp: y)
  ultimately show "cmp (ys ! a) (ys ! q) \<le> 0" by (rule cmp_trans)
qed

section \<open>Insertion sort\<close>

lemma insert_back_spec:
  assumes "lb \<le> m" "m \<le> i" "i < lb + n" "lb + n \<le> length xs"
    "\<And>p q. lb \<le> p \<Longrightarrow> p < q \<Longrightarrow> q \<le> i \<Longrightarrow> q \<noteq> m \<Longrightarrow> cmp (xs ! p) (xs ! q) \<le> 0"
  shows "shuffled lb n xs (insert_back cmp xs lb m) \<and>
    (\<forall>p q. lb \<le> p \<and> p < q \<and> q \<le> i \<longrightarrow> cmp (insert_back cmp xs lb m ! p) (insert_back cmp xs lb m ! q) \<le> 0)"
  using assms
proof (induction m arbitrary: xs)
  case 0
  then show ?case by (auto simp: insert_back.simps [of cmp xs])
next
  case (Suc m)
  show ?case
  proof (cases "Suc m > lb \<and> cmp (xs ! m) (xs ! Suc m) > 0")
    case True
    define zs where "zs = exchange xs (Suc m) m"
    have sh: "shuffled lb n xs zs" unfolding zs_def using True Suc.prems(2-4) by (intro shuffled_exchange) auto
    have z: "zs ! k = (if k = m then xs ! Suc m else if k = Suc m then xs ! m else xs ! k)" for k
      unfolding zs_def using True Suc.prems(2-4) by (intro exchange_nth) auto
    have c: "cmp (xs ! Suc m) (xs ! m) \<le> 0" using True cmp_connex(2) by blast
    have "cmp (zs ! p) (zs ! q) \<le> 0" if "lb \<le> p" "p < q" "q \<le> i" "q \<noteq> m" for p q
    proof -
      consider "q = Suc m" "p = m" | "q = Suc m" "p < m" | "q \<noteq> Suc m" "p = m" | "q \<noteq> Suc m" "p = Suc m"
        | "q \<noteq> Suc m" "p \<noteq> m" "p \<noteq> Suc m" using \<open>p < q\<close> by linarith
      then show ?thesis
        by cases (use that c True Suc.prems(2,5) in \<open>simp_all add: z\<close>)
    qed
    with Suc.IH [of zs] True Suc.prems(2-4) shuffled_length [OF sh]
    have "shuffled lb n zs (insert_back cmp zs lb m) \<and>
      (\<forall>p q. lb \<le> p \<and> p < q \<and> q \<le> i \<longrightarrow> cmp (insert_back cmp zs lb m ! p) (insert_back cmp zs lb m ! q) \<le> 0)" by auto
    moreover have "insert_back cmp xs lb (Suc m) = insert_back cmp zs lb m"
      using True by (simp add: insert_back.simps [of cmp xs] zs_def)
    ultimately show ?thesis using shuffled_trans [OF sh] by metis
  next
    case False
    have "insert_back cmp xs lb (Suc m) = xs" using False by (subst insert_back.simps) auto
    moreover have "cmp (xs ! p) (xs ! q) \<le> 0" if "lb \<le> p" "p < q" "q \<le> i" for p q
    proof (cases "q = Suc m")
      case True
      with False that have m: "cmp (xs ! m) (xs ! Suc m) \<le> 0" using cmp_connex(1) by auto
      show ?thesis
      proof (cases "p = m")
        case True
        with m \<open>q = Suc m\<close> show ?thesis by simp
      next
        case False
        with that True Suc.prems(2) Suc.prems(5) [of p m] m cmp_trans [of "xs ! p" "xs ! m" "xs ! q"]
        show ?thesis by simp
      qed
    qed (use Suc.prems(5) that in auto)
    ultimately show ?thesis by simp
  qed
qed

lemma insertion_sort_spec:
  assumes "lb < i" "lb + n \<le> length xs"
    "\<And>p q. lb \<le> p \<Longrightarrow> p < q \<Longrightarrow> q < min i (lb + n) \<Longrightarrow> cmp (xs ! p) (xs ! q) \<le> 0"
  shows "shuffled lb n xs (insertion_sort cmp xs lb i (lb + n)) \<and>
    (\<forall>p q. lb \<le> p \<and> p < q \<and> q < lb + n \<longrightarrow>
      cmp (insertion_sort cmp xs lb i (lb + n) ! p) (insertion_sort cmp xs lb i (lb + n) ! q) \<le> 0)"
  using assms
proof (induction "lb + n - i" arbitrary: xs i)
  case 0
  then show ?case by (auto simp: insertion_sort.simps [of cmp xs])
next
  case (Suc d)
  define zs where "zs = insert_back cmp xs lb i"
  have "i < lb + n" using Suc.hyps(2) by simp
  then have z: "shuffled lb n xs zs \<and> (\<forall>p q. lb \<le> p \<and> p < q \<and> q \<le> i \<longrightarrow> cmp (zs ! p) (zs ! q) \<le> 0)"
    unfolding zs_def using Suc.prems by (intro insert_back_spec) auto
  with Suc.hyps(1) [of "i + 1" zs] Suc.hyps(2) Suc.prems(1,2) shuffled_length [of lb n xs zs]
  have "shuffled lb n zs (insertion_sort cmp zs lb (i + 1) (lb + n)) \<and>
    (\<forall>p q. lb \<le> p \<and> p < q \<and> q < lb + n \<longrightarrow>
      cmp (insertion_sort cmp zs lb (i + 1) (lb + n) ! p) (insertion_sort cmp zs lb (i + 1) (lb + n) ! q) \<le> 0)" by simp
  moreover have "insertion_sort cmp xs lb i (lb + n) = insertion_sort cmp zs lb (i + 1) (lb + n)"
    using \<open>i < lb + n\<close> by (simp add: insertion_sort.simps [of cmp xs] zs_def)
  ultimately show ?case using z shuffled_trans by metis
qed

section \<open>The whole sort\<close>

definition sort_state :: "'a list \<Rightarrow> segment list \<Rightarrow> 'a list \<Rightarrow> bool" where
  "sort_state xs0 ss xs \<longleftrightarrow> perm_state xs0 ss xs \<and> disjoint_segments ss \<and> sorted_upto cmp ss xs"

lemma sort_state_round:
  assumes st: "sort_state xs0 ((lb, n) # stack) xs" and n: "7 \<le> n"
    and p: "partition_segment cmp xs lb n = (ys, j, m0)" and r: "(b, c, lb', n') = split_round lb n j m0"
  shows "sort_state xs0 ((lb', n') # (if c > 1 then (b, c) # stack else stack)) ys"
proof -
  define ss where "ss = (if c > 1 then (b, c) # stack else stack)"
  have x: "disjoint_segments ((lb, n) # stack)" "sorted_upto cmp ((lb, n) # stack) xs" "perm_state xs0 ((lb, n) # stack) xs"
    using st by (auto simp: sort_state_def)
  note b = perm_state_bound [OF x(3)]
  note ps = partition_segment_spec [OF p n b]
  have j: "j = lb + m0" "m0 < n" using ps(2,3) by auto
  have parts: "{(b, c), (lb', n')} = {(lb, m0), (j + 1, n - m0 - 1)}" using r by (auto split: if_splits)
  have sub: "in_segment (lb, n) k" if "in_segment (b, c) k \<or> in_segment (lb', n') k" for k
    using r j that by (auto simp: in_segment_def split: if_splits)
  have apart: "\<not> (in_segment (b, c) k \<and> in_segment (lb', n') k)" for k
    using r j by (auto simp: in_segment_def split: if_splits)
  have "disjoint_segments ((lb', n') # ss)"
    using x(1) sub apart unfolding ss_def disjoint_segments_def by auto
  moreover have "sorted_upto cmp ([(b, c), (lb', n')] @ stack) ys"
  proof (rule sorted_upto_refine [OF x(2,1) ps(1) _ b])
    fix u v
    assume u: "lb \<le> u" "u < v" "v < lb + n"
    have "cmp (ys ! u) (ys ! v) \<le> 0 \<or> (\<exists>s \<in> {(lb, m0), (j + 1, n - m0 - 1)}. in_segment s u \<and> in_segment s v)"
      using ps(4) [of u v] u j by (cases "v < j"; cases "u > j") (auto simp: in_segment_def)
    then show "cmp (ys ! u) (ys ! v) \<le> 0 \<or> (\<exists>s \<in> set [(b, c), (lb', n')]. in_segment s u \<and> in_segment s v)"
      using parts by auto
  qed
  then have "sorted_upto cmp ((lb', n') # ss) ys"
    by (rule sorted_upto_weaken) (auto simp: ss_def)
  ultimately show ?thesis
    using perm_state_round [OF x(3) n p r] by (simp add: sort_state_def ss_def)
qed

lemma sort_state_finish:
  assumes "sort_state xs0 ((lb, n) # stack) xs"
  shows "sort_state xs0 stack (insertion_sort cmp xs lb (lb + 1) (lb + n))"
proof -
  define zs where "zs = insertion_sort cmp xs lb (lb + 1) (lb + n)"
  have y: "perm_state xs0 ((lb, n) # stack) xs" "sorted_upto cmp ((lb, n) # stack) xs" "disjoint_segments ((lb, n) # stack)"
    using assms by (auto simp: sort_state_def)
  have z: "shuffled lb n xs zs \<and> (\<forall>p q. lb \<le> p \<and> p < q \<and> q < lb + n \<longrightarrow> cmp (zs ! p) (zs ! q) \<le> 0)"
    unfolding zs_def using perm_state_bound [OF y(1)] by (intro insertion_sort_spec) auto
  have "sorted_upto cmp ([] @ stack) zs"
    by (rule sorted_upto_refine [OF y(2,3) _ _ perm_state_bound [OF y(1)]]) (use z in auto)
  with perm_state_shuffle [OF y(1)] z y(3) show ?thesis
    unfolding zs_def [symmetric] by (auto simp: sort_state_def disjoint_segments_def)
qed

end

sublocale compare_contract \<subseteq> sorted: segment_invariant cmp "sort_state xs0" for xs0
proof
  fix lb n stack and xs ys :: "'a list" and j m0 b c lb' n'
  assume a: "sort_state xs0 ((lb, n) # stack) xs" "7 \<le> n" "partition_segment cmp xs lb n = (ys, j, m0)"
    "(b, c, lb', n') = split_round lb n j m0"
  with sort_state_round [OF a] perm_state_round [OF _ a(2-4)]
  show "sort_state xs0 ((lb', n') # (if c > 1 then (b, c) # stack else stack)) ys \<and> n' < n \<and> (c > 1 \<longrightarrow> length stack < MAXSTACK)"
    by (auto simp: sort_state_def)
qed (rule sort_state_finish)

context compare_contract
begin

lemma sorts:
  assumes "length xs < 2 ^ 64"
  shows "\<exists>ys. qe_qsort_r cmp xs = Some ys \<and> mset ys = mset xs \<and> sorted_wrt (\<lambda>a b. cmp a b \<le> 0) ys"
proof (cases "length xs < 2")
  case True
  then have "sorted_wrt (\<lambda>a b. cmp a b \<le> 0) xs" by (cases xs) auto
  with True show ?thesis by (simp add: qe_qsort_r_def)
next
  case False
  have "sort_state xs [(0, length xs)] xs"
    using perm_state_start [OF assms] by (auto simp: sort_state_def disjoint_segments_def sorted_upto_def in_segment_def)
  from sorted.stack_kept [OF this] obtain ys where y: "sort_stack cmp xs [(0, length xs)] = Some ys" "sort_state xs [] ys" by blast
  then have "sorted_wrt (\<lambda>a b. cmp a b \<le> 0) ys"
    by (auto simp: sort_state_def perm_state_def sorted_upto_def sorted_wrt_iff_nth_less)
  with y False show ?thesis by (auto simp: qe_qsort_r_def sort_state_def perm_state_def)
qed

end

text \<open>C21. Sorting returns, and returns the elements in the order of the comparison function, whenever
  that function is a consistent order and the number of elements is a \<^verbatim>\<open>size_t\<close>.\<close>

theorem qsort_sorts:
  assumes "compare_contract cmp" "length xs < 2 ^ 64"
  shows "\<exists>ys. qe_qsort_r cmp xs = Some ys \<and> mset ys = mset xs \<and> sorted_wrt (\<lambda>a b. cmp a b \<le> 0) ys"
  using compare_contract.sorts [OF assms] .

theorem qsort_sorts_witness:
  "\<exists>ys. qe_qsort_r qe_strcollate [[98], [97], [99]] = Some ys \<and> mset ys = mset [[98], [97], [99]] \<and>
     sorted_wrt (\<lambda>a b. qe_strcollate a b \<le> 0) ys"
  by (rule qsort_sorts) (simp_all add: collate.compare_contract_axioms)



end
