(* ===== verification/Bufed.thy ===== *)
theory Bufed
  imports Sorting Buffer
begin

text \<open>
  The order of the buffer list (\<^verbatim>\<open>src/modes/bufed.c\<close>): the comparison function that
  \<^verbatim>\<open>build_bufed_list\<close> hands to \<^verbatim>\<open>qe_qsort_r\<close>, on the fields of a buffer it looks at. It combines
  comparisons of integers with the collation of strings; the combinators of the contract
  \<^verbatim>\<open>compare_contract\<close> show that every sort mode is a consistent order.
\<close>

record BufedBuffer =
  bb_flags :: "32 word"
  bb_modified :: int
  bb_mtime :: int
  bb_total_size :: int
  bb_filename :: "byte list"
  bb_name :: "byte list"

definition BUFED_SORT_MODIFIED :: "32 word" where "BUFED_SORT_MODIFIED = 1"
definition BUFED_SORT_TIME :: "32 word" where "BUFED_SORT_TIME = 4"
definition BUFED_SORT_NAME :: "32 word" where "BUFED_SORT_NAME = 16"
definition BUFED_SORT_FILENAME :: "32 word" where "BUFED_SORT_FILENAME = 64"
definition BUFED_SORT_SIZE :: "32 word" where "BUFED_SORT_SIZE = 256"
definition BUFED_SORT_DESCENDING :: "32 word" where "BUFED_SORT_DESCENDING = 0xAAAA"

abbreviation star_name :: "BufedBuffer \<Rightarrow> int" where
  "star_name b \<equiv> of_bool (head0 (bb_name b) = ch CHR ''*'')"

text \<open>The body of the loop that is left by \<^verbatim>\<open>break\<close>, and the whole function.\<close>

definition bufed_sort_keys :: "32 word \<Rightarrow> BufedBuffer \<Rightarrow> BufedBuffer \<Rightarrow> int" where
  "bufed_sort_keys sort_mode b1 b2 =
     (if sort_mode AND BUFED_SORT_TIME \<noteq> 0 \<and> bb_mtime b1 \<noteq> bb_mtime b2
      then (if bb_mtime b1 < bb_mtime b2 then -1 else 1)
      else if sort_mode AND BUFED_SORT_SIZE \<noteq> 0 \<and> bb_total_size b1 \<noteq> bb_total_size b2
      then (if bb_total_size b1 < bb_total_size b2 then -1 else 1)
      else if sort_mode AND BUFED_SORT_FILENAME \<noteq> 0 \<and> sint (head0 (bb_filename b2)) - sint (head0 (bb_filename b1)) \<noteq> 0
      then sint (head0 (bb_filename b2)) - sint (head0 (bb_filename b1))
      else if sort_mode AND BUFED_SORT_FILENAME \<noteq> 0 \<and> qe_strcollate (bb_filename b1) (bb_filename b2) \<noteq> 0
      then qe_strcollate (bb_filename b1) (bb_filename b2)
      else if star_name b1 - star_name b2 \<noteq> 0 then star_name b1 - star_name b2
      else qe_strcollate (bb_name b1) (bb_name b2))"

definition bufed_sort_func :: "32 word \<Rightarrow> BufedBuffer \<Rightarrow> BufedBuffer \<Rightarrow> int" where
  "bufed_sort_func sort_mode b1 b2 =
     (let res = uint (bb_flags b1 AND BF_SYSTEM) - uint (bb_flags b2 AND BF_SYSTEM)
      in if res \<noteq> 0 then res
         else let res = (if sort_mode AND BUFED_SORT_MODIFIED \<noteq> 0 then bb_modified b2 - bb_modified b1 else 0)
              in if res \<noteq> 0 then res
                 else let res = bufed_sort_keys sort_mode b1 b2
                      in if sort_mode AND BUFED_SORT_DESCENDING \<noteq> 0 then - res else res)"

section \<open>Every sort mode is a consistent order\<close>

lemma contract_cong: "compare_contract cmp \<Longrightarrow> (\<And>a b. cmp' a b = cmp a b) \<Longrightarrow> compare_contract cmp'"
  by (simp add: compare_contract_def)

lemma compare_when: "compare_contract cmp \<Longrightarrow> compare_contract (\<lambda>a b. if p then cmp a b else 0)"
  by (cases p) (simp_all add: compare_contract_def)

lemma compare_on: "compare_contract cmp \<Longrightarrow> compare_contract (\<lambda>a b. cmp (f a) (f b))"
  unfolding compare_contract_def by blast

lemmas then_by = compare_contract.followed_by

lemma bufed_keys_contract: "compare_contract (bufed_sort_keys sort_mode)"
proof -
  note names = then_by [OF compare_key(1) [where f = star_name] compare_on [OF collate.compare_contract_axioms, where f = bb_name]]
  note filenames = then_by [OF compare_when [OF compare_on [OF collate.compare_contract_axioms, where f = bb_filename],
    where p = "sort_mode AND BUFED_SORT_FILENAME \<noteq> 0"] names]
  note initials = then_by [OF compare_when [OF compare_key(1) [where f = "\<lambda>b. - sint (head0 (bb_filename b))"],
    where p = "sort_mode AND BUFED_SORT_FILENAME \<noteq> 0"] filenames]
  note sizes = then_by [OF compare_when [OF compare_key(2) [where f = bb_total_size],
    where p = "sort_mode AND BUFED_SORT_SIZE \<noteq> 0"] initials]
  note times = then_by [OF compare_when [OF compare_key(2) [where f = bb_mtime],
    where p = "sort_mode AND BUFED_SORT_TIME \<noteq> 0"] sizes]
  show ?thesis
    by (rule contract_cong [OF times]) (auto simp: bufed_sort_keys_def)
qed

interpretation bufed: compare_contract "bufed_sort_func sort_mode" for sort_mode
proof -
  have keys: "compare_contract (\<lambda>b1 b2. if sort_mode AND BUFED_SORT_DESCENDING \<noteq> 0 then - bufed_sort_keys sort_mode b1 b2
      else bufed_sort_keys sort_mode b1 b2)"
    using bufed_keys_contract compare_contract.reversed [OF bufed_keys_contract, of sort_mode]
    by (cases "sort_mode AND BUFED_SORT_DESCENDING = 0") simp_all
  note changed = then_by [OF compare_when [OF compare_key(1) [where f = "\<lambda>b. - bb_modified b"],
    where p = "sort_mode AND BUFED_SORT_MODIFIED \<noteq> 0"] keys]
  note system = then_by [OF compare_key(1) [where f = "\<lambda>b. uint (bb_flags b AND BF_SYSTEM)"] changed]
  show "compare_contract (bufed_sort_func sort_mode)"
    by (rule contract_cong [OF system]) (auto simp: bufed_sort_func_def Let_def)
qed


definition sample_list :: "BufedBuffer list" where
  "sample_list = map (\<lambda>(f, n). \<lparr>bb_flags = f, bb_modified = 0, bb_mtime = 0, bb_total_size = 0, bb_filename = [], bb_name = n\<rparr>)
     [(2, cstr ''*log*''), (0, cstr ''b.c''), (0, cstr ''a.c'')]"


end
