(* ===== verification/Keys.thy ===== *)
theory Keys
  imports OutBuf
begin

text \<open>
  Key names (\<^verbatim>\<open>src/util.c\<close>, key codes in \<^verbatim>\<open>src/util.h\<close>): the table of named keys, the parser
  \<^verbatim>\<open>strtokey\<close>, \<^verbatim>\<open>strtokeys\<close> with the composition of \<^verbatim>\<open>ESC\<close> prefixes, and the printer \<^verbatim>\<open>buf_put_key\<close>,
  \<^verbatim>\<open>buf_put_keys\<close>. A key is a 32 bit word. A parser returns the key and the rest of the string;
  \<^const>\<open>None\<close> is the outcome of reading past the terminating zero, which happens when a
  modifier prefix is the end of the string.
\<close>

section \<open>Key codes (util.h)\<close>

definition KEY_CTRL :: "char32 \<Rightarrow> char32" where "KEY_CTRL c = c AND 0x001f"
definition KEY_META :: "char32 \<Rightarrow> char32" where "KEY_META c = c OR 0xe100"
definition KEY_ESC1 :: "char32 \<Rightarrow> char32" where "KEY_ESC1 c = c OR 0xe200"
definition KEY_IS_ESC1 :: "char32 \<Rightarrow> bool" where
  "KEY_IS_ESC1 c \<longleftrightarrow> c \<ge> KEY_ESC1 0 \<and> c \<le> KEY_ESC1 0xff"

definition KEY_ESC :: char32 where "KEY_ESC = KEY_CTRL 91"

definition keycodes :: "char32 list" where
  "keycodes =
    [0x20, 127, KEY_CTRL 109, KEY_CTRL 106, KEY_ESC, KEY_CTRL 105, KEY_ESC1 90,
     KEY_CTRL 32, KEY_CTRL 64, 127, KEY_CTRL 92,
     KEY_CTRL 93, KEY_CTRL 94, KEY_CTRL 95, KEY_CTRL 95,
     KEY_ESC1 68, KEY_ESC1 67, KEY_ESC1 65, KEY_ESC1 66,
     KEY_ESC1 1, KEY_ESC1 4, KEY_ESC1 5, KEY_ESC1 6,
     KEY_ESC1 100, KEY_ESC1 99, KEY_ESC1 97, KEY_ESC1 98,
     KEY_ESC1 104, KEY_ESC1 102, KEY_ESC1 105, KEY_ESC1 106,
     KEY_ESC1 (100 + 128), KEY_ESC1 (99 + 128), KEY_ESC1 (97 + 128), KEY_ESC1 (98 + 128),
     KEY_ESC1 (104 + 128), KEY_ESC1 (102 + 128), KEY_ESC1 (105 + 128), KEY_ESC1 (106 + 128),
     KEY_ESC1 (100 + 64), KEY_ESC1 (99 + 64), KEY_ESC1 (97 + 64), KEY_ESC1 (98 + 64),
     KEY_ESC1 (104 + 64), KEY_ESC1 (102 + 64), KEY_ESC1 (105 + 64), KEY_ESC1 (106 + 64),
     KEY_ESC1 5, KEY_ESC1 6, KEY_ESC1 2, KEY_ESC1 3,
     0xE001, 0xE000, 0xE002,
     KEY_ESC1 11, KEY_ESC1 12, KEY_ESC1 13, KEY_ESC1 14, KEY_ESC1 15,
     KEY_ESC1 17, KEY_ESC1 18, KEY_ESC1 19, KEY_ESC1 20, KEY_ESC1 21,
     KEY_ESC1 23, KEY_ESC1 24, KEY_ESC1 25, KEY_ESC1 26, KEY_ESC1 28,
     KEY_ESC1 29, KEY_ESC1 31, KEY_ESC1 32, KEY_ESC1 33, KEY_ESC1 34,
     123, 125, 124]"

definition keystr :: "byte list list" where
  "keystr = map cstr
    [''SPC'', ''DEL'', ''RET'', ''LF'', ''ESC'', ''TAB'', ''S-TAB'',
     ''C-SPC'', ''C-@'', ''C-?'', ''C-'' @ [CHR 0x5C], ''C-]'', ''C-^'', ''C-_'', ''C-/'',
     ''left'', ''right'', ''up'', ''down'',
     ''home'', ''end'', ''pageup'', ''pagedown'',
     ''C-left'', ''C-right'', ''C-up'', ''C-down'',
     ''C-home'', ''C-end'', ''C-pageup'', ''C-pagedown'',
     ''S-left'', ''S-right'', ''S-up'', ''S-down'',
     ''S-home'', ''S-end'', ''S-pageup'', ''S-pagedown'',
     ''C-S-left'', ''C-S-right'', ''C-S-up'', ''C-S-down'',
     ''C-S-home'', ''C-S-end'', ''C-S-pageup'', ''C-S-pagedown'',
     ''prior'', ''next'', ''insert'', ''delete'',
     ''default'', ''none'', ''unknown'',
     ''f1'', ''f2'', ''f3'', ''f4'', ''f5'', ''f6'', ''f7'', ''f8'', ''f9'', ''f10'',
     ''f11'', ''f12'', ''f13'', ''f14'', ''f15'', ''f16'', ''f17'', ''f18'', ''f19'', ''f20'',
     ''LB'', ''RB'', ''VB'']"

section \<open>Parsing\<close>

text \<open>\<^verbatim>\<open>compose_keys\<close> on the keys read so far, the last one first in the array's order.\<close>

definition compose_keys :: "char32 list \<Rightarrow> char32 list \<times> bool" where
  "compose_keys keys =
     (if length keys < 2 then (keys, False)
      else let n = length keys; k0 = keys ! (n - 2); k1 = keys ! (n - 1)
           in if k0 = KEY_ESC \<and> k1 \<noteq> KEY_ESC \<and> (k1 \<le> 0xff \<or> KEY_IS_ESC1 k1)
              then (take (n - 2) keys @ [KEY_META k1], True) else (keys, False))"

fun scan_separator :: "byte list \<Rightarrow> byte list" where
  "scan_separator [] = []"
| "scan_separator (c # p) =
     (if c = 32 \<or> (c = 44 \<and> head0 p = 32) then c # p else scan_separator p)"

text \<open>The first named key that ends at the separator; pointers into one string are equal when
  the rests they point to have the same length.\<close>

fun find_named :: "char32 list \<Rightarrow> byte list list \<Rightarrow> byte list \<Rightarrow> byte list \<Rightarrow> char32 option" where
  "find_named (code # codes) (name # names) p p1 =
     (case strstart p name of
        Some q \<Rightarrow> if length q = length p1 then Some code else find_named codes names p p1
      | None \<Rightarrow> find_named codes names p p1)"
| "find_named _ _ p p1 = None"

definition strtokey1 :: "byte list \<Rightarrow> (char32 \<times> byte list) option" where
  "strtokey1 p =
     (let p1 = scan_separator p
      in case find_named keycodes keystr p p1 of
           Some key \<Rightarrow> Some (key, p1)
         | None \<Rightarrow>
             if char_at p 0 = ch CHR ''C'' \<and> char_at p 1 = ch CHR ''-'' \<and> length p = length p1 + 3
             then Some (KEY_CTRL (ucast (char_at p 2)), p1)
             else if p = [] then None
             else let (key, k) = utf8_decode p in Some (key, drop k p))"

definition strtokey :: "byte list \<Rightarrow> (char32 \<times> byte list) option" where
  "strtokey p =
     (if char_at p 0 = ch CHR ''M'' \<and> char_at p 1 = ch CHR ''-''
      then map_option (\<lambda>(key, p). (KEY_META key, p)) (strtokey1 (drop 2 p))
      else if char_at p 0 = ch CHR ''C'' \<and> char_at p 1 = ch CHR ''-'' \<and> char_at p 2 = ch CHR ''M'' \<and> char_at p 3 = ch CHR ''-''
      then map_option (\<lambda>(key, p). (KEY_META (KEY_CTRL key), p)) (strtokey1 (drop 4 p))
      else strtokey1 p)"

lemma scan_separator_shorter: "length (scan_separator p) \<le> length p"
  by (induction p) auto

lemma strstart_append: "strstart p name = Some q \<longleftrightarrow> p = name @ q"
  by (induction p name rule: strstart.induct) auto

lemma find_named_spec:
  "find_named codes names p p1 = Some key \<Longrightarrow> \<exists>name \<in> set names. \<exists>q. p = name @ q \<and> length q = length p1"
  by (induction codes names p p1 rule: find_named.induct) (auto simp: strstart_append split: option.splits if_splits)

lemma keystr_nonempty: "[] \<notin> set keystr"
  by (simp add: keystr_def cstr_def)

lemma strtokey1_shorter: "strtokey1 p = Some (key, p') \<Longrightarrow> length p' < length p"
proof -
  assume a: "strtokey1 p = Some (key, p')"
  define p1 where "p1 = scan_separator p"
  show ?thesis
  proof (cases "find_named keycodes keystr p p1")
    case None
    have "length (drop (snd (utf8_decode p)) p) < length p" if "p \<noteq> []"
      using decode_consumes [of p] that by (cases p) auto
    with a None show ?thesis
      by (auto simp: strtokey1_def p1_def Let_def split: if_splits prod.splits)
  next
    case (Some k)
    with find_named_spec [OF Some] keystr_nonempty a show ?thesis
      by (auto simp: strtokey1_def Let_def simp flip: p1_def)
  qed
qed

lemma strtokey_shorter: "strtokey p = Some (key, p') \<Longrightarrow> length p' < length p"
  by (auto simp: strtokey_def split: if_splits dest!: strtokey1_shorter)

function strtokeys_loop :: "byte list \<Rightarrow> char32 list \<Rightarrow> int \<Rightarrow> (char32 list \<times> byte list) option" where
  "strtokeys_loop p keys max_keys =
     (let (c, p) = qe_skip_spaces p
      in if c = 0 then Some (keys, p)
         else case strtokey p of
                None \<Rightarrow> None
              | Some (key, p) \<Rightarrow>
                  let keys = fst (compose_keys (keys @ [key]))
                  in if char_at p 0 = 44 \<and> char_at p 1 = 32 then Some (keys, drop 2 p)
                     else if int (length keys) \<ge> max_keys then Some (keys, p)
                     else strtokeys_loop p keys max_keys)"
  by pat_completeness auto
termination
proof (relation "measure (\<lambda>(p, keys, max_keys). length p)")
  fix p keys and max_keys :: int and x c p1 a key p2 keys'
  assume "x = qe_skip_spaces p" "(c, p1) = x" "strtokey p1 = Some a" "(key, p2) = a"
  then have "length p2 < length p1" "length p1 \<le> length p"
    by (auto simp: qe_skip_spaces_def Let_def length_dropWhile_le dest: strtokey_shorter sym)
  then show "((p2, keys', max_keys), (p, keys, max_keys)) \<in> measure (\<lambda>(p, keys, max_keys). length p)" by simp
qed simp

declare strtokeys_loop.simps [simp del]

definition strtokeys :: "byte list \<Rightarrow> int \<Rightarrow> (char32 list \<times> byte list) option" where
  "strtokeys str max_keys = strtokeys_loop str [] max_keys"

section \<open>Printing\<close>

fun find_code :: "char32 list \<Rightarrow> byte list list \<Rightarrow> char32 \<Rightarrow> byte list option" where
  "find_code (code # codes) (name # names) key = (if code = key then Some name else find_code codes names key)"
| "find_code _ _ key = None"

lemma low_byte: "unat (key AND 0xff :: char32) = unat key mod 256"
proof -
  have "key AND 0xff = take_bit 8 key" by (simp add: take_bit_eq_mask mask_eq_exp_minus_1)
  then have "key AND 0xff = key mod 256" by (simp add: take_bit_eq_mod)
  then show ?thesis by (simp add: unat_mod_distrib)
qed

lemma esc1_low: "unat (KEY_ESC1 (key AND 0xff)) = 0xe200 + unat key mod 256"
proof -
  have "(key AND 0xff) AND 0xe200 = 0" by (simp add: and.assoc)
  then have "KEY_ESC1 (key AND 0xff) = (key AND 0xff) + 0xe200" by (simp add: KEY_ESC1_def disjunctive_add_eq_or)
  moreover have "unat key mod 256 + 0xe200 < 2 ^ 32" by (rule less_trans [of _ "256 + 0xe200"]) simp_all
  ultimately show ?thesis by (simp add: unat_add_lem [THEN iffD1] low_byte unat_word_ariths)
qed

lemma key_bounds: "KEY_META 0 = 0xe100" "KEY_META 0xff = 0xe1ff" "KEY_META (KEY_ESC1 0) = 0xe300" "KEY_META (KEY_ESC1 0xff) = 0xe3ff"
  "KEY_ESC1 0 = 0xe200" "KEY_ESC1 0xff = 0xe2ff" "KEY_CTRL 97 = 1" "KEY_CTRL 122 = 26"
  "KEY_META 0xe200 = 0xe300" "KEY_META 0xe2ff = 0xe3ff"
  by (simp_all add: KEY_META_def KEY_ESC1_def KEY_CTRL_def)

definition meta_key :: "char32 \<Rightarrow> bool" where
  "meta_key key \<longleftrightarrow> (key \<ge> KEY_META 0 \<and> key \<le> KEY_META 0xff) \<or> (key \<ge> KEY_META (KEY_ESC1 0) \<and> key \<le> KEY_META (KEY_ESC1 0xff))"

lemma meta_stripped: "\<not> meta_key (key AND 0xff)" "\<not> meta_key (KEY_ESC1 (key AND 0xff))"
proof -
  have "unat key mod 256 < 256" by simp
  then show "\<not> meta_key (key AND 0xff)" "\<not> meta_key (KEY_ESC1 (key AND 0xff))"
    by (simp_all add: meta_key_def key_bounds word_le_nat_alt low_byte esc1_low not_le) linarith
qed

lemma meta_keyI:
  "key \<ge> KEY_META 0 \<and> key \<le> KEY_META 0xff \<Longrightarrow> meta_key key"
  "key \<ge> KEY_META (KEY_ESC1 0) \<and> key \<le> KEY_META (KEY_ESC1 0xff) \<Longrightarrow> meta_key key"
  by (simp_all add: meta_key_def)

text \<open>The recursion is one level deep: it is made on a key that is not a Meta key.\<close>

function buf_put_key :: "buf_t \<Rightarrow> char32 \<Rightarrow> (buf_t \<times> int) option" where
  "buf_put_key out key =
     (let start = bt_len out;
          result = (\<lambda>out. (out, int (bt_len out) - int start))
      in case find_code keycodes keystr key of
           Some name \<Rightarrow> Some (buf_puts out name)
         | None \<Rightarrow>
             if key \<ge> KEY_META 0 \<and> key \<le> KEY_META 0xff
             then map_option (result \<circ> fst) (buf_put_key (fst (buf_puts out (cstr ''M-''))) (key AND 0xff))
             else if key \<ge> KEY_META (KEY_ESC1 0) \<and> key \<le> KEY_META (KEY_ESC1 0xff)
             then map_option (result \<circ> fst) (buf_put_key (fst (buf_puts out (cstr ''M-''))) (KEY_ESC1 (key AND 0xff)))
             else if key \<ge> KEY_CTRL 97 \<and> key \<le> KEY_CTRL 122
             then map_option (result \<circ> fst) (buf_printf out (cstr ''C-'' @ [ucast (key + 97 - 1)]))
             else Some (result (fst (buf_putc_utf8 out key))))"
  by pat_completeness auto
termination
  by (relation "measure (\<lambda>(out, key). of_bool (meta_key key))") (auto simp: meta_stripped meta_keyI)

declare buf_put_key.simps [simp del]

fun put_keys_loop :: "buf_t \<Rightarrow> char32 list \<Rightarrow> bool \<Rightarrow> buf_t option" where
  "put_keys_loop out [] first = Some out"
| "put_keys_loop out (key # keys) first =
     (let out = (if first then out else fst (buf_put_byte out 32))
      in case buf_put_key out key of None \<Rightarrow> None | Some (out, n) \<Rightarrow> put_keys_loop out keys False)"

definition buf_put_keys :: "buf_t \<Rightarrow> char32 list \<Rightarrow> (buf_t \<times> int) option" where
  "buf_put_keys out keys =
     map_option (\<lambda>out'. (out', int (bt_len out') - int (bt_len out))) (put_keys_loop out keys True)"

end
