(* ===== verification/KeyLaws.thy ===== *)
theory KeyLaws
  imports Keys
begin

text \<open>
  The printer and the parser of key names agree: the name of a key, as printed, is read
  back as this key, and so is a sequence of keys.
\<close>

section \<open>Names of keys\<close>

definition plain_name :: "char32 \<Rightarrow> byte list" where
  "plain_name key =
     (case find_code keycodes keystr key of
        Some name \<Rightarrow> name
      | None \<Rightarrow> if key \<ge> KEY_CTRL 97 \<and> key \<le> KEY_CTRL 122 then cstr ''C-'' @ [ucast (key + 96)] else utf8_encode key)"

definition key_name :: "char32 \<Rightarrow> byte list" where
  "key_name key =
     (case find_code keycodes keystr key of
        Some name \<Rightarrow> name
      | None \<Rightarrow>
          if key \<ge> KEY_META 0 \<and> key \<le> KEY_META 0xff then cstr ''M-'' @ plain_name (key AND 0xff)
          else if key \<ge> KEY_META (KEY_ESC1 0) \<and> key \<le> KEY_META (KEY_ESC1 0xff)
          then cstr ''M-'' @ plain_name (KEY_ESC1 (key AND 0xff))
          else plain_name key)"

section \<open>The table\<close>

lemma keystr_distinct: "distinct keystr"
  by (simp add: keystr_def cstr_def)

lemma table_length: "length keycodes = length keystr"
  by (simp add: keycodes_def keystr_def)

definition named_ok :: "byte list \<Rightarrow> bool" where
  "named_ok n \<longleftrightarrow> 2 \<le> length n \<and> 32 \<notin> set n \<and> 44 \<notin> set n \<and> n ! 0 < 128 \<and> 33 \<le> n ! 0 \<and> take 2 n \<noteq> cstr ''M-'' \<and> take 3 n \<noteq> cstr ''C-M'' \<and> n \<noteq> cstr ''C-'' \<and>
     (length n = 3 \<and> take 2 n = cstr ''C-'' \<longrightarrow> \<not> (97 \<le> n ! 2 \<and> n ! 2 \<le> 122))"

lemma keystr_ok: "list_all named_ok keystr"
  by (simp add: keystr_def cstr_def named_ok_def)

lemma find_named_map:
  "length codes = length names \<Longrightarrow> find_named codes names (name @ rest) rest = map_of (zip names codes) name"
proof (induction codes names rule: list_induct2)
  case (Cons c cs n ns)
  show ?case
  proof (cases "strstart (name @ rest) n")
    case (Some q)
    then have "name @ rest = n @ q" by (simp add: strstart_append)
    then have "length q = length rest \<longleftrightarrow> n = name" by auto
    with Some Cons.IH show ?thesis by simp
  next
    case None
    then have "n \<noteq> name" using strstart_append [of "name @ rest" name rest] by auto
    with None Cons.IH show ?thesis by simp
  qed
qed simp

lemma find_code_zip: "length codes = length names \<Longrightarrow> find_code codes names key = Some name \<Longrightarrow> (name, key) \<in> set (zip names codes)"
  by (induction codes names rule: list_induct2) (auto split: if_splits)

lemma find_code_None: "length codes = length names \<Longrightarrow> find_code codes names key = None \<Longrightarrow> key \<notin> set codes"
  "key \<notin> set codes \<Longrightarrow> find_code codes names key = None"
  by (induction codes names key rule: find_code.induct) (auto split: if_splits)

lemma find_code_named:
  assumes "find_code keycodes keystr key = Some name"
  shows "map_of (zip keystr keycodes) name = Some key" "named_ok name"
proof -
  have z: "(name, key) \<in> set (zip keystr keycodes)" by (rule find_code_zip [OF table_length assms])
  show "map_of (zip keystr keycodes) name = Some key"
    by (rule map_of_is_SomeI [OF _ z]) (simp add: table_length keystr_distinct)
  show "named_ok name" using keystr_ok set_zip_leftD [OF z] by (simp add: list_all_iff)
qed


lemma map_of_unnamed: "\<not> named_ok name \<Longrightarrow> map_of (zip keystr keycodes) name = None"
  using keystr_ok set_zip_leftD [of name _ keystr keycodes]
  by (auto simp: list_all_iff map_of_eq_None_iff)

section \<open>Reading a plain name\<close>

abbreviation ends_here :: "byte list \<Rightarrow> bool" where
  "ends_here rest \<equiv> rest = [] \<or> hd rest = 32"

lemma scan_separator_name: "32 \<notin> set name \<Longrightarrow> 44 \<notin> set name \<Longrightarrow> ends_here rest \<Longrightarrow> scan_separator (name @ rest) = rest"
  by (induction name) (auto, cases rest, auto)

lemma encode_high: "0x80 \<le> c \<Longrightarrow> \<forall>b \<in> set (utf8_encode c). 128 \<le> b"
proof -
  assume c: "0x80 \<le> c"
  have or: "128 \<le> x OR m" if "128 \<le> m" for x m :: byte
    by (rule order_trans [OF that le_word_or1])
  have "128 \<le> trail_byte k c" for k unfolding trail_byte_def by (rule or) simp
  with c show ?thesis by (auto simp: utf8_encode_def intro!: or)
qed

lemma utf8_name:
  assumes "find_code keycodes keystr key = None" "\<not> (key \<ge> KEY_CTRL 97 \<and> key \<le> KEY_CTRL 122)"
  obtains b where "utf8_encode key = [b]" "b \<noteq> 32" "ucast b = key" "b < 128"
    | "\<forall>b \<in> set (utf8_encode key). 128 \<le> b" "utf8_encode key \<noteq> []"
proof (cases "key < 0x80")
  case True
  have "key \<noteq> 32" using assms(1) by (auto simp: keycodes_def keystr_def)
  have u: "ucast (ucast key :: byte) = key"
    using True by (simp add: unsigned_ucast_eq take_bit_nat_eq_self word_less_nat_alt word_unat_eq_iff unsigned_take_bit_eq)
  have "(ucast key :: byte) < 128"
    using True by (simp add: unsigned_ucast_eq take_bit_nat_eq_self word_less_nat_alt)
  moreover have "(ucast key :: byte) \<noteq> 32" using u \<open>key \<noteq> 32\<close> by auto
  ultimately show thesis using that(1) [of "ucast key"] True u by (simp add: encode_ascii)
next
  case False
  then show thesis using that(2) encode_high [of key] by (auto simp: not_less utf8_encode_def)
qed

lemma decode_name:
  "strtokey1 p = Some (key, drop k p)"
  if "find_named keycodes keystr p (scan_separator p) = None" "p \<noteq> []" "utf8_decode p = (key, k)"
     "\<not> (char_at p 0 = ch CHR ''C'' \<and> char_at p 1 = ch CHR ''-'')"
  using that by (auto simp: strtokey1_def Let_def)

lemma find_named_nothing: "find_named keycodes keystr p p = None"
proof (cases "find_named keycodes keystr p p")
  case (Some key)
  with find_named_spec [OF Some] keystr_nonempty show ?thesis by auto
qed

lemma ctrl_mod: "n \<le> 26 \<Longrightarrow> (n + 96) mod 32 = (n :: nat)"
  using mod_mult_self1 [of n 3 32] by simp

lemma strtokey1_plain:
  assumes "ends_here rest"
  shows "strtokey1 (plain_name key @ rest) = Some (key, rest)"
proof (cases "find_code keycodes keystr key")
  case (Some name)
  note n = find_code_named [OF Some]
  then have "scan_separator (name @ rest) = rest" using assms by (auto simp: named_ok_def intro: scan_separator_name)
  with Some n(1) show ?thesis by (simp add: plain_name_def strtokey1_def find_named_map [OF table_length])
next
  case None
  show ?thesis
  proof (cases "key \<ge> KEY_CTRL 97 \<and> key \<le> KEY_CTRL 122")
    case True
    define c :: byte where "c = ucast (key + 96)"
    have k: "1 \<le> unat key" "unat key \<le> 26" using True by (simp_all add: key_bounds word_le_nat_alt)
    then have "unat (key + 96) = unat key + 96" by (simp add: unat_word_ariths)
    with k have c: "unat c = unat key + 96" by (simp add: c_def unsigned_ucast_eq take_bit_nat_eq_self)
    have "KEY_CTRL (ucast c) = key"
    proof -
      have "(ucast c :: char32) = key + 96" using c \<open>unat (key + 96) = unat key + 96\<close> by (simp add: word_unat_eq_iff unat_ucast32)
      then have "KEY_CTRL (ucast c) = take_bit 5 (key + 96)" by (simp add: KEY_CTRL_def take_bit_eq_mask mask_eq_exp_minus_1)
      then have "unat (KEY_CTRL (ucast c)) = (unat key + 96) mod 32"
        using \<open>unat (key + 96) = unat key + 96\<close> by (simp add: unsigned_take_bit_eq take_bit_eq_mod unat_mod_distrib)
      also have "\<dots> = unat key" using k(2) by (rule ctrl_mod)
      finally show ?thesis by (simp add: word_unat_eq_iff)
    qed
    moreover have name: "plain_name key = cstr ''C-'' @ [c]" using None True by (simp add: plain_name_def c_def)
    moreover have "scan_separator (plain_name key @ rest) = rest"
      unfolding name using c k assms by (intro scan_separator_name) (auto simp: cstr_def word_unat_eq_iff)
    moreover have "97 \<le> c" "c \<le> 122" using c k by (simp_all add: word_le_nat_alt)
    then have "\<not> named_ok (plain_name key)"
      unfolding name by (simp add: named_ok_def cstr_def numeral_2_eq_2)
    ultimately show ?thesis
      using map_of_unnamed [of "plain_name key"] find_named_map [OF table_length, of "plain_name key" rest]
      by (simp add: strtokey1_def Let_def char_at_def cstr_def numeral_2_eq_2)
  next
    case False
    have name: "plain_name key = utf8_encode key" using None False by (auto simp: plain_name_def)
    note d = decode_encode [of key rest]
    from None False show ?thesis
    proof (cases rule: utf8_name)
      case (1 b)
      have "find_named keycodes keystr ([b] @ rest) (scan_separator ([b] @ rest)) = None"
      proof (cases "b = 44 \<and> rest \<noteq> []")
        case True
        then have "scan_separator ([b] @ rest) = [b] @ rest" using assms by (cases rest) auto
        then show ?thesis by (simp only: find_named_nothing)
      next
        case False
        then have "scan_separator ([b] @ rest) = rest"
          using 1(2) assms scan_separator_name [of "[b]" rest] by (cases "b = 44") auto
        moreover have "\<not> named_ok [b]" by (simp add: named_ok_def)
        ultimately show ?thesis using map_of_unnamed by (simp only: find_named_map [OF table_length])
      qed
      moreover have "char_at ([b] @ rest) 1 \<noteq> ch CHR ''-''" using assms by (cases rest) (auto simp: char_at_def)
      ultimately show ?thesis
        unfolding name using decode_name [of "[b] @ rest" key 1] d 1(1) by simp
    next
      case 2
      have "32 \<notin> set (utf8_encode key)" "44 \<notin> set (utf8_encode key)" using 2(1) by force+
      then have "scan_separator (utf8_encode key @ rest) = rest" using assms by (rule scan_separator_name)
      moreover have h: "128 \<le> utf8_encode key ! 0" using 2 by (cases "utf8_encode key") auto
      then have "\<not> named_ok (utf8_encode key)" by (auto simp: named_ok_def)
      moreover have "char_at (utf8_encode key @ rest) 0 \<noteq> ch CHR ''C''"
        using h 2(2) by (auto simp: char_at_def nth_append)
      ultimately show ?thesis
        unfolding name using decode_name [of "utf8_encode key @ rest" key "length (utf8_encode key)"] d 2(2) map_of_unnamed
        by (simp add: find_named_map [OF table_length])
    qed
  qed
qed

section \<open>Reading any name\<close>

lemma plain_name_prefix:
  assumes "ends_here rest"
  shows "\<not> (char_at (plain_name key @ rest) 0 = ch CHR ''M'' \<and> char_at (plain_name key @ rest) 1 = ch CHR ''-'') \<and>
    \<not> (char_at (plain_name key @ rest) 0 = ch CHR ''C'' \<and> char_at (plain_name key @ rest) 1 = ch CHR ''-'' \<and>
       char_at (plain_name key @ rest) 2 = ch CHR ''M'' \<and> char_at (plain_name key @ rest) 3 = ch CHR ''-'')"
proof -
  have one: "char_at (b # rest) 1 \<noteq> ch CHR ''-''" for b using assms by (cases rest) (auto simp: char_at_def)
  consider (named) name where "plain_name key = name" "named_ok name"
    | (ctrl) c where "plain_name key = cstr ''C-'' @ [c]" "c \<noteq> ch CHR ''M''"
    | (single) b where "plain_name key = [b]" | (high) b bs where "plain_name key = b # bs" "128 \<le> b"
  proof (cases "find_code keycodes keystr key")
    case (Some name)
    with named find_code_named [OF Some] show thesis by (simp add: plain_name_def)
  next
    case None
    show thesis
    proof (cases "key \<ge> KEY_CTRL 97 \<and> key \<le> KEY_CTRL 122")
      case True
      then have "1 \<le> unat key" "unat key \<le> 26" by (simp_all add: key_bounds word_le_nat_alt)
      then have "unat (ucast (key + 96) :: byte) = unat key + 96"
        by (simp add: unsigned_ucast_eq take_bit_nat_eq_self unat_word_ariths)
      then have "(ucast (key + 96) :: byte) \<noteq> ch CHR ''M''" by (auto simp: word_unat_eq_iff)
      with ctrl True None show thesis by (simp add: plain_name_def)
    next
      case False
      then have name: "plain_name key = utf8_encode key" using None by (auto simp: plain_name_def)
      from None False show thesis
        by (cases rule: utf8_name) (use single high name in \<open>auto simp: neq_Nil_conv\<close>)
    qed
  qed
  then show ?thesis
  proof cases
    case named
    then obtain a b n where n: "name = a # b # n" by (cases name; cases "tl name") (auto simp: named_ok_def)
    with named show ?thesis
      by (cases n) (auto simp: named_ok_def char_at_def cstr_def numeral_2_eq_2 numeral_3_eq_3)
  qed (use one in \<open>auto simp: char_at_def cstr_def\<close>)
qed

lemma strtokey_plain: "ends_here rest \<Longrightarrow> strtokey (plain_name key @ rest) = Some (key, rest)"
  using plain_name_prefix [of rest key] strtokey1_plain [of rest key] by (auto simp: strtokey_def)

lemma strtokey_meta: "ends_here rest \<Longrightarrow> strtokey (cstr ''M-'' @ plain_name key @ rest) = Some (KEY_META key, rest)"
  using strtokey1_plain [of rest key] by (simp add: strtokey_def char_at_def cstr_def)

lemma block_mod: "m * 256 \<le> n \<Longrightarrow> n < m * 256 + 256 \<Longrightarrow> n mod 256 + m * 256 = (n :: nat)"
proof -
  assume "m * 256 \<le> n" "n < m * 256 + 256"
  then have "n div 256 = m" by (intro div_nat_eqI) auto
  then show ?thesis using mod_div_mult_eq [of n 256] by simp
qed

lemma or_low:
  assumes "0xff AND m = 0" "unat m = k * 256" "k < 256" "k * 256 \<le> unat key" "unat key < k * 256 + 256"
  shows "(key AND 0xff) OR m = (key :: char32)"
proof -
  have "(key AND 0xff) AND m = 0" using assms(1) by (metis and.assoc and_zero_eq)
  then have "(key AND 0xff) OR m = (key AND 0xff) + m" by (simp add: disjunctive_add_eq_or)
  moreover have "unat key mod 256 + unat m = unat key" using block_mod [OF assms(4,5)] assms(2) by simp
  ultimately show ?thesis using unsigned_less [of key, where 'a = nat] by (simp add: word_unat_eq_iff unat_word_ariths low_byte)
qed

lemma meta_back:
  "key \<ge> KEY_META 0 \<and> key \<le> KEY_META 0xff \<Longrightarrow> KEY_META (key AND 0xff) = key"
  "key \<ge> KEY_META (KEY_ESC1 0) \<and> key \<le> KEY_META (KEY_ESC1 0xff) \<Longrightarrow> KEY_META (KEY_ESC1 (key AND 0xff)) = key"
proof -
  assume "key \<ge> KEY_META 0 \<and> key \<le> KEY_META 0xff"
  then show "KEY_META (key AND 0xff) = key"
    unfolding KEY_META_def [of "key AND 0xff"] by (intro or_low [where k = "0xe1"]) (simp_all add: key_bounds word_le_nat_alt)
next
  have e: "KEY_META (KEY_ESC1 (key AND 0xff)) = (key AND 0xff) OR 0xe300"
    by (simp add: KEY_META_def KEY_ESC1_def or.assoc)
  assume "key \<ge> KEY_META (KEY_ESC1 0) \<and> key \<le> KEY_META (KEY_ESC1 0xff)"
  then show "KEY_META (KEY_ESC1 (key AND 0xff)) = key"
    unfolding e by (intro or_low [where k = "0xe3"]) (simp_all add: key_bounds word_le_nat_alt)
qed

lemma strtokey_name: "ends_here rest \<Longrightarrow> strtokey (key_name key @ rest) = Some (key, rest)"
  using strtokey_plain [of rest key] strtokey_meta [of rest "key AND 0xff"] strtokey_meta [of rest "KEY_ESC1 (key AND 0xff)"]
    meta_back [of key]
  by (auto simp: key_name_def plain_name_def split: option.splits if_splits)

section \<open>Printing\<close>

definition appended :: "buf_t \<Rightarrow> byte list \<Rightarrow> buf_t \<Rightarrow> bool" where
  "appended out s out' \<longleftrightarrow> buf_inv out' \<and> bt_text out' = bt_text out @ s \<and> bt_pos out' = bt_pos out + int (length s) \<and>
     bt_size out' = bt_size out"

lemma appended_trans: "appended a s b \<Longrightarrow> appended b t c \<Longrightarrow> appended a (s @ t) c"
  by (simp add: appended_def)

lemma puts_fits:
  assumes "buf_inv out" "bt_pos out + int (length s) < bt_size out"
  shows "appended out s (fst (buf_puts out s))" "snd (buf_puts out s) = int (length s)"
proof -
  from assms have "bt_pos out < bt_size out" "\<not> bt_size out - bt_pos out - 1 < int (length s)" by auto
  with write_inv [OF assms(1), of s] assms
  show "appended out s (fst (buf_puts out s))" "snd (buf_puts out s) = int (length s)"
    by (simp_all add: appended_def buf_puts_def buf_write_def Let_def put_at_def)
qed

lemma printf_fits:
  assumes "buf_inv out" "bt_pos out + int (length s) < bt_size out"
  shows "\<exists>out'. buf_printf out s = Some (out', int (length s)) \<and> appended out s out'"
proof -
  have "bt_pos out < bt_size out" using assms(2) by linarith
  with printf_inv [OF assms(1), of s] obtain out' where o: "buf_printf out s = Some (out', int (length s))" "buf_inv out'"
    "bt_text out' = bt_text out @ take (nat (bt_size out - bt_pos out - 1)) s" by blast
  from o(1) have "bt_pos out' = bt_pos out + int (length s)" "bt_size out' = bt_size out"
    by (auto simp: buf_printf_def Let_def split: if_splits)
  with o assms show ?thesis by (simp add: appended_def)
qed

lemma putc_fits:
  assumes "buf_inv out" "bt_pos out + int (length (utf8_encode c)) < bt_size out"
  shows "appended out (utf8_encode c) (fst (buf_putc_utf8 out c))"
  using putc_utf8_inv [OF assms(1), of c] assms(2) by (simp add: appended_def)

lemma put_plain:
  assumes "buf_inv out" "bt_pos out + int (length (plain_name key)) < bt_size out" "\<not> meta_key key"
  shows "\<exists>out' n. buf_put_key out key = Some (out', n) \<and> appended out (plain_name key) out'"
proof (cases "find_code keycodes keystr key")
  case (Some name)
  with puts_fits(1) [OF assms(1), of name] assms(2) show ?thesis
    by (simp add: plain_name_def buf_put_key.simps [of out key] Let_def) (metis surj_pair fst_conv)
next
  case None
  have m: "\<not> (key \<ge> KEY_META 0 \<and> key \<le> KEY_META 0xff)" "\<not> (key \<ge> KEY_META (KEY_ESC1 0) \<and> key \<le> KEY_META (KEY_ESC1 0xff))"
    using assms(3) by (auto simp: meta_key_def)
  show ?thesis
  proof (cases "key \<ge> KEY_CTRL 97 \<and> key \<le> KEY_CTRL 122")
    case True
    with None have n: "plain_name key = cstr ''C-'' @ [ucast (key + 96)]" by (simp add: plain_name_def)
    have k: "key + 97 - 1 = key + 96" by (simp add: algebra_simps)
    from printf_fits [OF assms(1,2)] obtain out' where "buf_printf out (plain_name key) = Some (out', int (length (plain_name key)))"
      "appended out (plain_name key) out'" by blast
    with None True m show ?thesis
      unfolding n by (auto simp: buf_put_key.simps [of out key] Let_def k)
  next
    case False
    then have n: "plain_name key = utf8_encode key" using None by (auto simp: plain_name_def)
    with putc_fits [OF assms(1)] None False m assms(2) show ?thesis
      by (auto simp: buf_put_key.simps [of out key] Let_def)
  qed
qed

lemma put_meta:
  assumes "find_code keycodes keystr key = None" "buf_inv out"
    "bt_pos out + int (length (cstr ''M-'' @ plain_name key')) < bt_size out"
    "(key \<ge> KEY_META 0 \<and> key \<le> KEY_META 0xff \<and> key' = key AND 0xff) \<or>
     (key \<ge> KEY_META (KEY_ESC1 0) \<and> key \<le> KEY_META (KEY_ESC1 0xff) \<and> key' = KEY_ESC1 (key AND 0xff))"
  shows "\<exists>out' n. buf_put_key out key = Some (out', n) \<and> appended out (cstr ''M-'' @ plain_name key') out'"
proof -
  define out1 where "out1 = fst (buf_puts out (cstr ''M-''))"
  have 1: "appended out (cstr ''M-'') out1" unfolding out1_def using assms(3) by (intro puts_fits(1) [OF assms(2)]) simp
  have "\<not> meta_key key'" using assms(4) meta_stripped by auto
  then obtain out' n where 2: "buf_put_key out1 key' = Some (out', n)" "appended out1 (plain_name key') out'"
    using put_plain [of out1 key'] 1 assms(3) by (auto simp: appended_def)
  have "\<not> (key \<ge> KEY_META 0 \<and> key \<le> KEY_META 0xff \<and> key \<ge> KEY_META (KEY_ESC1 0))"
    by (auto simp: key_bounds word_le_nat_alt)
  with 2(1) assms(1,4) have "\<exists>n. buf_put_key out key = Some (out', n)"
    unfolding buf_put_key.simps [of out key] by (auto simp: Let_def simp flip: out1_def)
  with appended_trans [OF 1 2(2)] show ?thesis by blast
qed

lemma put_name:
  assumes "buf_inv out" "bt_pos out + int (length (key_name key)) < bt_size out"
  shows "\<exists>out' n. buf_put_key out key = Some (out', n) \<and> appended out (key_name key) out'"
proof (cases "find_code keycodes keystr key = None \<and> meta_key key")
  case True
  then obtain key' where "(key \<ge> KEY_META 0 \<and> key \<le> KEY_META 0xff \<and> key' = key AND 0xff) \<or>
     (key \<ge> KEY_META (KEY_ESC1 0) \<and> key \<le> KEY_META (KEY_ESC1 0xff) \<and> key' = KEY_ESC1 (key AND 0xff))"
    "key_name key = cstr ''M-'' @ plain_name key'"
    by (cases "key \<ge> KEY_META 0 \<and> key \<le> KEY_META 0xff") (auto simp: key_name_def meta_key_def)
  with put_meta [of key out key'] True assms show ?thesis by simp
next
  case False
  then have n: "key_name key = plain_name key"
    by (auto simp: key_name_def plain_name_def meta_key_def split: option.split)
  show ?thesis
  proof (cases "meta_key key")
    case True
    with False obtain name where f: "find_code keycodes keystr key = Some name" by auto
    with puts_fits(1) [OF assms(1), of name] assms(2) n show ?thesis
      by (simp add: plain_name_def buf_put_key.simps [of out key] Let_def) (metis surj_pair fst_conv)
  qed (use put_plain [OF assms(1)] assms(2) n in simp)
qed

definition keys_name :: "char32 list \<Rightarrow> byte list" where
  "keys_name keys = (case keys of [] \<Rightarrow> [] | key # keys \<Rightarrow> key_name key @ concat (map (\<lambda>k. 32 # key_name k) keys))"

lemma put_keys_rest:
  "buf_inv out \<Longrightarrow> bt_pos out + int (length (concat (map (\<lambda>k. 32 # key_name k) keys))) < bt_size out \<Longrightarrow>
    \<exists>out'. put_keys_loop out keys False = Some out' \<and> appended out (concat (map (\<lambda>k. 32 # key_name k) keys)) out'"
proof (induction keys arbitrary: out)
  case (Cons key keys)
  define out1 where "out1 = fst (buf_put_byte out 32)"
  have 1: "appended out [32] out1"
    using put_byte_inv [OF Cons.prems(1), of 32] Cons.prems(2)
    by (auto simp: appended_def out1_def buf_put_byte_def Let_def)
  then obtain out2 n where 2: "buf_put_key out1 key = Some (out2, n)" "appended out1 (key_name key) out2"
    using put_name [of out1 key] Cons.prems(2) by (auto simp: appended_def)
  then obtain out3 where 3: "put_keys_loop out2 keys False = Some out3" "appended out2 (concat (map (\<lambda>k. 32 # key_name k) keys)) out3"
    using Cons.IH [of out2] Cons.prems(2) 1 by (auto simp: appended_def)
  from appended_trans [OF appended_trans [OF 1 2(2)] 3(2)] 2(1) 3(1) show ?case by (simp add: Let_def flip: out1_def)
qed (simp add: appended_def)

lemma put_keys:
  assumes "buf_inv out" "bt_pos out + int (length (keys_name keys)) < bt_size out"
  shows "\<exists>out' n. buf_put_keys out keys = Some (out', n) \<and> appended out (keys_name keys) out'"
proof (cases keys)
  case Nil
  with assms show ?thesis by (simp add: buf_put_keys_def keys_name_def appended_def)
next
  case (Cons key ks)
  then obtain out1 n where 1: "buf_put_key out key = Some (out1, n)" "appended out (key_name key) out1"
    using put_name [OF assms(1), of key] assms(2) by (auto simp: keys_name_def)
  with put_keys_rest [of out1 ks] assms(2) Cons obtain out' where "put_keys_loop out1 ks False = Some out'"
    "appended out1 (concat (map (\<lambda>k. 32 # key_name k) ks)) out'" by (auto simp: keys_name_def appended_def)
  with 1 Cons appended_trans [OF 1(2)] show ?thesis by (auto simp: buf_put_keys_def keys_name_def)
qed

section \<open>Sequences of keys\<close>

lemma head_shown: "33 \<le> b \<Longrightarrow> b < 128 \<or> 192 \<le> b \<Longrightarrow> \<not> qe_isspace (ucast (b :: byte)) \<and> b \<noteq> 0"
proof -
  assume b: "33 \<le> b" "b < 128 \<or> 192 \<le> b"
  have "(ucast b = (k :: char32)) = (unat b = unat k)" for k by (simp add: word_unat_eq_iff unat_ucast32)
  with b show ?thesis by (auto simp: qe_isspace_def word_le_nat_alt word_less_nat_alt)
qed

lemma encode_head: "0x80 \<le> c \<Longrightarrow> 192 \<le> hd (utf8_encode c)"
proof -
  have or: "192 \<le> x OR m" if "192 \<le> m" for x m :: byte by (rule order_trans [OF that le_word_or1])
  assume "0x80 \<le> c"
  then show ?thesis by (auto simp: utf8_encode_def intro!: or)
qed

lemma plain_head: "plain_name key \<noteq> [] \<and> 33 \<le> hd (plain_name key) \<and> (hd (plain_name key) < 128 \<or> 192 \<le> hd (plain_name key))"
proof (cases "find_code keycodes keystr key")
  case (Some name)
  with find_code_named(2) [OF Some] show ?thesis by (cases name) (auto simp: plain_name_def named_ok_def)
next
  case None
  have k: "key \<noteq> 0" "key \<noteq> 27" "key \<noteq> 28" "key \<noteq> 29" "key \<noteq> 30" "key \<noteq> 31" "key \<noteq> 32"
    using find_code_None(1) [OF table_length None] by (auto simp: keycodes_def KEY_CTRL_def KEY_ESC_def)
  show ?thesis
  proof (cases "key \<ge> KEY_CTRL 97 \<and> key \<le> KEY_CTRL 122")
    case True
    with None show ?thesis by (simp add: plain_name_def cstr_def)
  next
    case False
    then have n: "plain_name key = utf8_encode key" using None by (auto simp: plain_name_def)
    show ?thesis
    proof (cases "key < 0x80")
      case True
      then have u: "unat (ucast key :: byte) = unat key"
        by (simp add: unsigned_ucast_eq take_bit_nat_eq_self word_less_nat_alt)
      have "unat key \<noteq> 0" "\<not> (1 \<le> unat key \<and> unat key \<le> 26)" "unat key \<notin> {27, 28, 29, 30, 31, 32}"
        using k False by (auto simp: word_unat_eq_iff key_bounds word_le_nat_alt)
      then have "33 \<le> unat key" by auto
      with True u n show ?thesis by (simp add: encode_ascii word_le_nat_alt word_less_nat_alt)
    next
      case F: False
      then have "192 \<le> hd (utf8_encode key)" using encode_head [of key] by simp
      moreover have "utf8_encode key \<noteq> []" by (simp add: utf8_encode_def)
      moreover from calculation(1) have "33 \<le> hd (utf8_encode key)" by (rule order_trans [rotated]) simp
      ultimately show ?thesis by (simp add: n)
    qed
  qed
qed

lemma key_name_skip: "qe_skip_spaces (key_name key @ rest) = (hd (key_name key), key_name key @ rest) \<and> hd (key_name key) \<noteq> 0"
proof -
  have "key_name key \<noteq> [] \<and> 33 \<le> hd (key_name key) \<and> (hd (key_name key) < 128 \<or> 192 \<le> hd (key_name key))"
    using plain_head [of key] by (auto simp: key_name_def plain_name_def cstr_def split: option.splits)
  then obtain b bs where "key_name key = b # bs" "\<not> qe_isspace (ucast b) \<and> b \<noteq> 0"
    using head_shown by (metis list.collapse)
  then show ?thesis by (simp add: qe_skip_spaces_def)
qed

text \<open>An \<^verbatim>\<open>ESC\<close> before a character or a function key is read as a Meta prefix.\<close>

definition composes :: "char32 \<Rightarrow> char32 \<Rightarrow> bool" where
  "composes k0 k1 \<longleftrightarrow> k0 = KEY_ESC \<and> k1 \<noteq> KEY_ESC \<and> (k1 \<le> 0xff \<or> KEY_IS_ESC1 k1)"

lemma compose_none:
  "successively (\<lambda>a b. \<not> composes a b) (keys @ [key]) \<Longrightarrow> compose_keys (keys @ [key]) = (keys @ [key], False)"
proof (cases keys rule: rev_cases)
  case (snoc ks k)
  moreover assume "successively (\<lambda>a b. \<not> composes a b) (keys @ [key])"
  ultimately have "\<not> composes k key" by (simp add: successively_append_iff)
  with snoc show ?thesis by (auto simp: compose_keys_def composes_def nth_append Let_def)
qed (simp add: compose_keys_def)

lemma strtokeys_rest:
  assumes "successively (\<lambda>a b. \<not> composes a b) (acc @ keys)" "int (length (acc @ keys)) \<le> max_keys"
  shows "strtokeys_loop (concat (map (\<lambda>k. 32 # key_name k) keys)) acc max_keys = Some (acc @ keys, [])"
  using assms
proof (induction keys arbitrary: acc)
  case Nil
  show ?case by (subst strtokeys_loop.simps) (simp add: qe_skip_spaces_def)
next
  case (Cons key keys)
  define rest where "rest = concat (map (\<lambda>k. 32 # key_name k) keys)"
  have e: "ends_here rest" by (cases keys) (simp_all add: rest_def)
  have "qe_skip_spaces (32 # key_name key @ rest) = qe_skip_spaces (key_name key @ rest)"
    by (simp add: qe_skip_spaces_def qe_isspace_def)
  note sk = this key_name_skip [of key rest]
  have cm: "compose_keys (acc @ [key]) = (acc @ [key], False)"
    using Cons.prems(1) by (intro compose_none) (simp add: successively_append_iff)
  have c: "char_at rest 0 \<noteq> 44" using e by (cases rest) (auto simp: char_at_def)
  have step: "strtokeys_loop (32 # key_name key @ rest) acc max_keys =
      (if int (length (acc @ [key])) \<ge> max_keys then Some (acc @ [key], rest) else strtokeys_loop rest (acc @ [key]) max_keys)"
    using sk cm c strtokey_name [OF e, of key] by (subst strtokeys_loop.simps) simp
  show ?case
  proof (cases "int (length (acc @ [key])) \<ge> max_keys")
    case True
    with Cons.prems(2) have "length keys = 0" unfolding length_append list.size by linarith
    then have "keys = []" by simp
    with step True show ?thesis by (simp add: rest_def)
  next
    case False
    with step Cons.IH [of "acc @ [key]"] Cons.prems show ?thesis by (simp add: rest_def)
  qed
qed



text \<open>A Meta prefix at the end of the string makes the parser read past the terminating zero.\<close>

lemma meta_prefix_overrun: "strtokeys (cstr ''M-'') max_keys = None"
proof -
  have "find_named keycodes keystr [] (scan_separator []) = None" using find_named_nothing [of "[]"] by simp
  then have "strtokey (cstr ''M-'') = None" by (simp add: strtokey_def strtokey1_def cstr_def char_at_def Let_def)
  moreover have "qe_skip_spaces (cstr ''M-'') = (77, cstr ''M-'')" by (simp add: qe_skip_spaces_def qe_isspace_def cstr_def)
  ultimately show ?thesis unfolding strtokeys_def by (subst strtokeys_loop.simps) simp
qed

end
