(* ===== verification/BufferText.thy ===== *)
theory BufferText
  imports UndoLog OutBuf Charset
begin

text \<open>
  Characters of a buffer (\<^verbatim>\<open>src/buffer.c\<close>, from \<^verbatim>\<open>eb_set_charset\<close> to \<^verbatim>\<open>eb_next_line\<close>): reading the next
  and the previous character through the charset of the buffer, motion by characters, glyphs
  and lines, positions as line and column or as character number with the counts cached in the
  pages, and insertion of code points. The record \<open>TextBuffer\<close> adds the fields of \<^verbatim>\<open>struct EditBuffer\<close>
  that these functions use.

  A function that reads also moves the page cache: it returns its result and the buffer. Loops
  that run forward are total, since the end of the text reads as a line feed; loops that run
  backward end only for a charset with a positive character size, so they are partial
  functions, \<^const>\<open>None\<close> being a loop that does not end. A C array that a read fills only in part
  is taken to hold zeros in the rest.
\<close>

section \<open>Data\<close>

record TextBuffer = EditBuffer +
  charset :: charset_ref
  eol_type :: EOLType
  charset_state :: CharsetDecodeState
  char_bytes :: nat

definition MAX_CHAR_BYTES :: int where "MAX_CHAR_BYTES = 6"

definition clear_counts :: "Page \<Rightarrow> Page" where
  "clear_counts p = p\<lparr>pg_valid_pos := False, pg_valid_char := False, pg_valid_colors := False\<rparr>"

text \<open>The previous decoding state is closed, which frees its table; the charset is not null.\<close>

definition eb_set_charset :: "TextBuffer \<Rightarrow> charset_ref \<Rightarrow> EOLType \<Rightarrow> TextBuffer" where
  "eb_set_charset b cs eol =
     b\<lparr>eol_type := eol, charset := cs,
       flags := (let f = flags b AND NOT BF_UTF8 in if cs = charset_utf8 then f OR BF_UTF8 else f),
       charset_state := charset_decode_init cs eol,
       char_bytes := cs_char_size (charset_at cs),
       char_shift := (if cs_char_size (charset_at cs) = 4 then 2 else cs_char_size (charset_at cs) - 1),
       page_table := map clear_counts (page_table b)\<rparr>"

text \<open>The function pointers of the decoding state and of the charset.\<close>

definition decode_func :: "CharsetDecodeState \<Rightarrow> byte list \<Rightarrow> char32 \<times> nat" where
  "decode_func s p = run_decode s (cs_codec (charset_at (ds_charset s))) p"

definition get_pos_func :: "CharsetDecodeState \<Rightarrow> byte list \<Rightarrow> nat \<times> nat" where
  "get_pos_func s buf = run_get_pos s (cs_scan (charset_at (ds_charset s))) buf"

section \<open>The next character\<close>

text \<open>The array after a read: the bytes read over its former contents.\<close>

definition fill_buf :: "byte list \<Rightarrow> byte list \<Rightarrow> byte list" where
  "fill_buf r buf = r @ drop (length r) buf"

definition zero_buf :: "byte list" where "zero_buf = replicate 6 0"

text \<open>The body of \<^verbatim>\<open>eb_nextc\<close> in three parts: decoding the character that starts with byte \<open>c\<close>, the
  treatment of line ends, and the whole.\<close>

definition next_decode :: "TextBuffer \<Rightarrow> int \<Rightarrow> int \<Rightarrow> char32 \<times> int \<times> byte list \<times> TextBuffer" where
  "next_decode b offset c =
     (let t = ds_table (charset_state b) ! nat c
      in if t = ESCAPE_CHAR then
           let (r, b) = eb_read b offset MAX_CHAR_BYTES;
               buf = fill_buf r zero_buf;
               (cp, k) = decode_func (charset_state b) buf
           in (cp, offset + int k, buf, b)
         else (ucast t, offset + 1, zero_buf, b))"

definition next_eol :: "TextBuffer \<Rightarrow> char32 \<Rightarrow> int \<Rightarrow> byte list \<Rightarrow> (char32 \<times> int) \<times> TextBuffer" where
  "next_eol b cp offset buf =
     (if cp = 13 then
        (if eol_type b = EOL_DOS then
           let (r, b) = eb_read b offset MAX_CHAR_BYTES
           in if length r \<ge> 1 \<and> fst (decode_func (charset_state b) (fill_buf r buf)) = 10
              then ((10, offset + int (ds_char_size (charset_state b))), b)
              else ((cp, offset), b)
         else if eol_type b = EOL_MAC then ((10, offset), b)
         else ((cp, offset), b))
      else if cp = 10 \<and> eol_type b = EOL_MAC then ((13, offset), b)
      else ((cp, offset), b))"

definition eb_nextc :: "TextBuffer \<Rightarrow> int \<Rightarrow> (char32 \<times> int) \<times> TextBuffer" where
  "eb_nextc b offset =
     (let (c, b) = eb_read_one_byte b offset
      in if c < 0 then
           let offset = (if offset < 0 then 0 else offset);
               offset = (if offset \<ge> total_size b then total_size b else offset)
           in ((10, offset), b)
         else let (cp, offset, buf, b) = next_decode b offset c in next_eol b cp offset buf)"

definition eb_next :: "TextBuffer \<Rightarrow> int \<Rightarrow> int \<times> TextBuffer" where
  "eb_next b offset = (case eb_nextc b offset of ((_, offset), b) \<Rightarrow> (offset, b))"

section \<open>The previous character\<close>

text \<open>The loop that collects trailing bytes backwards into an array of 7 bytes; \<open>q\<close> is the array
  from the pointer \<^verbatim>\<open>q\<close> on.\<close>

function prev_trail :: "TextBuffer \<Rightarrow> int \<Rightarrow> char32 \<Rightarrow> byte list \<Rightarrow> char32 \<times> int \<times> byte list \<times> TextBuffer" where
  "prev_trail b offset cp q =
     (if utf8_is_trailing_byte (ucast cp) \<and> offset > 0 \<and> length q < 7 then
        let offset = offset - 1;
            (c, b) = eb_read_one_byte b offset;
            cp = word_of_int c
        in prev_trail b offset cp (ucast cp # q)
      else (cp, offset, q, b))"
  by pat_completeness auto
termination
  by (relation "measure (\<lambda>(b, offset, cp, q). nat offset)") auto

declare prev_trail.simps [simp del]

definition prev_eol :: "TextBuffer \<Rightarrow> char32 \<Rightarrow> int \<Rightarrow> int \<Rightarrow> (char32 \<times> int) \<times> TextBuffer" where
  "prev_eol b cp offset sz =
     (if cp = 13 then (if eol_type b = EOL_MAC then ((10, offset), b) else ((cp, offset), b))
      else if cp = 10 then
        (if eol_type b = EOL_DOS then
           (if offset \<ge> sz then
              let (r, b) = eb_read b (offset - sz) sz
              in if fst (decode_func (charset_state b) (fill_buf r zero_buf)) = 13 then ((cp, offset - sz), b)
                 else ((cp, offset), b)
            else ((cp, offset), b))
         else if eol_type b = EOL_MAC then ((13, offset), b)
         else ((cp, offset), b))
      else ((cp, offset), b))"

definition eb_prevc :: "TextBuffer \<Rightarrow> int \<Rightarrow> (char32 \<times> int) \<times> TextBuffer" where
  "eb_prevc b offset =
     (if offset \<le> 0 then ((10, 0), b)
      else if charset b = charset_utf8 then
        let offset = offset - 1;
            (c, b) = eb_read_one_byte b offset;
            cp = word_of_int c
        in if utf8_is_trailing_byte (ucast cp) then
             let offset1 = offset; last_byte = ucast cp;
                 (cp, offset, q, b) = prev_trail b offset cp [last_byte, 0];
                 (cp, q) = (if cp \<ge> 0xc0 then let (c, k) = utf8_decode q in (c, drop k q) else (cp, q));
                 (cp, offset) = (if length q \<noteq> 1 then (ucast last_byte, offset1) else (cp, offset))
             in prev_eol b cp offset 1
           else prev_eol b cp offset 1
      else
        let sz = int (ds_char_size (charset_state b));
            offset = offset - sz;
            (r, b) = eb_read b offset sz;
            cp = fst (decode_func (charset_state b) (fill_buf r zero_buf))
        in prev_eol b cp offset sz)"

definition eb_prev :: "TextBuffer \<Rightarrow> int \<Rightarrow> int \<times> TextBuffer" where
  "eb_prev b offset = (case eb_prevc b offset of ((_, offset), b) \<Rightarrow> (offset, b))"

section \<open>Motion by characters and glyphs\<close>

function skip_back :: "TextBuffer \<Rightarrow> int \<Rightarrow> int \<Rightarrow> int \<times> TextBuffer" where
  "skip_back b offset n =
     (if n < 0 \<and> offset > 0 then let (offset, b) = eb_prev b offset in skip_back b offset (n + 1)
      else (offset, b))"
  by pat_completeness auto
termination
  by (relation "measure (\<lambda>(b, offset, n). nat (- n))") auto

function skip_forward :: "TextBuffer \<Rightarrow> int \<Rightarrow> int \<Rightarrow> int \<times> TextBuffer" where
  "skip_forward b offset n =
     (if n > 0 \<and> offset < total_size b then let (offset, b) = eb_next b offset in skip_forward b offset (n - 1)
      else (offset, b))"
  by pat_completeness auto
termination
  by (relation "measure (\<lambda>(b, offset, n). nat n)") auto

declare skip_back.simps [simp del] skip_forward.simps [simp del]

text \<open>The second loop starts with the count the first one left, which is positive only when it was
  positive from the start.\<close>

definition eb_skip_chars :: "TextBuffer \<Rightarrow> int \<Rightarrow> int \<Rightarrow> int \<times> TextBuffer" where
  "eb_skip_chars b offset n = (let (offset, b) = skip_back b offset n in skip_forward b offset n)"

definition eb_delete_char32 :: "TextBuffer \<Rightarrow> int \<Rightarrow> TextBuffer \<times> int" where
  "eb_delete_char32 b offset = (let (next, b) = eb_next b offset in eb_delete_range b offset next)"

definition eb_delete_chars :: "TextBuffer \<Rightarrow> int \<Rightarrow> int \<Rightarrow> TextBuffer \<times> int" where
  "eb_delete_chars b offset n = (let (to, b) = eb_skip_chars b offset n in eb_delete_range b offset to)"

section \<open>Reading moves only the page cache\<close>

definition cache_moved :: "'a EditBuffer0_scheme \<Rightarrow> 'a EditBuffer0_scheme \<Rightarrow> bool" where
  "cache_moved b b' \<longleftrightarrow> (\<exists>c. b' = b\<lparr>cur_page := c\<rparr>)"

lemma cache_moved_refl [simp, intro]: "cache_moved b b"
  unfolding cache_moved_def by (rule exI [of _ "cur_page b"]) simp

lemma cache_moved_trans [trans]: "cache_moved b b' \<Longrightarrow> cache_moved b' b'' \<Longrightarrow> cache_moved b b''"
  by (auto simp: cache_moved_def)

lemma cache_movedD:
  fixes b b' :: TextBuffer
  assumes "cache_moved b b'"
  shows "total_size b' = total_size b" "page_table b' = page_table b" "charset_state b' = charset_state b"
    "eol_type b' = eol_type b" "charset b' = charset b" "flags b' = flags b"
  using assms by (auto simp: cache_moved_def)

lemma cache_moved_cache [simp]: "cache_moved b (b\<lparr>cur_page := c\<rparr>)"
  by (auto simp: cache_moved_def)

lemma read_byte_moved: "cache_moved b (snd (eb_read_one_byte b off))"
  by (simp add: eb_read_one_byte_def Let_def split: prod.split)

lemma read_moved: "cache_moved b (snd (eb_read b off n))"
  by (simp add: eb_read_def Let_def split: prod.split)

lemma decode_func_advances: "1 \<le> snd (decode_func s p)"
proof -
  have "1 \<le> snd (run_decode s c p)" for c
    using decode_consumes [of p]
    by (cases c) (simp_all add: decode_8bit_def decode_utf8_func_def decode_ucs2le_def decode_ucs2be_def decode_ucs4le_def decode_ucs4be_def)
  then show ?thesis by (simp add: decode_func_def)
qed

lemma next_decode_moved:
  assumes "next_decode b off c = (cp, next, buf, b')"
  shows "cache_moved b b' \<and> off < next"
proof (cases "ds_table (charset_state b) ! nat c = ESCAPE_CHAR")
  case True
  obtain r b1 where r: "eb_read b off MAX_CHAR_BYTES = (r, b1)" by (metis surj_pair)
  from assms True r read_moved [of b off MAX_CHAR_BYTES] decode_func_advances [of "charset_state b1" "fill_buf r zero_buf"]
  show ?thesis by (auto simp: next_decode_def Let_def split: prod.splits)
qed (use assms in \<open>auto simp: next_decode_def Let_def\<close>)

lemma next_eol_moved:
  assumes "next_eol b cp off buf = ((c, next), b')"
  shows "cache_moved b b' \<and> off \<le> next"
  using assms read_moved [of b off MAX_CHAR_BYTES]
  by (auto simp: next_eol_def Let_def split: if_splits prod.splits)

lemma read_byte_cases:
  "eb_read_one_byte b off = (c, b') \<Longrightarrow> (c < 0 \<longleftrightarrow> off < 0 \<or> total_size b \<le> off)"
  by (auto simp: eb_read_one_byte_def Let_def split: if_splits prod.splits)

lemma eb_nextc_moved:
  assumes "eb_nextc b off = ((c, next), b')"
  shows "cache_moved b b'" "0 \<le> off \<Longrightarrow> off < total_size b \<Longrightarrow> off < next"
    "off < 0 \<or> total_size b \<le> off \<Longrightarrow> c = 10" "c \<noteq> 10 \<Longrightarrow> off < next \<and> off < total_size b"
proof -
  obtain x b1 where x: "eb_read_one_byte b off = (x, b1)" by (metis surj_pair)
  note 1 = read_byte_moved [of b off, unfolded x snd_conv] and k = read_byte_cases [OF x]
  have t: "total_size b1 = total_size b" using 1 by (rule cache_movedD)
  have "cache_moved b b' \<and> (0 \<le> off \<and> off < total_size b \<longrightarrow> off < next) \<and>
    (off < 0 \<or> total_size b \<le> off \<longrightarrow> c = 10)"
  proof (cases "x < 0")
    case True
    with assms x 1 k t show ?thesis by (auto simp: eb_nextc_def Let_def)
  next
    case False
    obtain cp o1 buf b2 where d: "next_decode b1 off x = (cp, o1, buf, b2)" by (metis surj_pair)
    from False x d assms have e: "next_eol b2 cp o1 buf = ((c, next), b')" by (simp add: eb_nextc_def Let_def)
    from next_decode_moved [OF d] next_eol_moved [OF e] 1 k False show ?thesis
      by (auto intro: cache_moved_trans)
  qed
  then show "cache_moved b b'" "0 \<le> off \<Longrightarrow> off < total_size b \<Longrightarrow> off < next"
    "off < 0 \<or> total_size b \<le> off \<Longrightarrow> c = 10" "c \<noteq> 10 \<Longrightarrow> off < next \<and> off < total_size b" by force+
qed

lemma nextc_measure:
  assumes "eb_nextc b off = ((c, next), b')" "c \<noteq> 10"
  shows "nat (total_size b' - next) < nat (total_size b - off)"
  using eb_nextc_moved(1,4) [OF assms(1)] assms(2) cache_movedD(1) [of b b'] by auto

lemma nextc_progress:
  assumes "eb_nextc b off = ((c, next), b')" "off < total_size b"
  shows "nat (total_size b' - next) < nat (total_size b - off)"
proof (cases "off < 0")
  case True
  with assms read_byte_cases [of b off] read_byte_moved [of b off] cache_movedD(1) [OF eb_nextc_moved(1) [OF assms(1)]]
  show ?thesis by (auto simp: eb_nextc_def Let_def split: prod.splits if_splits)
next
  case False
  with eb_nextc_moved(1,2) [OF assms(1)] assms(2) cache_movedD(1) [of b b'] show ?thesis by auto
qed

section \<open>Glyphs\<close>

text \<open>The width of a character comes from a generated table; it is the argument \<open>wcwidth\<close>.\<close>

definition qe_isaccent :: "(char32 \<Rightarrow> int) \<Rightarrow> char32 \<Rightarrow> bool" where
  "qe_isaccent wcwidth c \<longleftrightarrow> c \<ge> 0x300 \<and> wcwidth c = 0"

lemma accent_not_nl: "qe_isaccent wcwidth c \<Longrightarrow> c \<noteq> 10"
  by (auto simp: qe_isaccent_def)

function eb_skip_accents :: "(char32 \<Rightarrow> int) \<Rightarrow> TextBuffer \<Rightarrow> int \<Rightarrow> int \<times> TextBuffer" where
  "eb_skip_accents wcwidth b offset =
     (let (r, b) = eb_nextc b offset; (c, offset1) = r
      in if qe_isaccent wcwidth c then eb_skip_accents wcwidth b offset1 else (offset, b))"
  by pat_completeness auto
termination
proof (relation "measure (\<lambda>(wcwidth, b, offset). nat (total_size b - offset))")
  fix wcwidth :: "char32 \<Rightarrow> int" and b :: TextBuffer and offset :: int and x r b' y c offset1
  assume "x = eb_nextc b offset" "(r, b') = x" "y = r" "(c, offset1) = y" "qe_isaccent wcwidth c"
  then have "eb_nextc b offset = ((c, offset1), b')" "c \<noteq> 10" by (auto dest: accent_not_nl)
  from nextc_measure [OF this] show "((wcwidth, b', offset1), (wcwidth, b, offset)) \<in>
      measure (\<lambda>(wcwidth, b, offset). nat (total_size b - offset))" by simp
qed simp

text \<open>\<^verbatim>\<open>eb_skip_accents\<close> returns an offset, which \<^verbatim>\<open>eb_next_glyph\<close> adds to the offset.\<close>

definition eb_next_glyph :: "(char32 \<Rightarrow> int) \<Rightarrow> TextBuffer \<Rightarrow> int \<Rightarrow> (char32 \<times> int) \<times> TextBuffer" where
  "eb_next_glyph wcwidth b offset =
     (let (r, b) = eb_nextc b offset; (c, offset) = r
      in if c \<ge> 32 then let (k, b) = eb_skip_accents wcwidth b offset in ((c, offset + k), b)
         else ((c, offset), b))"

partial_function (option) eb_prev_glyph :: "(char32 \<Rightarrow> int) \<Rightarrow> TextBuffer \<Rightarrow> int \<Rightarrow> ((char32 \<times> int) \<times> TextBuffer) option" where
  "eb_prev_glyph wcwidth b offset =
     (let (r, b) = eb_prevc b offset; (c, offset) = r
      in if \<not> qe_isaccent wcwidth c then Some ((c, offset), b) else eb_prev_glyph wcwidth b offset)"

partial_function (option) skip_glyphs_back :: "(char32 \<Rightarrow> int) \<Rightarrow> TextBuffer \<Rightarrow> int \<Rightarrow> int \<Rightarrow> (int \<times> TextBuffer) option" where
  "skip_glyphs_back wcwidth b offset n =
     (if offset > 0 then
        let (r, b) = eb_prevc b offset; (c, offset) = r;
            n = n + of_bool (\<not> qe_isaccent wcwidth c)
        in if n \<ge> 0 then Some (offset, b) else skip_glyphs_back wcwidth b offset n
      else Some (offset, b))"

text \<open>A negative offset, which the source does not exclude, is treated as the loop does: the character
  read there is a line feed, and the motion goes on from offset 0.\<close>

function skip_glyphs_forward :: "(char32 \<Rightarrow> int) \<Rightarrow> TextBuffer \<Rightarrow> int \<Rightarrow> int \<Rightarrow> int \<times> TextBuffer" where
  "skip_glyphs_forward wcwidth b offset n =
     (if offset < total_size b then
        let (r, b) = eb_nextc b offset; (c, offset1) = r
        in if \<not> qe_isaccent wcwidth c then
             (if n \<le> 0 then (offset, b) else skip_glyphs_forward wcwidth b offset1 (n - 1))
           else skip_glyphs_forward wcwidth b offset1 n
      else (offset, b))"
  by pat_completeness auto
termination
proof (relation "(\<lambda>(wcwidth, b, offset, n). nat n) <*mlex*> measure (\<lambda>(wcwidth, b, offset, n). nat (total_size b - offset))")
  fix wcwidth :: "char32 \<Rightarrow> int" and b :: TextBuffer and offset n :: int and x r b' y c offset1
  assume "x = eb_nextc b offset" "(r, b') = x" "y = r" "(c, offset1) = y" "\<not> \<not> qe_isaccent wcwidth c"
  then have "eb_nextc b offset = ((c, offset1), b')" "c \<noteq> 10" by (auto dest: accent_not_nl)
  then show "((wcwidth, b', offset1, n), (wcwidth, b, offset, n)) \<in>
      (\<lambda>(wcwidth, b, offset, n). nat n) <*mlex*> measure (\<lambda>(wcwidth, b, offset, n). nat (total_size b - offset))"
    using nextc_measure [of b offset c offset1 b'] by (simp add: mlex_prod_def)
qed (auto simp: wf_mlex mlex_prod_def)

declare eb_skip_accents.simps [simp del] skip_glyphs_forward.simps [simp del]

definition eb_skip_glyphs :: "(char32 \<Rightarrow> int) \<Rightarrow> TextBuffer \<Rightarrow> int \<Rightarrow> int \<Rightarrow> (int \<times> TextBuffer) option" where
  "eb_skip_glyphs wcwidth b offset n =
     (if n < 0 then skip_glyphs_back wcwidth b offset n else Some (skip_glyphs_forward wcwidth b offset n))"

definition eb_delete_glyphs :: "(char32 \<Rightarrow> int) \<Rightarrow> TextBuffer \<Rightarrow> int \<Rightarrow> int \<Rightarrow> (TextBuffer \<times> int) option" where
  "eb_delete_glyphs wcwidth b offset n =
     map_option (\<lambda>(to, b). eb_delete_range b offset to) (eb_skip_glyphs wcwidth b offset n)"

section \<open>Lines and columns\<close>

text \<open>The counts of a page, computed unless the page says that they are valid.\<close>

definition count_lines :: "CharsetDecodeState \<Rightarrow> Page \<Rightarrow> Page" where
  "count_lines s p =
     (if pg_valid_pos p then p
      else let (line, c) = get_pos_func s (data p)
           in p\<lparr>pg_valid_pos := True, nb_lines := int line, col := int c\<rparr>)"

fun get_pos_pages :: "CharsetDecodeState \<Rightarrow> Page list \<Rightarrow> int \<Rightarrow> int \<Rightarrow> int \<Rightarrow> (int \<times> int) \<times> Page list" where
  "get_pos_pages s [] offset line cl = ((line, cl), [])"
| "get_pos_pages s (p # ps) offset line cl =
     (if offset < int (psize p) then
        let (line1, col1) = get_pos_func s (take (nat offset) (data p))
        in ((line + int line1, (if line1 \<noteq> 0 then 0 else cl) + int col1), p # ps)
      else
        let p = count_lines s p;
            (r, ps) = get_pos_pages s ps (offset - int (psize p)) (line + nb_lines p)
                        ((if nb_lines p \<noteq> 0 then 0 else cl) + col p)
        in (r, p # ps))"

definition eb_get_pos :: "TextBuffer \<Rightarrow> int \<Rightarrow> (int \<times> int) \<times> TextBuffer" where
  "eb_get_pos b offset =
     (let (r, ps) = get_pos_pages (charset_state b) (page_table b) offset 0 0 in (r, b\<lparr>page_table := ps\<rparr>))"

function goto_column :: "TextBuffer \<Rightarrow> int \<Rightarrow> int \<Rightarrow> int \<Rightarrow> int \<times> TextBuffer" where
  "goto_column b offset cl col1 =
     (if cl < col1 then
        let (r, b) = eb_nextc b offset; (c, offset1) = r
        in if c \<noteq> 10 then goto_column b offset1 (cl + 1) col1 else (offset, b)
      else (offset, b))"
  by pat_completeness auto
termination
  by (relation "measure (\<lambda>(b, offset, cl, col1). nat (col1 - cl))") auto

text \<open>The column reached at the end of a page is \<^verbatim>\<open>col + p->col\<close> also when the page contains a line end:
  the assignment of 0 before it has no effect.\<close>

fun goto_pos_pages ::
  "charset_ref \<Rightarrow> CharsetDecodeState \<Rightarrow> Page list \<Rightarrow> int \<Rightarrow> int \<Rightarrow> int \<Rightarrow> int \<Rightarrow> int \<Rightarrow> (int \<times> int) option \<times> Page list" where
  "goto_pos_pages cs s [] line1 col1 line cl offset = (None, [])"
| "goto_pos_pages cs s (p # ps) line1 col1 line cl offset =
     (let p = count_lines s p;
          line2 = line + nb_lines p;
          col2 = cl + col p
      in if line2 > line1 \<or> (line2 = line1 \<and> col2 \<ge> col1) then
           (if line < line1
            then (Some (offset + int (run_goto_line s (cs_scan (charset_at cs)) (data p) (line1 - line)), 0), p # ps)
            else (Some (offset, cl), p # ps))
         else let (r, ps) = goto_pos_pages cs s ps line1 col1 line2 col2 (offset + int (psize p)) in (r, p # ps))"

definition eb_goto_pos :: "TextBuffer \<Rightarrow> int \<Rightarrow> int \<Rightarrow> int \<times> TextBuffer" where
  "eb_goto_pos b line1 col1 =
     (let (r, ps) = goto_pos_pages (charset b) (charset_state b) (page_table b) line1 col1 0 0 0;
          b = b\<lparr>page_table := ps\<rparr>
      in case r of
           None \<Rightarrow> (total_size b, b)
         | Some (offset, cl) \<Rightarrow> goto_column b offset cl col1)"

section \<open>Character numbers\<close>

definition count_chars :: "charset_ref \<Rightarrow> CharsetDecodeState \<Rightarrow> Page \<Rightarrow> Page" where
  "count_chars cs s p =
     (if pg_valid_char p then p
      else p\<lparr>pg_valid_char := True, nb_chars := int (run_get_chars s (cs_scan (charset_at cs)) (data p))\<rparr>)"

fun goto_char_pages :: "charset_ref \<Rightarrow> CharsetDecodeState \<Rightarrow> Page list \<Rightarrow> int \<Rightarrow> int \<Rightarrow> int \<times> Page list" where
  "goto_char_pages cs s [] pos offset = (offset, [])"
| "goto_char_pages cs s (p # ps) pos offset =
     (let p = count_chars cs s p
      in if pos < nb_chars p
         then (offset + run_goto_char s (cs_scan (charset_at cs)) (data p) pos, p # ps)
         else let (r, ps) = goto_char_pages cs s ps (pos - nb_chars p) (offset + int (psize p)) in (r, p # ps))"

definition eb_goto_char :: "TextBuffer \<Rightarrow> int \<Rightarrow> int \<times> TextBuffer" where
  "eb_goto_char b pos =
     (let cs = charset_at (charset b)
      in if \<not> cs_variable_size cs \<and> eol_type b \<noteq> EOL_DOS
         then (min_int (pos * int (cs_char_size cs)) (total_size b), b)
         else let (r, ps) = goto_char_pages (charset b) (charset_state b) (page_table b) pos 0
              in (r, b\<lparr>page_table := ps\<rparr>))"

function char_boundary :: "TextBuffer \<Rightarrow> int \<Rightarrow> int \<times> TextBuffer" where
  "char_boundary b offset =
     (if offset > 0 then
        let (r, b) = eb_read b offset 1
        in if length r = 1 \<and> utf8_is_trailing_byte (r ! 0) then char_boundary b (offset - 1) else (offset, b)
      else (offset, b))"
  by pat_completeness auto
termination
  by (relation "measure (\<lambda>(b, offset). nat offset)") auto

fun char_offset_pages :: "charset_ref \<Rightarrow> CharsetDecodeState \<Rightarrow> Page list \<Rightarrow> int \<Rightarrow> int \<Rightarrow> int \<times> Page list" where
  "char_offset_pages cs s [] offset pos = (pos, [])"
| "char_offset_pages cs s (p # ps) offset pos =
     (let p = count_chars cs s p
      in if offset < int (psize p)
         then (pos + int (run_get_chars s (cs_scan (charset_at cs)) (take (nat offset) (data p))), p # ps)
         else let (r, ps) = char_offset_pages cs s ps (offset - int (psize p)) (pos + nb_chars p) in (r, p # ps))"

definition eb_get_char_offset :: "TextBuffer \<Rightarrow> int \<Rightarrow> int \<times> TextBuffer" where
  "eb_get_char_offset b offset =
     (let cs = charset_at (charset b);
          offset = (if offset < 0 then 0 else offset)
      in if \<not> cs_variable_size cs \<and> eol_type b \<noteq> EOL_DOS
         then (min_int offset (total_size b) div int (cs_char_size cs), b)
         else let (offset, b) = (if charset b = charset_utf8 then char_boundary b offset else (offset, b));
                  (r, ps) = char_offset_pages (charset b) (charset_state b) (page_table b) offset 0
              in (r, b\<lparr>page_table := ps\<rparr>))"

declare goto_column.simps [simp del] char_boundary.simps [simp del]

section \<open>Motion by lines\<close>

function eb_goto_eol :: "TextBuffer \<Rightarrow> int \<Rightarrow> int \<times> TextBuffer" where
  "eb_goto_eol b offset =
     (let (r, b) = eb_nextc b offset; (c, offset1) = r
      in if c = 10 then (offset, b) else eb_goto_eol b offset1)"
  by pat_completeness auto
termination
proof (relation "measure (\<lambda>(b, offset). nat (total_size b - offset))")
  fix b :: TextBuffer and offset :: int and x r b' y c offset1
  assume "x = eb_nextc b offset" "(r, b') = x" "y = r" "(c, offset1) = y" "c \<noteq> 10"
  with nextc_measure [of b offset c offset1 b'] show "((b', offset1), (b, offset)) \<in>
      measure (\<lambda>(b, offset). nat (total_size b - offset))" by simp
qed simp

function eb_next_line :: "TextBuffer \<Rightarrow> int \<Rightarrow> int \<times> TextBuffer" where
  "eb_next_line b offset =
     (let (r, b) = eb_nextc b offset; (c, offset1) = r
      in if c = 10 then (offset1, b) else eb_next_line b offset1)"
  by pat_completeness auto
termination
proof (relation "measure (\<lambda>(b, offset). nat (total_size b - offset))")
  fix b :: TextBuffer and offset :: int and x r b' y c offset1
  assume "x = eb_nextc b offset" "(r, b') = x" "y = r" "(c, offset1) = y" "c \<noteq> 10"
  with nextc_measure [of b offset c offset1 b'] show "((b', offset1), (b, offset)) \<in>
      measure (\<lambda>(b, offset). nat (total_size b - offset))" by simp
qed simp

text \<open>The offset of the next line if the line is blank.\<close>

function eb_is_blank_line :: "TextBuffer \<Rightarrow> int \<Rightarrow> int option \<times> TextBuffer" where
  "eb_is_blank_line b offset =
     (let (r, b) = eb_nextc b offset; (c, offset1) = r
      in if c = 10 then (Some offset1, b)
         else if \<not> qe_isblank c then (None, b)
         else eb_is_blank_line b offset1)"
  by pat_completeness auto
termination
proof (relation "measure (\<lambda>(b, offset). nat (total_size b - offset))")
  fix b :: TextBuffer and offset :: int and x r b' y c offset1
  assume "x = eb_nextc b offset" "(r, b') = x" "y = r" "(c, offset1) = y" "c \<noteq> 10"
  with nextc_measure [of b offset c offset1 b'] show "((b', offset1), (b, offset)) \<in>
      measure (\<lambda>(b, offset). nat (total_size b - offset))" by simp
qed simp

declare eb_goto_eol.simps [simp del] eb_next_line.simps [simp del] eb_is_blank_line.simps [simp del]

partial_function (option) prev_line_loop :: "TextBuffer \<Rightarrow> int \<Rightarrow> bool \<Rightarrow> (int \<times> TextBuffer) option" where
  "prev_line_loop b offset seen_nl =
     (let (r, b) = eb_prevc b offset; (c, offset1) = r
      in if c = 10 \<and> seen_nl then Some (offset, b)
         else prev_line_loop b offset1 (seen_nl \<or> c = 10))"

definition eb_prev_line :: "TextBuffer \<Rightarrow> int \<Rightarrow> (int \<times> TextBuffer) option" where
  "eb_prev_line b offset = prev_line_loop b offset False"

partial_function (option) eb_goto_bol :: "TextBuffer \<Rightarrow> int \<Rightarrow> (int \<times> TextBuffer) option" where
  "eb_goto_bol b offset =
     (let (r, b) = eb_prevc b offset; (c, offset1) = r
      in if c = 10 then Some (offset, b) else eb_goto_bol b offset1)"

partial_function (option) goto_bol2_loop :: "TextBuffer \<Rightarrow> int \<Rightarrow> int \<Rightarrow> ((int \<times> int) \<times> TextBuffer) option" where
  "goto_bol2_loop b offset count =
     (let (r, b) = eb_prevc b offset; (c, offset1) = r
      in if c = 10 then Some ((offset, count), b) else goto_bol2_loop b offset1 (count + 1))"

definition eb_goto_bol2 :: "TextBuffer \<Rightarrow> int \<Rightarrow> ((int \<times> int) \<times> TextBuffer) option" where
  "eb_goto_bol2 b offset = goto_bol2_loop b offset 0"

partial_function (option) eb_is_in_indentation :: "TextBuffer \<Rightarrow> int \<Rightarrow> (bool \<times> TextBuffer) option" where
  "eb_is_in_indentation b offset =
     (let (r, b) = eb_prevc b offset; (c, offset1) = r
      in if c = 10 then Some (True, b)
         else if \<not> qe_isblank c then Some (False, b)
         else eb_is_in_indentation b offset1)"

section \<open>Inserting characters\<close>

definition encode_func :: "TextBuffer \<Rightarrow> char32 \<Rightarrow> byte list option" where
  "encode_func b c = run_encode (charset b) (cs_codec (charset_at (charset b))) c"

text \<open>The bytes that \<^verbatim>\<open>eb_encode_char32\<close> stores, without the zero it adds. Every charset encodes a
  carriage return.\<close>

definition eb_encode_char32 :: "TextBuffer \<Rightarrow> char32 \<Rightarrow> byte list" where
  "eb_encode_char32 b c =
     (let (pre, c) =
        (if c = 10 then
           (if eol_type b = EOL_MAC then ([], 13)
            else if eol_type b = EOL_DOS then (case encode_func b 13 of Some q \<Rightarrow> (q, c) | None \<Rightarrow> ([], c))
            else ([], c))
         else ([], c))
      in case encode_func b c of Some q \<Rightarrow> pre @ q | None \<Rightarrow> [63])"

text \<open>A store of the bytes and their zero at position \<open>pos\<close> of an array of \<open>n\<close> bytes is undefined when it
  does not fit.\<close>

definition fits :: "int \<Rightarrow> int \<Rightarrow> byte list \<Rightarrow> bool" where
  "fits n pos bs \<longleftrightarrow> pos + int (length bs) + 1 \<le> n"

definition eb_insert_char32 :: "TextBuffer \<Rightarrow> int \<Rightarrow> char32 \<Rightarrow> (TextBuffer \<times> int) option" where
  "eb_insert_char32 b offset c =
     (let bs = eb_encode_char32 b c
      in if fits MAX_CHAR_BYTES 0 bs then Some (eb_insert b offset bs) else None)"

definition eb_replace_char32 :: "TextBuffer \<Rightarrow> int \<Rightarrow> char32 \<Rightarrow> (TextBuffer \<times> int) option" where
  "eb_replace_char32 b offset c =
     (let bs = eb_encode_char32 b c
      in if fits MAX_CHAR_BYTES 0 bs
         then let (r, b) = eb_nextc b offset; (_, offset1) = r
              in Some (eb_replace b offset (offset1 - offset) bs)
         else None)"

text \<open>The three loops that encode into a block of 1024 bytes and insert it when it is nearly full or
  the input ends; \<open>blk\<close> is the part of the block in use.\<close>

fun insert_char_n_loop :: "TextBuffer \<Rightarrow> int \<Rightarrow> char32 \<Rightarrow> nat \<Rightarrow> byte list \<Rightarrow> int \<Rightarrow> (TextBuffer \<times> int) option" where
  "insert_char_n_loop b offset c 0 blk sz = Some (b, sz)"
| "insert_char_n_loop b offset c (Suc n) blk sz =
     (let bs = eb_encode_char32 b c
      in if \<not> fits 1024 (int (length blk)) bs then None
         else let blk = blk @ bs
              in if int (length blk) > 1024 - MAX_CHAR_BYTES \<or> n = 0
                 then let (b, k) = eb_insert b (offset + sz) blk in insert_char_n_loop b offset c n [] (sz + k)
                 else insert_char_n_loop b offset c n blk sz)"

definition eb_insert_char32_n :: "TextBuffer \<Rightarrow> int \<Rightarrow> char32 \<Rightarrow> int \<Rightarrow> (TextBuffer \<times> int) option" where
  "eb_insert_char32_n b offset c n = insert_char_n_loop b offset c (nat n) [] 0"

text \<open>\<open>str\<close> is the memory from \<^verbatim>\<open>str\<close> on, of which \<open>len\<close> bytes are left: a character cut off by the end of the
  range is decoded with the bytes that follow it.\<close>

function insert_utf8_loop :: "TextBuffer \<Rightarrow> int \<Rightarrow> byte list \<Rightarrow> int \<Rightarrow> byte list \<Rightarrow> int \<Rightarrow> (TextBuffer \<times> int) option" where
  "insert_utf8_loop b offset str len blk sz =
     (if len > 0 then
        let (c, k) = utf8_decode str;
            bs = eb_encode_char32 b c
        in if \<not> fits 1024 (int (length blk)) bs then None
           else let blk = blk @ bs; len = len - int k; str = drop k str
                in if int (length blk) > 1024 - MAX_CHAR_BYTES \<or> len \<le> 0
                   then let (b, m) = eb_insert b (offset + sz) blk in insert_utf8_loop b offset str len [] (sz + m)
                   else insert_utf8_loop b offset str len blk sz
      else Some (b, sz))"
  by pat_completeness auto
termination
proof (relation "measure (\<lambda>(b, offset, str, len, blk, sz). nat len)")
  have pos: "0 < k" if "(c, k) = utf8_decode str" for c k str
    using decode_consumes [of str] that by (metis One_nat_def Suc_le_eq snd_conv)
  show "\<And>b offset str len blk sz x c k bs blk' len' str' xa ba m.
       0 < len \<Longrightarrow> x = utf8_decode str \<Longrightarrow> (c, k) = x \<Longrightarrow> bs = eb_encode_char32 b c \<Longrightarrow> \<not> \<not> fits 1024 (int (length blk)) bs \<Longrightarrow>
       blk' = blk @ bs \<Longrightarrow> len' = len - int k \<Longrightarrow> str' = drop k str \<Longrightarrow>
       1024 - MAX_CHAR_BYTES < int (length blk') \<or> len' \<le> 0 \<Longrightarrow> xa = eb_insert b (offset + sz) blk' \<Longrightarrow> (ba, m) = xa \<Longrightarrow>
       ((ba, offset, str', len', [], sz + m), b, offset, str, len, blk, sz) \<in> measure (\<lambda>(b, offset, str, len, blk, sz). nat len)"
    "\<And>b offset str len blk sz x c k bs blk' len' str'.
       0 < len \<Longrightarrow> x = utf8_decode str \<Longrightarrow> (c, k) = x \<Longrightarrow> bs = eb_encode_char32 b c \<Longrightarrow> \<not> \<not> fits 1024 (int (length blk)) bs \<Longrightarrow>
       blk' = blk @ bs \<Longrightarrow> len' = len - int k \<Longrightarrow> str' = drop k str \<Longrightarrow>
       \<not> (1024 - MAX_CHAR_BYTES < int (length blk') \<or> len' \<le> 0) \<Longrightarrow>
       ((b, offset, str', len', blk', sz), b, offset, str, len, blk, sz) \<in> measure (\<lambda>(b, offset, str, len, blk, sz). nat len)"
    by (auto dest: pos)
qed simp

declare insert_utf8_loop.simps [simp del]

definition eb_insert_utf8_buf :: "TextBuffer \<Rightarrow> int \<Rightarrow> byte list \<Rightarrow> int \<Rightarrow> (TextBuffer \<times> int) option" where
  "eb_insert_utf8_buf b offset str len =
     (if charset b = charset_utf8 \<and> eol_type b = EOL_UNIX then Some (eb_insert b offset (take (nat len) str))
      else insert_utf8_loop b offset str len [] 0)"

fun insert_char32_loop :: "TextBuffer \<Rightarrow> int \<Rightarrow> char32 list \<Rightarrow> byte list \<Rightarrow> int \<Rightarrow> (TextBuffer \<times> int) option" where
  "insert_char32_loop b offset [] blk sz = Some (b, sz)"
| "insert_char32_loop b offset (c # p) blk sz =
     (let bs = eb_encode_char32 b c
      in if \<not> fits 1024 (int (length blk)) bs then None
         else let blk = blk @ bs
              in if int (length blk) > 1024 - MAX_CHAR_BYTES \<or> p = []
                 then let (b, k) = eb_insert b (offset + sz) blk in insert_char32_loop b offset p [] (sz + k)
                 else insert_char32_loop b offset p blk sz)"

definition eb_insert_char32_buf :: "TextBuffer \<Rightarrow> int \<Rightarrow> char32 list \<Rightarrow> (TextBuffer \<times> int) option" where
  "eb_insert_char32_buf b offset p = insert_char32_loop b offset p [] 0"

definition eb_insert_str :: "TextBuffer \<Rightarrow> int \<Rightarrow> byte list \<Rightarrow> (TextBuffer \<times> int) option" where
  "eb_insert_str b offset str = eb_insert_utf8_buf b offset str (int (length str))"

definition eb_putc :: "TextBuffer \<Rightarrow> char32 \<Rightarrow> (TextBuffer \<times> int) option" where
  "eb_putc b c =
     (let bs = eb_encode_char32 b c in if fits 8 0 bs then Some (eb_insert b (point b) bs) else None)"

definition eb_puts :: "TextBuffer \<Rightarrow> byte list \<Rightarrow> (TextBuffer \<times> int) option" where
  "eb_puts b str = eb_insert_utf8_buf b (point b) str (int (length str))"

section \<open>Matching\<close>

text \<open>The offset after the match.\<close>

definition eb_match_char32 :: "TextBuffer \<Rightarrow> int \<Rightarrow> char32 \<Rightarrow> int option \<times> TextBuffer" where
  "eb_match_char32 b offset c =
     (let (r, b) = eb_nextc b offset; (c1, offset) = r in if c1 \<noteq> c then (None, b) else (Some offset, b))"

function eb_match_str_utf8 :: "TextBuffer \<Rightarrow> int \<Rightarrow> byte list \<Rightarrow> int option \<times> TextBuffer" where
  "eb_match_str_utf8 b offset p =
     (if head0 p \<noteq> 0 then
        let (c, k) = utf8_decode p; (r, b) = eb_nextc b offset; (c1, offset) = r
        in if c1 \<noteq> c then (None, b) else eb_match_str_utf8 b offset (drop k p)
      else (Some offset, b))"
  by pat_completeness auto
termination
proof (relation "measure (\<lambda>(b, offset, p). length p)")
  fix b :: TextBuffer and offset and p :: "byte list" and x c k xa r b' y c1 offset'
  assume "head0 p \<noteq> 0" "x = utf8_decode p" "(c, k) = x"
  with decode_consumes [of p] have "p \<noteq> []" "1 \<le> k" by (auto dest: sym)
  then show "((b', offset', drop k p), (b, offset, p)) \<in> measure (\<lambda>(b, offset, p). length p)" by (cases p) auto
qed simp

declare eb_match_str_utf8.simps [simp del]

section \<open>Reading regions and lines\<close>

text \<open>The loops over a region limit its end to the size of the buffer at every round; the source
  does it once, before the loop, and reading does not change the size.\<close>

function region_loop :: "TextBuffer \<Rightarrow> int \<Rightarrow> int \<Rightarrow> bool \<Rightarrow> buf_t \<Rightarrow> buf_t \<times> TextBuffer" where
  "region_loop b offset stop encode_zero out =
     (if offset < min_int stop (total_size b) then
        let (r, b) = eb_nextc b offset; (c, offset) = r
        in region_loop b offset stop encode_zero
             (fst (if c = 0 \<and> encode_zero then buf_write out [0xC0, 0x80] else buf_putc_utf8 out c))
      else (out, b))"
  by pat_completeness auto
termination
proof (relation "measure (\<lambda>(b, offset, stop, encode_zero, out). nat (total_size b - offset))")
  fix b :: TextBuffer and offset stop :: int and encode_zero :: bool and out x r b' y c offset'
  assume "offset < min_int stop (total_size b)" "x = eb_nextc b offset" "(r, b') = x" "y = r" "(c, offset') = y"
  then have e: "eb_nextc b offset = ((c, offset'), b')" and "offset < total_size b"
    by auto
  then show "((b', offset', stop, encode_zero, fst (if c = 0 \<and> encode_zero then buf_write out [0xC0, 0x80] else buf_putc_utf8 out c)),
      (b, offset, stop, encode_zero, out)) \<in> measure (\<lambda>(b, offset, stop, encode_zero, out). nat (total_size b - offset))"
    using nextc_progress [OF e] by simp
qed simp

declare region_loop.simps [simp del]

text \<open>The contents of the array and the length of the text in it; \<open>buf\<close> has \<open>buf_size\<close> bytes.\<close>

definition eb_get_region_contents ::
  "TextBuffer \<Rightarrow> int \<Rightarrow> int \<Rightarrow> byte list \<Rightarrow> int \<Rightarrow> bool \<Rightarrow> (byte list \<times> int) \<times> TextBuffer" where
  "eb_get_region_contents b start stop buf buf_size encode_zero =
     (let stop = clamp_int stop 0 (total_size b);
          start = clamp_int start 0 stop;
          sz = stop - start;
          fast = (charset b = charset_utf8 \<and> eol_type b = EOL_UNIX \<and> sz < buf_size);
          (r, b) = (if fast then eb_read b start sz else ([], b));
          buf = (if fast then store (store buf 0 r) (nat sz) [0] else buf)
      in if fast \<and> (\<not> encode_zero \<or> int (length (takeWhile (\<lambda>c. c \<noteq> 0) buf)) = sz) then ((buf, sz), b)
         else let (out, b) = region_loop b start stop encode_zero (buf_init buf buf_size)
              in ((bt_buf out, int (bt_len out)), b))"

function content_size_loop :: "TextBuffer \<Rightarrow> int \<Rightarrow> int \<Rightarrow> int \<Rightarrow> int \<times> TextBuffer" where
  "content_size_loop b offset stop sz =
     (if offset < min_int stop (total_size b) then
        let (r, b) = eb_nextc b offset; (c, offset) = r
        in content_size_loop b offset stop (sz + int (length (utf8_encode c)))
      else (sz, b))"
  by pat_completeness auto
termination
proof (relation "measure (\<lambda>(b, offset, stop, sz). nat (total_size b - offset))")
  fix b :: TextBuffer and offset stop sz :: int and x r b' y c offset'
  assume "offset < min_int stop (total_size b)" "x = eb_nextc b offset" "(r, b') = x" "y = r" "(c, offset') = y"
  then have e: "eb_nextc b offset = ((c, offset'), b')" and "offset < total_size b"
    by auto
  then show "((b', offset', stop, sz + int (length (utf8_encode c))), (b, offset, stop, sz)) \<in>
      measure (\<lambda>(b, offset, stop, sz). nat (total_size b - offset))"
    using nextc_progress [OF e] by simp
qed simp

declare content_size_loop.simps [simp del]

definition eb_get_region_content_size :: "TextBuffer \<Rightarrow> int \<Rightarrow> int \<Rightarrow> int \<times> TextBuffer" where
  "eb_get_region_content_size b start stop =
     (let stop = clamp_int stop 0 (total_size b);
          start = clamp_int start 0 stop
      in if charset b = charset_utf8 \<and> eol_type b = EOL_UNIX then (stop - start, b)
         else content_size_loop b start stop 0)"

text \<open>The code points stored, the terminating zero included, the length returned and the offset
  after the line.\<close>

function get_line_loop :: "TextBuffer \<Rightarrow> int \<Rightarrow> int \<Rightarrow> char32 list \<Rightarrow> (char32 list \<times> int \<times> int) \<times> TextBuffer" where
  "get_line_loop b sz offset buf =
     (if int (length buf) + 1 \<ge> sz then ((buf @ [0], int (length buf), offset), b)
      else let (r, b) = eb_nextc b offset; (c, offset) = r
           in if c = 10 then ((buf @ [c, 0], int (length buf), offset), b)
              else get_line_loop b sz offset (buf @ [c]))"
  by pat_completeness auto
termination
  by (relation "measure (\<lambda>(b, sz, offset, buf). nat (sz - int (length buf)))") auto

declare get_line_loop.simps [simp del]

definition eb_get_line :: "TextBuffer \<Rightarrow> int \<Rightarrow> int \<Rightarrow> (char32 list \<times> int \<times> int) \<times> TextBuffer" where
  "eb_get_line b sz offset = (if sz > 0 then get_line_loop b sz offset [] else (([], 0, offset), b))"

function fgets_loop :: "TextBuffer \<Rightarrow> buf_t \<Rightarrow> int \<Rightarrow> (buf_t \<times> int) \<times> TextBuffer" where
  "fgets_loop b out offset =
     (let (r, b) = eb_nextc b offset; (c, next) = r;
          (out, k) = buf_putc_utf8 out c
      in if k = 0 then ((out, offset), b)
         else if c = 10 then ((out\<lparr>bt_len := bt_len out - 1\<rparr>, next), b)
         else fgets_loop b out next)"
  by pat_completeness auto
termination
proof (relation "measure (\<lambda>(b, out, offset). nat (total_size b - offset))")
  fix b :: TextBuffer and out :: buf_t and offset :: int and x r b' y c offset' z out' k
  assume "x = eb_nextc b offset" "(r, b') = x" "y = r" "(c, offset') = y" "c \<noteq> 10"
  with nextc_measure [of b offset c offset' b'] show "((b', out', offset'), (b, out, offset)) \<in>
      measure (\<lambda>(b, out, offset). nat (total_size b - offset))" by simp
qed simp

declare fgets_loop.simps [simp del]

definition eb_fgets :: "TextBuffer \<Rightarrow> byte list \<Rightarrow> int \<Rightarrow> int \<Rightarrow> (byte list \<times> int \<times> int) \<times> TextBuffer" where
  "eb_fgets b buf buf_size offset =
     (let (r, b) = fgets_loop b (buf_init buf buf_size) offset; (out, offset) = r
      in ((bt_buf out, int (bt_len out), offset), b))"

section \<open>Insertion with conversion\<close>

text \<open>\<^verbatim>\<open>eb_new\<close> without the name and the list of buffers; \<open>eol\<close> is the default line end type.\<close>

definition eb_new :: "EOLType \<Rightarrow> 32 word \<Rightarrow> TextBuffer" where
  "eb_new eol fl =
     (let b0 = eb_new0 fl;
          b = EditBuffer0.extend b0
                \<lparr>log_buffer = None, b_styles = None, charset = charset_raw, eol_type = eol,
                 charset_state = charset_decode_init charset_raw eol, char_bytes = 1\<rparr>;
          b = b\<lparr>flags := fl AND NOT BF_STYLES\<rparr>;
          b = (if fl AND BF_UTF8 \<noteq> 0 then eb_set_charset b charset_utf8 eol
               else if fl AND BF_RAW \<noteq> 0 then eb_set_charset b charset_raw EOL_UNIX
               else eb_set_charset b charset_8859_1 eol)
      in if fl AND BF_STYLES \<noteq> 0 then fst (eb_create_style_buffer b fl) else b)"

function convert_loop ::
  "TextBuffer \<Rightarrow> int \<Rightarrow> TextBuffer \<Rightarrow> int \<Rightarrow> int \<Rightarrow> int \<Rightarrow> (TextBuffer \<times> TextBuffer \<times> int) option" where
  "convert_loop b offset1 src offset stop sz =
     (if offset < min_int (total_size src) stop then
        let style = eb_get_style src offset;
            (r, src) = eb_nextc src offset; (c, offset) = r;
            bs = eb_encode_char32 b c
        in if \<not> fits MAX_CHAR_BYTES 0 bs then None
           else let (b, k) = eb_insert (b\<lparr>cur_style := style\<rparr>) (offset1 + sz) bs
                in convert_loop b offset1 src offset stop (sz + k)
      else Some (b, src, sz))"
  by pat_completeness auto
termination
proof (relation "measure (\<lambda>(b, offset1, src, offset, stop, sz). nat (total_size src - offset))")
  fix b src :: TextBuffer and offset1 offset stop sz :: int and style x r src' y c offset' bs z b' k
  assume "offset < min_int (total_size src) stop" "x = eb_nextc src offset" "(r, src') = x" "y = r" "(c, offset') = y"
  then have e: "eb_nextc src offset = ((c, offset'), src')" and "offset < total_size src"
    by auto
  then show "((b', offset1, src', offset', stop, sz + k), (b, offset1, src, offset, stop, sz)) \<in>
      measure (\<lambda>(b, offset1, src, offset, stop, sz). nat (total_size src - offset))"
    using nextc_progress [OF e] by simp
qed simp

declare convert_loop.simps [simp del]

text \<open>The destination, the source and the number of bytes inserted; \<open>eol\<close> is the line end type a new
  buffer starts with, which the charset of the destination replaces.\<close>

definition eb_insert_buffer_convert ::
  "EOLType \<Rightarrow> TextBuffer \<Rightarrow> int \<Rightarrow> TextBuffer \<Rightarrow> int \<Rightarrow> int \<Rightarrow> (TextBuffer \<times> TextBuffer \<times> int) option" where
  "eb_insert_buffer_convert eol dest dest_offset src src_offset sz =
     (let styles_flags = min_int (uint (flags dest AND BF_STYLES)) (uint (flags src AND BF_STYLES))
      in if charset dest = charset src \<and> eol_type dest = eol_type src \<and> styles_flags = 0
         then Some (eb_insert_buffer dest dest_offset src src_offset sz)
         else if styles_flags = 0 \<and> (flags dest AND BF_SAVELOG \<noteq> 0 \<or> dest_offset \<noteq> total_size dest) then
           let b = eb_set_charset (eb_new eol BF_SYSTEM) (charset dest) (eol_type dest)
           in map_option (\<lambda>(b, src, _). case eb_insert_buffer dest dest_offset b 0 (total_size b) of (dest, _, n) \<Rightarrow> (dest, src, n))
                (convert_loop b 0 src src_offset (src_offset + sz) 0)
         else convert_loop dest dest_offset src src_offset (src_offset + sz) 0)"

section \<open>Properties\<close>

definition QE_PROP_TAG :: int where "QE_PROP_TAG = 3"

text \<open>The insertion of a property; the result is \<^const>\<open>None\<close> for the duplicate of a tag.\<close>

fun plist_add :: "QEProperty \<Rightarrow> QEProperty list \<Rightarrow> QEProperty list option" where
  "plist_add q [] = Some [q]"
| "plist_add q (p # ps) =
     (if prop_offset p \<ge> prop_offset q then
        (if prop_offset p = prop_offset q then
           (if prop_type p = prop_type q \<and> prop_type q = QE_PROP_TAG \<and> prop_data p = prop_data q then None
            else map_option (\<lambda>ps. p # ps) (plist_add q ps))
         else Some (q # p # ps))
      else map_option (\<lambda>ps. p # ps) (plist_add q ps))"

definition eb_add_property :: "'a EditBuffer0_scheme \<Rightarrow> int \<Rightarrow> int \<Rightarrow> string \<Rightarrow> 'a EditBuffer0_scheme" where
  "eb_add_property b offset type str =
     (let b = (if property_list b = [] then eb_add_callback b PlistCallback NullPtr 0 else b)
      in case plist_add \<lparr>prop_offset = offset, prop_type = type, prop_data = str\<rparr> (property_list b) of
           None \<Rightarrow> b
         | Some ps \<Rightarrow> b\<lparr>property_list := ps\<rparr>)"

fun find_property :: "int \<Rightarrow> int \<Rightarrow> int \<Rightarrow> QEProperty option \<Rightarrow> QEProperty list \<Rightarrow> QEProperty option" where
  "find_property offset offset2 type acc [] = acc"
| "find_property offset offset2 type acc (p # ps) =
     (if prop_offset p < offset2
      then find_property offset offset2 type (if prop_offset p \<ge> offset \<and> prop_type p = type then Some p else acc) ps
      else acc)"

definition eb_find_property :: "'a EditBuffer0_scheme \<Rightarrow> int \<Rightarrow> int \<Rightarrow> int \<Rightarrow> QEProperty option" where
  "eb_find_property b offset offset2 type = find_property offset offset2 type None (property_list b)"

fun delete_properties :: "int \<Rightarrow> int \<Rightarrow> QEProperty list \<Rightarrow> QEProperty list" where
  "delete_properties offset offset2 [] = []"
| "delete_properties offset offset2 (p # ps) =
     (if prop_offset p < offset2 then
        (if prop_offset p \<ge> offset then delete_properties offset offset2 ps
         else p # delete_properties offset offset2 ps)
      else p # ps)"

definition eb_delete_properties :: "'a EditBuffer0_scheme \<Rightarrow> int \<Rightarrow> int \<Rightarrow> 'a EditBuffer0_scheme" where
  "eb_delete_properties b offset offset2 =
     (if property_list b = [] then b
      else let b = b\<lparr>property_list := delete_properties offset offset2 (property_list b)\<rparr>
           in if property_list b = [] then eb_free_callback b PlistCallback NullPtr else b)"

end
