(* ===== verification/TextReading.thy ===== *)
theory TextReading
  imports BufferText CharsetLaws
begin

text \<open>
  Reading characters of a buffer: what \<^verbatim>\<open>eb_nextc\<close> and \<^verbatim>\<open>eb_prevc\<close> return where the text holds an encoded
  character, what edits leave alone of the charset of a buffer, and that an inserted character
  is read back in both directions.
\<close>

section \<open>Reading a well formed buffer\<close>

lemma read_at:
  assumes "buf_wf b" "eb_read b off n = (r, b')"
  shows "r = (if off < 0 then [] else take (nat n) (drop (nat off) (btext b)))" "buf_wf b'" "cache_moved b b'"
  using eb_read_text [OF assms(1), of off n] eb_read_wf [OF assms(1), of off n] read_moved [of b off n] assms(2) by simp_all

lemma read_byte_at:
  assumes "buf_wf b" "eb_read_one_byte b off = (x, b')"
  shows "x = (if off < 0 \<or> off \<ge> total_size b then -1 else uint (btext b ! nat off))" "buf_wf b'" "cache_moved b b'"
proof -
  show "x = (if off < 0 \<or> off \<ge> total_size b then -1 else uint (btext b ! nat off))" "cache_moved b b'"
    using eb_read_one_byte_value [OF assms(1), of off] read_byte_moved [of b off] assms(2) by simp_all
  show "buf_wf b'"
  proof (cases "off < 0 \<or> off \<ge> total_size b")
    case True
    with assms show ?thesis by (auto simp: eb_read_one_byte_def)
  next
    case False
    then obtain i po c where "find_page (page_table b) (cur_page b) (nat off) = ((i, po), c)" "cache_ok (page_table b) c"
      using read_find [OF assms(1), of off] by (metis not_le)
    with False assms show ?thesis by (auto simp: eb_read_one_byte_def buf_wf_cache)
  qed
qed

text \<open>The text at an offset: \<open>p\<close> is what follows it.\<close>

definition text_at :: "TextBuffer \<Rightarrow> int \<Rightarrow> byte list \<Rightarrow> bool" where
  "text_at b off p \<longleftrightarrow> buf_wf b \<and> 0 \<le> off \<and> off \<le> total_size b \<and> drop (nat off) (btext b) = p"

lemma text_at_moved:
  assumes "text_at b off p" "cache_moved b b'" "buf_wf b'"
  shows "text_at b' off p"
  using assms cache_movedD(1,2) [OF assms(2)] by (simp add: text_at_def)

lemma text_at_append:
  assumes "text_at b off (p @ q)"
  shows "text_at b (off + int (length p)) q"
proof -
  have "nat (off + int (length p)) = length p + nat off" using assms by (simp add: text_at_def nat_add_distrib)
  moreover have "length p \<le> length (btext b) - nat off"
    using assms unfolding text_at_def by (metis le_add1 length_append length_drop)
  ultimately show ?thesis
    using assms unfolding text_at_def by (auto simp flip: drop_drop simp: buf_wf_def)
qed

lemma text_at_read:
  assumes "text_at b off p" "eb_read b off n = (r, b')"
  shows "r = take (nat n) p" "cache_moved b b'" "buf_wf b'"
  using read_at [OF _ assms(2)] assms(1) by (auto simp: text_at_def)

lemma text_at_byte:
  assumes "text_at b off (x # p)" "eb_read_one_byte b off = (c, b')"
  shows "c = uint x" "cache_moved b b'" "buf_wf b'"
proof -
  have "nat off < length (btext b)" "btext b ! nat off = x"
    using assms(1) unfolding text_at_def by (metis drop_eq_Nil list.distinct(1) not_le, metis hd_drop_conv_nth list.sel(1) list.distinct(1) drop_eq_Nil not_le)
  then show "c = uint x" "cache_moved b b'" "buf_wf b'"
    using read_byte_at [OF _ assms(2)] assms(1) by (auto simp: text_at_def buf_wf_def)
qed

lemma fill_prefix:
  assumes "length bs \<le> 6"
  obtains rest' where "fill_buf (take 6 (bs @ rest)) buf = bs @ rest'"
  using assms by (auto simp: fill_buf_def)

section \<open>Reading back an encoded character\<close>

text \<open>The decoding state is the one of the charset and line end type of the buffer, as
  \<^verbatim>\<open>eb_set_charset\<close> leaves it.\<close>

definition state_ok :: "TextBuffer \<Rightarrow> bool" where
  "state_ok b \<longleftrightarrow> charset_state b = charset_decode_init (charset b) (eol_type b)"

lemma state_ok_moved: "cache_moved b b' \<Longrightarrow> state_ok b \<Longrightarrow> state_ok b'"
  by (simp add: state_ok_def cache_movedD)

lemma decode_func_state: "state_ok b \<Longrightarrow> decode_func (charset_state b) = charset_decode (charset b) (eol_type b)"
  by (rule ext) (simp add: state_ok_def decode_func_def charset_decode_init_def Let_def)

lemma encode_func_charset: "encode_func b = charset_encode (charset b)"
  by (rule ext) (simp add: encode_func_def)

lemma nth_utf8_table:
  "unat (x :: byte) < 0x80 \<Longrightarrow> table_utf8 ! unat x = of_nat (unat x)"
  "\<not> unat (x :: byte) < 0xC0 \<Longrightarrow> table_utf8 ! unat x = ESCAPE_CHAR"
  using unsigned_less [of x, where 'a = nat]
  by (simp add: table_utf8_def nth_append, auto simp: table_utf8_def nth_append)

lemma utf8_first:
  "\<exists>x p. utf8_encode c = x # p \<and> (p = [] \<and> c < 0x80 \<and> x = ucast c \<or> p \<noteq> [] \<and> \<not> unat x < 0xC0)"
proof -
  note lt = word_less_nat_alt [where 'a = 32]
  consider "c < 0x80" | "\<not> c < 0x80" "c < 0x800" | "\<not> c < 0x800" "c < 0x10000" | "\<not> c < 0x10000" "c < 0x00200000"
    | "\<not> c < 0x00200000" "c < 0x04000000" | "\<not> c < 0x04000000" by blast
  then show ?thesis
  proof cases
    case 2
    then have "unat (drop_bit 6 c) < 32" using unat_drop_less [of c 6 5] by (simp add: lt)
    with 2 lead_bytes(1) show ?thesis by (simp add: utf8_encode_def)
  next
    case 3
    then have "unat (drop_bit 12 c) < 16" using unat_drop_less [of c 12 4] by (simp add: lt)
    with 3 lead_bytes(2) show ?thesis by (simp add: utf8_encode_def lt)
  next
    case 4
    then have "unat (drop_bit 18 c) < 8" using unat_drop_less [of c 18 3] by (simp add: lt)
    with 4 lead_bytes(3) show ?thesis by (simp add: utf8_encode_def lt)
  next
    case 5
    then have "unat (drop_bit 24 c) < 4" using unat_drop_less [of c 24 2] by (simp add: lt)
    with 5 lead_bytes(4) show ?thesis by (simp add: utf8_encode_def lt)
  next
    case 6
    have "unat (drop_bit 30 c) < 4" using unsigned_less [of c, where 'a = nat] unat_drop_less [of c 30 2] by simp
    with 6 lead_bytes(5) show ?thesis by (simp add: utf8_encode_def lt)
  qed (simp add: utf8_encode_def)
qed

text \<open>A byte with an entry in the table is a whole character.\<close>

lemma table_entry:
  assumes "charset_encode r c = Some (x # p)" "encodable r c" "ds_table (charset_decode_init r eol) ! unat x \<noteq> ESCAPE_CHAR"
  shows "p = [] \<and> c = ucast (ds_table (charset_decode_init r eol) ! unat x)"
proof -
  note d = cs.dec_enc [OF assms(1,2), of eol "[]", simplified]
  have u: "ucast (of_nat (unat (ucast c :: byte)) :: ushort) = c" if "c < 0x80" for c :: char32
  proof -
    have "unat c < 128" using that by (simp add: word_less_nat_alt)
    then show ?thesis by (simp add: word_unat_eq_iff unsigned_ucast_eq unsigned_of_nat unsigned_take_bit_eq take_bit_nat_eq_self)
  qed
  have utf8: ?thesis if "r = charset_utf8 \<or> r = charset_utf8x"
  proof -
    have t: "ds_table (charset_decode_init r eol) = table_utf8" and e: "utf8_encode c = x # p"
      using that assms(1) by (auto simp: charset_decode_init_def charset_structs Let_def encode_utf8_def)
    from utf8_first [of c] e assms(3) t nth_utf8_table(2) [of x] have c: "p = []" "c < 0x80" "x = ucast c" by auto
    then have "unat x < 0x80" by (simp add: unat_byte word_le_nat_alt word_less_nat_alt)
    with c t nth_utf8_table(1) [of x] u [of c] show ?thesis by simp
  qed
  have none: False if "r \<in> {charset_ucs2le, charset_ucs2be, charset_ucs4le, charset_ucs4be}"
  proof -
    have "ds_table (charset_decode_init r eol) = table_none"
      using that by (auto simp: charset_decode_init_def charset_structs Let_def)
    with assms(3) unsigned_less [of x, where 'a = nat] show False by (simp add: table_none_def)
  qed
  show ?thesis
    by (cases r) (use d utf8 none in \<open>auto simp: charset_structs decode_8bit_def\<close>)
qed

lemma next_decode_char:
  assumes "text_at b off (bs @ rest)" "state_ok b" "charset_encode (charset b) c = Some bs" "encodable (charset b) c"
    "length bs \<le> 6" "eb_read_one_byte b off = (x, b1)"
  obtains buf b2 where "next_decode b1 off x = (c, off + int (length bs), buf, b2)" "cache_moved b b2" "buf_wf b2" "0 \<le> x"
proof -
  obtain y p where y: "bs = y # p" using cs.enc_nonempty [OF assms(3)] by (cases bs) auto
  note x = text_at_byte [of b off y "p @ rest", OF _ assms(6)]
  have x: "x = uint y" "cache_moved b b1" "buf_wf b1" using x assms(1) y by auto
  have s1: "state_ok b1" "charset b1 = charset b" "eol_type b1 = eol_type b" and t1: "text_at b1 off (bs @ rest)"
    using state_ok_moved [OF x(2) assms(2)] cache_movedD [OF x(2)] text_at_moved [OF assms(1) x(2,3)] by auto
  have tab: "ds_table (charset_state b1) = ds_table (charset_decode_init (charset b) (eol_type b))"
    using s1 by (simp add: state_ok_def)
  have n: "nat x = unat y" using x(1) by simp
  show thesis
  proof (cases "ds_table (charset_state b1) ! nat x = ESCAPE_CHAR")
    case True
    obtain r b2 where r: "eb_read b1 off MAX_CHAR_BYTES = (r, b2)" by (metis surj_pair)
    note m = text_at_read [OF t1 r]
    obtain rest' where f: "fill_buf r zero_buf = bs @ rest'"
      using fill_prefix [OF assms(5), of rest zero_buf] m(1) by (auto simp: MAX_CHAR_BYTES_def)
    have "decode_func (charset_state b2) (bs @ rest') = (c, length bs)"
      using decode_func_state [OF state_ok_moved [OF m(2) s1(1)]] cs.dec_enc [OF assms(3,4)] cache_movedD [OF m(2)] s1 by simp
    with True r f have "next_decode b1 off x = (c, off + int (length bs), bs @ rest', b2)"
      by (simp add: next_decode_def)
    with that cache_moved_trans [OF x(2) m(2)] m(3) x(1) show thesis by simp
  next
    case False
    with table_entry [of "charset b" c y p "eol_type b"] assms(3,4) y tab n have "p = []" "c = ucast (ds_table (charset_state b1) ! nat x)"
      by auto
    with False that y x show thesis by (simp add: next_decode_def)
  qed
qed

text \<open>What a character reads as after its insertion: a question mark when the charset lacks it.\<close>

definition shown :: "TextBuffer \<Rightarrow> char32 \<Rightarrow> char32" where
  "shown b c = (if encode_func b c = None then 63 else c)"

lemma encode_controls:
  assumes "c \<in> {10, 13}"
  obtains q where "charset_encode r c = Some q" "length q = cs_char_size (charset_at r)" "encodable r c"
proof -
  have "\<exists>q. charset_encode r c = Some q \<and> length q = cs_char_size (charset_at r)"
    using assms by (cases r) (auto simp: charset_structs encode_raw_def encode_8859_1_def encode_vt100_def encode_7bit_def
      encode_utf8_def utf8_encode_def encode_ucs2le_def encode_ucs2be_def encode_ucs4le_def encode_ucs4be_def encode_8bit_def)
  with that assms show thesis by (auto simp: encodable_def)
qed

lemma encode_question: "charset_encode r c = None \<Longrightarrow> charset_encode r 63 = Some [63]"
  by (cases r) (auto simp: charset_structs encode_raw_def encode_8859_1_def encode_vt100_def encode_7bit_def
      encode_utf8_def encode_ucs2le_def encode_ucs2be_def encode_ucs4le_def encode_ucs4be_def encode_8bit_def)

lemma encode_char32_cases:
  assumes "encodable (charset b) c" "c = 13 \<longrightarrow> eol_type b = EOL_UNIX"
  obtains (dos) q q' where "c = 10" "eol_type b = EOL_DOS" "charset_encode (charset b) 13 = Some q"
      "charset_encode (charset b) 10 = Some q'" "eb_encode_char32 b c = q @ q'"
  | (mac) "c = 10" "eol_type b = EOL_MAC" "charset_encode (charset b) 13 = Some (eb_encode_char32 b c)"
  | (plain) "shown b c = 10 \<or> shown b c = 13 \<longrightarrow> eol_type b = EOL_UNIX" "encodable (charset b) (shown b c)"
      "charset_encode (charset b) (shown b c) = Some (eb_encode_char32 b c)"
proof -
  obtain q where q: "charset_encode (charset b) 10 = Some q" "encodable (charset b) 10"
    by (rule encode_controls [of 10 "charset b"]) auto
  obtain q' where q': "charset_encode (charset b) 13 = Some q'" "encodable (charset b) 13"
    by (rule encode_controls [of 13 "charset b"]) auto
  show thesis
  proof (cases "c = 10 \<and> eol_type b \<noteq> EOL_UNIX")
    case True
    with q q' that(1,2) show thesis by (cases "eol_type b") (auto simp: eb_encode_char32_def encode_func_charset)
  next
    case False
    then have e: "eb_encode_char32 b c = (case encode_func b c of Some q \<Rightarrow> q | None \<Rightarrow> [63])"
      by (auto simp: eb_encode_char32_def split: option.split)
    show thesis
    proof (cases "charset_encode (charset b) c")
      case None
      with e encode_question [OF None] show thesis
        by (intro that(3)) (simp_all add: shown_def encode_func_charset encodable_def)
    next
      case (Some q)
      with e False assms show thesis by (intro that(3)) (auto simp: shown_def encode_func_charset)
    qed
  qed
qed

lemma char_size_state: "state_ok b \<Longrightarrow> ds_char_size (charset_state b) = cs_char_size (charset_at (charset b))"
  by (simp add: state_ok_def charset_decode_init_def Let_def)

lemma text_at_inside: "text_at b off (p @ rest) \<Longrightarrow> p \<noteq> [] \<Longrightarrow> off < total_size b"
  by (cases "off = total_size b") (auto simp: text_at_def buf_wf_def)

lemma nextc_char:
  assumes "text_at b off (bs @ rest)" "state_ok b" "charset_encode (charset b) c = Some bs" "encodable (charset b) c" "length bs \<le> 6"
  obtains buf b2 where "eb_nextc b off = next_eol b2 c (off + int (length bs)) buf" "cache_moved b b2" "buf_wf b2"
proof -
  obtain x b1 where x: "eb_read_one_byte b off = (x, b1)" by (metis surj_pair)
  obtain buf b2 where d: "next_decode b1 off x = (c, off + int (length bs), buf, b2)" "cache_moved b b2" "buf_wf b2" "0 \<le> x"
    using next_decode_char [OF assms x] .
  then show thesis by (intro that [of b2 buf]) (simp_all add: eb_nextc_def x Let_def)
qed

lemma nextc_encoded:
  assumes "text_at b off (eb_encode_char32 b c @ rest)" "state_ok b" "encodable (charset b) c"
    "c = 13 \<longrightarrow> eol_type b = EOL_UNIX" "length (eb_encode_char32 b c) \<le> 6"
  shows "fst (eb_nextc b off) = (shown b c, off + int (length (eb_encode_char32 b c)))"
  using assms(3,4)
proof (cases rule: encode_char32_cases)
  case (dos q q')
  from assms(1,5) dos(5) have t: "text_at b off (q @ q' @ rest)" and l: "length q \<le> 6" "length q' \<le> 6" by auto
  have k: "encodable (charset b) 13" "encodable (charset b) 10" by (simp_all add: encodable_def)
  obtain buf b2 where n: "eb_nextc b off = next_eol b2 13 (off + int (length q)) buf" and m: "cache_moved b b2" "buf_wf b2"
    using nextc_char [OF t assms(2) dos(3) k(1) l(1)] .
  note f = cache_movedD [OF m(1)] and s2 = state_ok_moved [OF m(1) assms(2)]
  have t2: "text_at b2 (off + int (length q)) (q' @ rest)" using text_at_append [OF text_at_moved [OF t m]] by simp
  obtain r b3 where r: "eb_read b2 (off + int (length q)) MAX_CHAR_BYTES = (r, b3)" by (metis surj_pair)
  note m3 = text_at_read [OF t2 r]
  obtain rest' where fb: "fill_buf r buf = q' @ rest'"
    using fill_prefix [OF l(2), of rest buf] m3(1) by (auto simp: MAX_CHAR_BYTES_def)
  have "fst (decode_func (charset_state b3) (fill_buf r buf)) = 10"
    using decode_func_state [OF state_ok_moved [OF m3(2) s2]] cs.dec_enc [OF dos(4) k(2)] cache_movedD [OF m3(2)] f fb by simp
  moreover have "q' \<noteq> []" using cs.enc_nonempty [OF dos(4)] .
  moreover have "length q' = ds_char_size (charset_state b3)"
    using encode_controls [of 10 "charset b"] dos(4) char_size_state [OF state_ok_moved [OF m3(2) s2]] f cache_movedD [OF m3(2)] by force
  ultimately have "fst (next_eol b2 13 (off + int (length q)) buf) = (10, off + int (length q) + int (length q'))"
    using r m3(1) f dos(2) by (cases q') (auto simp: next_eol_def MAX_CHAR_BYTES_def)
  with n dos show ?thesis by (simp add: shown_def encode_func_charset)
next
  case mac
  have k: "encodable (charset b) 13" by (simp add: encodable_def)
  obtain buf b2 where "eb_nextc b off = next_eol b2 13 (off + int (length (eb_encode_char32 b c))) buf" "cache_moved b b2"
    using nextc_char [OF assms(1,2) mac(3) k assms(5)] .
  moreover have "shown b c = 10"
    using encode_controls [of 10 "charset b"] mac(1) by (auto simp: shown_def encode_func_charset)
  ultimately show ?thesis using mac cache_movedD [of b b2] by (simp add: next_eol_def)
next
  case plain
  obtain buf b2 where "eb_nextc b off = next_eol b2 (shown b c) (off + int (length (eb_encode_char32 b c))) buf" "cache_moved b b2"
    using nextc_char [OF assms(1,2) plain(3,2) assms(5)] .
  with plain(1) cache_movedD [of b b2] show ?thesis by (auto simp: next_eol_def)
qed

section \<open>Reading backwards\<close>

unbundle bit_operations_syntax

lemma bit_0xC0: "bit (0xC0 :: byte) n \<longleftrightarrow> n = 6 \<or> n = 7"
  by (cases "n < 8") (auto simp: bit_imp_le_length less_Suc_eq numeral_eq_Suc dest: bit_imp_le_length)

lemma trailing_trail_byte: "utf8_is_trailing_byte (trail_byte k c)"
proof -
  have "trail_byte k c AND 0xC0 = 0x80"
  proof (rule bit_eqI)
    fix n
    show "bit (trail_byte k c AND 0xC0) n = bit (0x80 :: byte) n"
      unfolding trail_byte_def mask6 bit_and_iff bit_or_iff bit_0x80 bit_0xC0 by (auto simp: bit_simps)
  qed
  then show ?thesis by (simp add: utf8_is_trailing_byte_def)
qed

lemma utf8_trails: "x \<in> set (tl (utf8_encode c)) \<Longrightarrow> utf8_is_trailing_byte x"
  by (auto simp: utf8_encode_def trailing_trail_byte split: if_splits)

lemma not_trailing: "bit x 6 \<Longrightarrow> \<not> utf8_is_trailing_byte x"
proof
  assume "bit x 6" "utf8_is_trailing_byte x"
  then have "bit (x AND 0xC0) 6 = bit (0x80 :: byte) 6" by (simp add: utf8_is_trailing_byte_def)
  with \<open>bit x 6\<close> show False by (simp add: bit_and_iff)
qed

lemma utf8_lead: "\<not> c < 0x80 \<Longrightarrow> \<not> utf8_is_trailing_byte (hd (utf8_encode c))"
  by (rule not_trailing) (simp add: utf8_encode_def bit_or_iff)

lemma ascii_not_trailing: "c < 0x80 \<Longrightarrow> \<not> utf8_is_trailing_byte (ucast (c :: char32))"
proof
  assume "c < 0x80" "utf8_is_trailing_byte (ucast c)"
  then have "bit ((ucast c :: byte) AND 0xC0) 7 = bit (0x80 :: byte) 7" by (simp add: utf8_is_trailing_byte_def)
  then have "bit c 7" by (simp add: bit_simps)
  moreover have "unat c < 2 ^ 7" using \<open>c < 0x80\<close> by (simp add: word_less_nat_alt)
  ultimately show False using bit_below [of c 7 7] by blast
qed

lemma prev_trail_scan:
  assumes "text_at b off (l # ts @ t # rest)" "\<forall>x \<in> set (ts @ [t]). utf8_is_trailing_byte x" "\<not> utf8_is_trailing_byte l"
    "length ts + length q < 6"
  shows "\<exists>b'. prev_trail b (off + 1 + int (length ts)) (ucast t) (t # q) = (ucast l, off, l # ts @ t # q, b') \<and>
    cache_moved b b' \<and> buf_wf b'"
  using assms
proof (induction ts arbitrary: b t q rest rule: rev_induct)
  case Nil
  obtain x b1 where x: "eb_read_one_byte b off = (x, b1)" by (metis surj_pair)
  have u: "(word_of_int (uint l) :: char32) = ucast l" by simp
  note m = text_at_byte [OF Nil.prems(1) [unfolded append.simps] x]
  with x u Nil.prems show ?case
    by (subst prev_trail.simps) (simp add: ucast_ucast_byte text_at_def prev_trail.simps Let_def)
next
  case (snoc t' ts)
  define k where "k = off + 1 + int (length ts)"
  have k: "off + 1 + int (length (ts @ [t'])) = k + 1" "0 < k" using snoc.prems(1) by (simp_all add: k_def text_at_def)
  obtain x b1 where x: "eb_read_one_byte b k = (x, b1)" by (metis surj_pair)
  have "text_at b k (t' # t # rest)"
    using text_at_append [of b off "l # ts" "t' # t # rest"] snoc.prems(1) by (simp add: k_def add.assoc)
  note m = text_at_byte [OF this x]
  have "text_at b1 off (l # ts @ t' # t # rest)" using text_at_moved [OF snoc.prems(1) m(2,3)] by simp
  from snoc.IH [OF this, of "t # q"] snoc.prems obtain b' where
    b': "prev_trail b1 k (ucast t') (t' # t # q) = (ucast l, off, l # ts @ t' # t # q, b')" "cache_moved b1 b'" "buf_wf b'"
    by (auto simp: k_def)
  have "prev_trail b (k + 1) (ucast t) (t # q) = prev_trail b1 k (ucast t') (t' # t # q)"
    using snoc.prems x m k(2) by (subst prev_trail.simps) (simp add: ucast_ucast_byte Let_def)
  with b' m(2) k(1) show ?case by (auto intro: cache_moved_trans)
qed

text \<open>The step back over a multibyte UTF-8 character, and over a character of fixed size.\<close>

lemma prevc_utf8:
  assumes "text_at b off (utf8_encode c @ rest)" "charset b = charset_utf8" "length (utf8_encode c) \<le> 6"
  obtains b' where "eb_prevc b (off + int (length (utf8_encode c))) = prev_eol b' c off 1" "cache_moved b b'" "buf_wf b'"
proof (cases "c < 0x80")
  case True
  then have e: "utf8_encode c = [ucast c]" by (simp add: utf8_encode_def)
  obtain x b1 where x: "eb_read_one_byte b off = (x, b1)" by (metis surj_pair)
  note m = text_at_byte [OF assms(1) [unfolded e append.simps] x]
  have "(ucast (ucast c :: byte) :: char32) = c"
    using True by (simp add: word_less_nat_alt word_unat_eq_iff unsigned_ucast_eq unsigned_take_bit_eq take_bit_nat_eq_self)
  moreover have "(word_of_int (uint y) :: char32) = ucast y" for y :: byte by simp
  ultimately have "(word_of_int x :: char32) = c" using m(1) by metis
  moreover have "0 \<le> off" using assms(1) by (simp add: text_at_def)
  ultimately show thesis
    using that [of b1] assms(2) m x e ascii_not_trailing [OF True] by (simp add: eb_prevc_def Let_def)
next
  case False
  then obtain l ts where l: "utf8_encode c = l # ts" "ts \<noteq> []" "\<not> unat l < 0xC0"
    using utf8_first [of c] by blast
  then obtain us t where ts: "ts = us @ [t]" by (meson rev_exhaust)
  define k where "k = off + 1 + int (length us)"
  have k: "off + int (length (utf8_encode c)) = k + 1" "0 < k" using assms(1) by (simp_all add: l ts k_def text_at_def)
  obtain x b1 where x: "eb_read_one_byte b k = (x, b1)" by (metis surj_pair)
  have "text_at b k (t # rest)"
    using text_at_append [of b off "l # us" "t # rest"] assms(1) by (simp add: l ts k_def add.assoc)
  note m = text_at_byte [OF this x]
  have tr: "\<forall>x \<in> set (us @ [t]). utf8_is_trailing_byte x" "\<not> utf8_is_trailing_byte l"
    using utf8_trails [of _ c] utf8_lead [OF False] by (auto simp: l ts)
  have t1: "text_at b1 off (l # us @ t # rest)" using text_at_moved [OF assms(1) m(2,3)] by (simp add: l ts)
  have "length us + length [0 :: byte] < 6" using assms(3) by (simp add: l ts)
  from prev_trail_scan [OF t1 tr this] obtain b' where
    s: "prev_trail b1 k (ucast t) [t, 0] = (ucast l, off, l # us @ [t, 0], b')" "cache_moved b1 b'" "buf_wf b'"
    by (auto simp: k_def)
  have "utf8_decode (l # us @ [t, 0]) = (c, length (utf8_encode c))" using decode_encode [of c "[0]"] by (simp add: l ts)
  moreover have "(0xC0 :: char32) \<le> ucast l" using l(3) by (simp add: word_le_nat_alt unat_ucast32)
  ultimately have "eb_prevc b (k + 1) = prev_eol b' c off 1"
    using assms(2) x m(1) s(1) tr(1) k(2) by (simp add: eb_prevc_def Let_def ucast_ucast_byte l ts)
  with that [of b'] s m(2) k(1) show thesis by (simp add: cache_moved_trans)
qed

lemma encode_fixed_size:
  assumes "r \<noteq> charset_utf8" "r \<noteq> charset_utf8x" "charset_encode r c = Some bs"
  shows "length bs = cs_char_size (charset_at r)"
  using assms by (cases r) (auto simp: charset_structs encode_raw_def encode_8859_1_def encode_vt100_def encode_7bit_def
      encode_ucs2le_def encode_ucs2be_def encode_ucs4le_def encode_ucs4be_def encode_8bit_def Let_def split: if_splits option.splits)

lemma prevc_char:
  assumes "text_at b off (bs @ rest)" "state_ok b" "charset_encode (charset b) c = Some bs" "encodable (charset b) c"
    "length bs \<le> 6" "charset b \<noteq> charset_utf8x"
  obtains b' where "eb_prevc b (off + int (length bs)) = prev_eol b' c off (int (cs_char_size (charset_at (charset b))))"
    "cache_moved b b'" "buf_wf b'"
proof (cases "charset b = charset_utf8")
  case True
  then have "bs = utf8_encode c" using assms(3) by (simp add: charset_structs encode_utf8_def)
  with prevc_utf8 [of b off c rest] assms True that show thesis by (auto simp: charset_structs)
next
  case False
  define sz where "sz = int (cs_char_size (charset_at (charset b)))"
  have sz: "int (length bs) = sz" "sz = int (ds_char_size (charset_state b))"
    using encode_fixed_size [OF False assms(6,3)] char_size_state [OF assms(2)] by (simp_all add: sz_def)
  obtain r b' where r: "eb_read b off sz = (r, b')" by (metis surj_pair)
  note m = text_at_read [OF assms(1) r]
  have "r = bs" using m(1) sz(1) by auto
  moreover have "fill_buf bs zero_buf = bs @ drop (length bs) zero_buf" by (simp add: fill_buf_def)
  ultimately have "fst (decode_func (charset_state b') (fill_buf r zero_buf)) = c"
    using decode_func_state [OF state_ok_moved [OF m(2) assms(2)]] cs.dec_enc [OF assms(3,4)] cache_movedD [OF m(2)] by simp
  moreover have "0 < off + sz" using assms(1) cs.enc_nonempty [OF assms(3)] sz(1) by (cases bs) (auto simp: text_at_def)
  ultimately have "eb_prevc b (off + sz) = prev_eol b' c off sz"
    using False r sz(2) by (simp add: eb_prevc_def Let_def)
  with that m(2,3) sz(1) show thesis by (simp add: sz_def)
qed

lemma prevc_encoded:
  assumes "text_at b off (eb_encode_char32 b c @ rest)" "state_ok b" "encodable (charset b) c"
    "c = 13 \<longrightarrow> eol_type b = EOL_UNIX" "length (eb_encode_char32 b c) \<le> 6" "charset b \<noteq> charset_utf8x"
  shows "fst (eb_prevc b (off + int (length (eb_encode_char32 b c)))) = (shown b c, off)"
  using assms(3,4)
proof (cases rule: encode_char32_cases)
  case (dos q q')
  have k: "encodable (charset b) 13" "encodable (charset b) 10" by (simp_all add: encodable_def)
  from assms(1,5) dos(5) have t: "text_at b off (q @ q' @ rest)" and l: "length q' \<le> 6" by auto
  define sz where "sz = int (cs_char_size (charset_at (charset b)))"
  have sz: "int (length q) = sz" "0 \<le> off"
    using encode_controls [of 13 "charset b"] dos(3) t by (auto simp: sz_def text_at_def)
  have n: "nat sz = length q" using sz(1) by simp
  obtain b1 where p: "eb_prevc b (off + int (length q) + int (length q')) = prev_eol b1 10 (off + int (length q)) sz"
    and m: "cache_moved b b1" "buf_wf b1"
    using prevc_char [OF text_at_append [OF t] assms(2) dos(4) k(2) l assms(6)] unfolding sz_def .
  obtain r b2 where r: "eb_read b1 off sz = (r, b2)" by (metis surj_pair)
  note m2 = text_at_read [OF text_at_moved [OF t m] r]
  note s2 = state_ok_moved [OF m2(2) state_ok_moved [OF m(1) assms(2)]]
  have "fill_buf r zero_buf = q @ drop (length q) zero_buf" using m2(1) n by (simp add: fill_buf_def)
  then have "fst (decode_func (charset_state b2) (fill_buf r zero_buf)) = 13"
    using decode_func_state [OF s2] cs.dec_enc [OF dos(3) k(1)] cache_movedD [OF m2(2)] cache_movedD [OF m(1)] by simp
  then have "fst (prev_eol b1 10 (off + int (length q)) sz) = (10, off)"
    using r sz dos(2) cache_movedD [OF m(1)] by (simp add: prev_eol_def)
  with p dos show ?thesis by (simp add: shown_def encode_func_charset add.assoc)
next
  case mac
  have k: "encodable (charset b) 13" by (simp add: encodable_def)
  obtain b1 where "eb_prevc b (off + int (length (eb_encode_char32 b c))) = prev_eol b1 13 off (int (cs_char_size (charset_at (charset b))))"
    "cache_moved b b1"
    using prevc_char [OF assms(1,2) mac(3) k assms(5,6)] .
  moreover have "shown b c = 10"
    using encode_controls [of 10 "charset b"] mac(1) by (auto simp: shown_def encode_func_charset)
  ultimately show ?thesis using mac cache_movedD [of b b1] by (simp add: prev_eol_def)
next
  case plain
  obtain b1 where "eb_prevc b (off + int (length (eb_encode_char32 b c))) =
      prev_eol b1 (shown b c) off (int (cs_char_size (charset_at (charset b))))" "cache_moved b b1"
    using prevc_char [OF assms(1,2) plain(3,2) assms(5,6)] .
  with plain(1) cache_movedD [of b b1] show ?thesis by (auto simp: prev_eol_def)
qed

section \<open>Edits keep the charset\<close>

lemma callbacks_more: "EditBuffer.more (call_callbacks eb_style_callback ls b op off sz) = EditBuffer.more b"
proof (induction ls arbitrary: b)
  case (Cons l ls)
  have "EditBuffer.more (update_offset p f b) = EditBuffer.more b" for p f by (cases p) simp_all
  then have "EditBuffer.more (call_callback eb_style_callback l b op off sz) = EditBuffer.more b"
    by (simp add: eb_style_callback_def eb_set_style_def Let_def split: callback_fn.split option.split LogOperation.split)
  with Cons.IH show ?case by simp
qed simp

lemma append_log_more: "EditBuffer.more (append_log b op off sz wm) = EditBuffer.more b"
proof -
  have "EditBuffer.more (fst (snd (eb_insert_buffer_with eb_addlog0 l i (b\<lparr>last_log := op\<rparr>) off sz))) = EditBuffer.more b" for l i
    by (subst insert_buffer_src) simp
  then show ?thesis by (simp add: append_log_def Let_def case_prod_beta)
qed

lemma addlog_more: "EditBuffer.more (eb_addlog b op off sz) = EditBuffer.more b"
proof -
  define b1 where "b1 = call_callbacks eb_style_callback (first_callback b) b op off sz"
  define b2 where "b2 = b1\<lparr>modified := True\<rparr>"
  define b4 where "b4 = (if nb_logs (ensure_log b2) \<ge> NB_LOGS_MAX - 1 then drop_oldest_log (ensure_log b2) else ensure_log b2)"
  have "EditBuffer.more b4 = EditBuffer.more b"
    by (simp add: callbacks_more b4_def b2_def b1_def ensure_log_def drop_oldest_log_def Let_def case_prod_beta split: option.split)
  moreover have "EditBuffer.more b5 = EditBuffer.more b4" if "coalesce_log b4 op off sz = Inl b5 \<or> coalesce_log b4 op off sz = Inr b5" for b5
    using that by (auto simp: coalesce_log_def Let_def case_prod_beta split: if_splits)
  moreover have "EditBuffer.more b2 = EditBuffer.more b" by (simp add: b2_def b1_def callbacks_more)
  moreover have "eb_addlog b op off sz = (if composite b then b else if \<not> save_log b2 then b2 else case coalesce_log b4 op off sz of Inl b5 \<Rightarrow> b5
      | Inr b5 \<Rightarrow> append_log b5 op off sz (modified b1))"
    unfolding eb_addlog_def Let_def b4_def b2_def b1_def by simp
  ultimately show ?thesis by (auto simp: append_log_more split: sum.split)
qed

lemma more_fields:
  fixes b b' :: TextBuffer
  assumes "EditBuffer.more b' = EditBuffer.more b"
  shows "charset b' = charset b" "eol_type b' = eol_type b" "charset_state b' = charset_state b" "char_bytes b' = char_bytes b"
  using assms by (cases b; cases b'; simp)+

lemma insert_more: "EditBuffer.more (fst (eb_insert b off bs)) = EditBuffer.more b"
  by (simp add: eb_insert_def eb_insert_with_def insert_lowlevel_def Let_def addlog_more)

lemma delete_more: "EditBuffer.more (fst (eb_delete b off sz)) = EditBuffer.more b"
  by (simp add: eb_delete_def eb_delete_with_def Let_def addlog_more split: prod.split)


section \<open>Insertion of a character\<close>

lemma drop_splice_at: "k \<le> length xs \<Longrightarrow> drop k (splice_at k 0 ys xs) = ys @ drop k xs"
  by (simp add: splice_at_def)

lemma insert_text_at:
  assumes "ebuf_ok b" "\<not> readonly b" "0 \<le> off" "off \<le> total_size b" "bs \<noteq> []"
  shows "text_at (fst (eb_insert b off bs)) off (bs @ drop (nat off) (btext b))" "snd (eb_insert b off bs) = int (length bs)"
proof -
  note i = eb.insert_correct [OF assms(1), of off bs, folded eb_insert_def]
  have n: "nat off \<le> length (btext b)" "min off (total_size b) = off"
    using assms(1,3,4) by (auto simp: ebuf_ok_def buf_wf_def)
  have t: "btext (fst (eb_insert b off bs)) = splice_at (nat off) 0 bs (btext b)"
    using i(1) assms(2,3) n(2) by simp
  have w: "buf_wf (fst (eb_insert b off bs))" using i(2) by (simp add: ebuf_ok_def)
  show "snd (eb_insert b off bs) = int (length bs)"
    using assms by (auto simp: eb_insert_def eb_insert_with_def Let_def)
  show "text_at (fst (eb_insert b off bs)) off (bs @ drop (nat off) (btext b))"
    using w n assms(3) by (auto simp: text_at_def t drop_splice_at buf_wfD(2) [OF w] length_splice_at)
qed

lemma encode_char32_nonempty: "eb_encode_char32 b c \<noteq> []"
  using cs.enc_nonempty [of "charset b"] unfolding eb_encode_char32_def encode_func_charset
  by (auto split: option.split if_splits)

section \<open>Sample buffers\<close>

definition sample_text :: "charset_ref \<Rightarrow> EOLType \<Rightarrow> byte list list \<Rightarrow> TextBuffer" where
  "sample_text cs eol ps =
     (eb_set_charset (eb_new EOL_UNIX BF_SYSTEM) cs eol)
       \<lparr>page_table := map new_page ps, total_size := int (length (concat ps))\<rparr>"

lemma content_new_pages: "content (map new_page ps) = concat ps"
  by (induction ps) auto

lemma sample_text_fields:
  "page_table (sample_text cs eol ps) = map new_page ps" "total_size (sample_text cs eol ps) = int (length (concat ps))"
  "charset (sample_text cs eol ps) = cs" "eol_type (sample_text cs eol ps) = eol"
  "charset_state (sample_text cs eol ps) = charset_decode_init cs eol" "\<not> readonly (sample_text cs eol ps)"
  by (simp_all add: sample_text_def eb_set_charset_def eb_new_def eb_new0_def eb_add_callback_def EditBuffer0.extend_def Let_def
      BF_SYSTEM_def BF_STYLES_def BF_UTF8_def BF_RAW_def BF_READONLY_def)

lemma sample_text_cache: "cur_page (sample_text cs eol ps) = None"
  by (simp add: sample_text_def eb_set_charset_def eb_new_def eb_new0_def eb_add_callback_def EditBuffer0.extend_def Let_def
      BF_SYSTEM_def BF_STYLES_def)

lemma sample_text_ok:
  assumes "list_all (\<lambda>d. 0 < length d \<and> length d \<le> MAX_PAGE_SIZE) ps"
  shows "ebuf_ok (sample_text cs eol ps)" "state_ok (sample_text cs eol ps)"
proof -
  have "log_buffer (sample_text cs eol ps) = None" "b_styles (sample_text cs eol ps) = None"
    by (simp_all add: sample_text_def eb_set_charset_def eb_new_def eb_new0_def eb_add_callback_def EditBuffer0.extend_def Let_def
        BF_SYSTEM_def BF_STYLES_def BF_UTF8_def BF_RAW_def)
  with assms show "ebuf_ok (sample_text cs eol ps)"
    by (simp add: ebuf_ok_def buf_wf_def sample_text_fields sample_text_cache content_new_pages pages_ok_def list_all_iff)
  show "state_ok (sample_text cs eol ps)" by (simp add: state_ok_def sample_text_fields)
qed



end
