(* ===== verification/TextMotion.thy ===== *)
theory TextMotion
  imports TextReading
begin

text \<open>
  Motion and positions in a buffer: the motions backwards end, the counts cached in the pages stay
  right, and in the 8 bit charsets lines and columns are those of the text.
\<close>

section \<open>The motions backwards end\<close>

lemma prev_trail_moved:
  assumes "prev_trail b off cp q = (cp', off', q', b')"
  shows "cache_moved b b' \<and> off' \<le> off"
  using assms
proof (induction b off cp q rule: prev_trail.induct)
  case (1 b off cp q)
  show ?case
  proof (cases "utf8_is_trailing_byte (ucast cp) \<and> off > 0 \<and> length q < 7")
    case True
    obtain x b1 where x: "eb_read_one_byte b (off - 1) = (x, b1)" by (metis surj_pair)
    from 1 True x have "cache_moved b1 b' \<and> off' \<le> off - 1"
      by (simp add: prev_trail.simps [of b] Let_def)
    with read_byte_moved [of b "off - 1"] x show ?thesis by (auto intro: cache_moved_trans)
  next
    case False
    then have "prev_trail b off cp q = (cp, off, q, b)" by (subst prev_trail.simps) (rule if_not_P)
    with "1.prems" show ?thesis by simp
  qed
qed

lemma prev_eol_moved:
  assumes "prev_eol b cp off sz = ((c, off'), b')" "0 \<le> sz"
  shows "cache_moved b b' \<and> off' \<le> off"
  using assms read_moved [of b "off - sz" sz]
  by (auto simp: prev_eol_def Let_def split: if_splits prod.splits)

definition size_ok :: "TextBuffer \<Rightarrow> bool" where
  "size_ok b \<longleftrightarrow> 0 < ds_char_size (charset_state b)"

lemma size_ok_moved: "cache_moved b b' \<Longrightarrow> size_ok b \<Longrightarrow> size_ok b'"
  by (simp add: size_ok_def cache_movedD)

lemma state_size_ok: "state_ok b \<Longrightarrow> size_ok b"
  by (simp add: size_ok_def char_size_state) (cases "charset b"; simp add: charset_structs)

lemma prevc_start: "off \<le> 0 \<Longrightarrow> eb_prevc b off = ((10, 0), b)"
  by (simp add: eb_prevc_def)

lemma prevc_moved:
  assumes "eb_prevc b off = ((c, off'), b')" "size_ok b"
  shows "cache_moved b b'" "0 < off \<Longrightarrow> off' < off"
proof -
  have "cache_moved b b' \<and> off' < off" if pos: "0 < off"
  proof (cases "charset b = charset_utf8")
    case True
    obtain x b1 where x: "eb_read_one_byte b (off - 1) = (x, b1)" by (metis surj_pair)
    note m1 = read_byte_moved [of b "off - 1", unfolded x snd_conv]
    show ?thesis
    proof (cases "utf8_is_trailing_byte (ucast (word_of_int x :: char32))")
      case tr: True
      obtain cp o2 q b2 where t: "prev_trail b1 (off - 1) (word_of_int x) [ucast (word_of_int x :: char32), 0] = (cp, o2, q, b2)"
        by (metis surj_pair)
      note m2 = prev_trail_moved [OF t]
      from assms(1) pos True x tr t obtain cp' o3 where "prev_eol b2 cp' o3 1 = ((c, off'), b')" "o3 \<le> off - 1"
        using m2 by (auto simp: eb_prevc_def Let_def split: prod.splits if_splits)
      with prev_eol_moved [of b2 cp' o3 1] m1 m2 show ?thesis by (auto intro: cache_moved_trans)
    next
      case False
      with assms(1) pos True x have "prev_eol b1 (word_of_int x) (off - 1) 1 = ((c, off'), b')" by (simp add: eb_prevc_def Let_def)
      from prev_eol_moved [OF this] m1 show ?thesis by (auto intro: cache_moved_trans)
    qed
  next
    case False
    define sz where "sz = int (ds_char_size (charset_state b))"
    have "0 < sz" using assms(2) by (simp add: sz_def size_ok_def)
    obtain r b1 where r: "eb_read b (off - sz) sz = (r, b1)" by (metis surj_pair)
    from False assms(1) pos r obtain cp where "prev_eol b1 cp (off - sz) sz = ((c, off'), b')"
      by (simp add: eb_prevc_def Let_def sz_def)
    from prev_eol_moved [OF this] \<open>0 < sz\<close> read_moved [of b "off - sz" sz] r show ?thesis by (auto intro: cache_moved_trans)
  qed
  with assms(1) prevc_start [of off b] show "cache_moved b b'" "0 < off \<Longrightarrow> off' < off" by (cases "0 < off"; auto)+
qed

lemma prev_induct [consumes 1, case_names step]:
  assumes "size_ok b"
    and "\<And>b off. size_ok b \<Longrightarrow> (\<And>c off' b'. 0 < off \<Longrightarrow> eb_prevc b off = ((c, off'), b') \<Longrightarrow> size_ok b' \<Longrightarrow> P b' off') \<Longrightarrow> P b off"
  shows "P b off"
  using assms(1)
proof (induction "nat off" arbitrary: b off rule: less_induct)
  case less
  show ?case
  proof (rule assms(2) [OF less.prems])
    fix c off' b'
    assume "0 < off" "eb_prevc b off = ((c, off'), b')" "size_ok b'"
    with prevc_moved(2) [OF _ less.prems] less.hyps [of off' b'] show "P b' off'" by force
  qed
qed


text \<open>The result of a motion to the start of a line: the motion moves only the page cache, and
  the character before the place is a line end.\<close>

lemma goto_bol_returns:
  "size_ok b \<Longrightarrow> \<exists>p b'. eb_goto_bol b off = Some (p, b') \<and> cache_moved b b' \<and> p \<le> off \<and> (\<exists>b''. cache_moved b b'' \<and> fst (fst (eb_prevc b'' p)) = 10)"
proof (induction b off rule: prev_induct)
  case (step b off)
  obtain c off' b' where p: "eb_prevc b off = ((c, off'), b')" by (metis surj_pair)
  note m = prevc_moved [OF p step(1)]
  show ?case
  proof (cases "c = 10")
    case True
    with p m show ?thesis by (subst eb_goto_bol.simps) (auto intro!: exI [of _ b])
  next
    case False
    then have "0 < off" using p prevc_start [of off b] by force
    moreover obtain q b2 b3 where "eb_goto_bol b' off' = Some (q, b2)" "cache_moved b' b2" "q \<le> off'"
      "cache_moved b' b3" "fst (fst (eb_prevc b3 q)) = 10"
      using step(2) [OF \<open>0 < off\<close> p size_ok_moved [OF m(1) step(1)]] by blast
    moreover have "eb_goto_bol b off = eb_goto_bol b' off'" using False p by (simp add: eb_goto_bol.simps [of b])
    ultimately show ?thesis using m cache_moved_trans [of b b'] by (intro exI [of _ q] exI [of _ b2]) auto
  qed
qed

lemma goto_bol2_returns:
  "size_ok b \<Longrightarrow> \<exists>p k b'. goto_bol2_loop b off count = Some ((p, k), b') \<and> eb_goto_bol b off = Some (p, b') \<and> count \<le> k"
proof (induction b off arbitrary: count rule: prev_induct)
  case (step b off)
  obtain c off' b' where p: "eb_prevc b off = ((c, off'), b')" by (metis surj_pair)
  note m = prevc_moved [OF p step(1)]
  show ?case
  proof (cases "c = 10")
    case True
    with p show ?thesis by (simp add: goto_bol2_loop.simps [of b] eb_goto_bol.simps [of b])
  next
    case False
    then have "0 < off" using p prevc_start [of off b] by force
    with step(2) [OF this p size_ok_moved [OF m(1) step(1)], of "count + 1"] False p show ?thesis
      by (fastforce simp: goto_bol2_loop.simps [of b] eb_goto_bol.simps [of b])
  qed
qed

lemma prev_line_returns:
  "size_ok b \<Longrightarrow> \<exists>p b'. prev_line_loop b off seen = Some (p, b') \<and> cache_moved b b'"
proof (induction b off arbitrary: seen rule: prev_induct)
  case (step b off)
  obtain c off' b' where p: "eb_prevc b off = ((c, off'), b')" by (metis surj_pair)
  note m = prevc_moved [OF p step(1)]
  show ?case
  proof (cases "0 < off")
    case True
    with step(2) [OF True p size_ok_moved [OF m(1) step(1)], of "seen \<or> c = 10"] p m(1) show ?thesis
      by (subst prev_line_loop.simps) (auto intro: cache_moved_trans)
  next
    case False
    then show ?thesis
      by (simp add: prev_line_loop.simps [of b off] prev_line_loop.simps [of b 0] prevc_start)
  qed
qed

lemma in_indentation_returns:
  "size_ok b \<Longrightarrow> \<exists>r b'. eb_is_in_indentation b off = Some (r, b') \<and> cache_moved b b'"
proof (induction b off rule: prev_induct)
  case (step b off)
  obtain c off' b' where p: "eb_prevc b off = ((c, off'), b')" by (metis surj_pair)
  note m = prevc_moved [OF p step(1)]
  show ?case
  proof (cases "c = 10 \<or> \<not> qe_isblank c")
    case True
    with p m show ?thesis by (subst eb_is_in_indentation.simps) auto
  next
    case False
    then have "0 < off" using p prevc_start [of off b] by force
    with step(2) [OF this p size_ok_moved [OF m(1) step(1)]] False p m show ?thesis
      by (subst eb_is_in_indentation.simps) (auto intro: cache_moved_trans)
  qed
qed

lemma prev_glyph_returns:
  "size_ok b \<Longrightarrow> \<exists>r b'. eb_prev_glyph w b off = Some (r, b') \<and> cache_moved b b'"
proof (induction b off rule: prev_induct)
  case (step b off)
  obtain c off' b' where p: "eb_prevc b off = ((c, off'), b')" by (metis surj_pair)
  note m = prevc_moved [OF p step(1)]
  show ?case
  proof (cases "qe_isaccent w c")
    case False
    with p m show ?thesis by (subst eb_prev_glyph.simps) auto
  next
    case True
    then have "0 < off" using p prevc_start [of off b] accent_not_nl by force
    with step(2) [OF this p size_ok_moved [OF m(1) step(1)]] True p m show ?thesis
      by (subst eb_prev_glyph.simps) (auto intro: cache_moved_trans)
  qed
qed

lemma skip_glyphs_back_returns:
  "size_ok b \<Longrightarrow> \<exists>r b'. skip_glyphs_back w b off n = Some (r, b') \<and> cache_moved b b'"
proof (induction b off arbitrary: n rule: prev_induct)
  case (step b off)
  obtain c off' b' where p: "eb_prevc b off = ((c, off'), b')" by (metis surj_pair)
  note m = prevc_moved [OF p step(1)]
  show ?case
  proof (cases "0 < off")
    case True
    with step(2) [OF True p size_ok_moved [OF m(1) step(1)], of "n + of_bool (\<not> qe_isaccent w c)"] p m(1) show ?thesis
      by (subst skip_glyphs_back.simps) (auto simp: Let_def intro: cache_moved_trans)
  next
    case False
    then show ?thesis by (subst skip_glyphs_back.simps) simp
  qed
qed

text \<open>
  C17. The motions backwards end: in every charset, going to the start of a line, to the
  previous line, over a glyph or back over any number of glyphs, and looking for indentation
  return from every offset, inside the text or not, and change nothing but the page cache. The
  place found as the start of the line is not after the offset and follows a line end or the
  start of the text.
\<close>

theorem backward_motions_return:
  assumes "state_ok b"
  shows "(\<exists>p b1. eb_goto_bol b off = Some (p, b1) \<and> cache_moved b b1 \<and> p \<le> off \<and>
      (\<exists>b'. cache_moved b b' \<and> fst (fst (eb_prevc b' p)) = 10)) \<and>
    (\<exists>p k b1. eb_goto_bol2 b off = Some ((p, k), b1) \<and> eb_goto_bol b off = Some (p, b1) \<and> 0 \<le> k) \<and>
    (\<exists>p b1. eb_prev_line b off = Some (p, b1) \<and> cache_moved b b1) \<and>
    (\<exists>r b1. eb_is_in_indentation b off = Some (r, b1) \<and> cache_moved b b1) \<and>
    (\<exists>r b1. eb_prev_glyph wcwidth b off = Some (r, b1) \<and> cache_moved b b1) \<and>
    (n < 0 \<longrightarrow> (\<exists>r b1. eb_skip_glyphs wcwidth b off n = Some (r, b1) \<and> cache_moved b b1))"
proof -
  note s = state_size_ok [OF assms]
  show ?thesis
    using goto_bol_returns [OF s, of off] goto_bol2_returns [OF s, of off 0] prev_line_returns [OF s, of off False]
      in_indentation_returns [OF s, of off] prev_glyph_returns [OF s, of wcwidth off] skip_glyphs_back_returns [OF s, of wcwidth off n]
    by (simp add: eb_goto_bol2_def eb_prev_line_def eb_skip_glyphs_def)
qed

theorem backward_motions_return_witness:
  "(\<exists>p b1. eb_goto_bol (sample_text charset_ucs2le EOL_DOS [[65, 0]]) 2 = Some (p, b1)) \<and>
   (\<exists>r b1. eb_skip_glyphs (\<lambda>_. 1) (sample_text charset_ucs2le EOL_DOS [[65, 0]]) 2 (-1) = Some (r, b1))"
  using backward_motions_return [OF sample_text_ok(2) [of "[[65, 0]]" charset_ucs2le EOL_DOS], of 2 "\<lambda>_. 1" "-1"]
  by (auto simp: MAX_PAGE_SIZE_def)

section \<open>Cached counts of the pages\<close>

text \<open>The line, column and character counts of a page are right wherever they are marked valid.\<close>

definition page_counts_ok :: "charset_ref \<Rightarrow> CharsetDecodeState \<Rightarrow> Page \<Rightarrow> bool" where
  "page_counts_ok cs s p \<longleftrightarrow>
     (pg_valid_pos p \<longrightarrow> (nb_lines p, col p) = map_prod int int (get_pos_func s (data p))) \<and>
     (pg_valid_char p \<longrightarrow> nb_chars p = int (run_get_chars s (cs_scan (charset_at cs)) (data p)))"

definition counts_ok :: "TextBuffer \<Rightarrow> bool" where
  "counts_ok b \<longleftrightarrow> list_all (page_counts_ok (charset b) (charset_state b)) (page_table b)"

lemma page_counts_stale: "page_stale p \<Longrightarrow> page_counts_ok cs s p"
  by (simp add: page_counts_ok_def page_stale_def)

lemma counts_from:
  "list_all (page_counts_ok cs s) pt \<Longrightarrow> pages_from pt pt' \<Longrightarrow> list_all (page_counts_ok cs s) pt'"
  using page_counts_stale by (auto simp: pages_from_def list_all_iff)

lemma count_lines_ok:
  "data (count_lines s p) = data p"
  "page_counts_ok cs s p \<Longrightarrow> page_counts_ok cs s (count_lines s p)"
  "page_counts_ok cs s p \<Longrightarrow> (nb_lines (count_lines s p), col (count_lines s p)) = map_prod int int (get_pos_func s (data p))"
  by (auto simp: count_lines_def page_counts_ok_def split: prod.split)

lemma count_chars_ok:
  "data (count_chars cs s p) = data p"
  "page_counts_ok cs s p \<Longrightarrow> page_counts_ok cs s (count_chars cs s p)"
  "page_counts_ok cs s p \<Longrightarrow> nb_chars (count_chars cs s p) = int (run_get_chars s (cs_scan (charset_at cs)) (data p))"
  by (auto simp: count_chars_def page_counts_ok_def)

lemma get_pos_pages_ok:
  "map data (snd (get_pos_pages s ps off l c)) = map data ps"
  "list_all (page_counts_ok cs s) ps \<Longrightarrow> list_all (page_counts_ok cs s) (snd (get_pos_pages s ps off l c))"
  by (induction s ps off l c rule: get_pos_pages.induct)
    (auto simp: Let_def count_lines_ok split: prod.split)

lemma goto_pos_pages_ok:
  "map data (snd (goto_pos_pages cs s ps l1 c1 l c off)) = map data ps"
  "list_all (page_counts_ok cs s) ps \<Longrightarrow> list_all (page_counts_ok cs s) (snd (goto_pos_pages cs s ps l1 c1 l c off))"
  by (induction cs s ps l1 c1 l c off rule: goto_pos_pages.induct)
    (auto simp: Let_def count_lines_ok split: prod.split)

lemma goto_char_pages_ok:
  "map data (snd (goto_char_pages cs s ps pos off)) = map data ps"
  "list_all (page_counts_ok cs s) ps \<Longrightarrow> list_all (page_counts_ok cs s) (snd (goto_char_pages cs s ps pos off))"
  by (induction cs s ps pos off rule: goto_char_pages.induct)
    (auto simp: Let_def count_chars_ok split: prod.split)

lemma char_offset_pages_ok:
  "map data (snd (char_offset_pages cs s ps off pos)) = map data ps"
  "list_all (page_counts_ok cs s) ps \<Longrightarrow> list_all (page_counts_ok cs s) (snd (char_offset_pages cs s ps off pos))"
  by (induction cs s ps off pos rule: char_offset_pages.induct)
    (auto simp: Let_def count_chars_ok split: prod.split)

lemma goto_column_moved: "goto_column b off c c1 = (p, b') \<Longrightarrow> cache_moved b b'"
proof (induction b off c c1 rule: goto_column.induct)
  case (1 b off c c1)
  obtain x o1 b1 where x: "eb_nextc b off = ((x, o1), b1)" by (metis surj_pair)
  note m = eb_nextc_moved(1) [OF x]
  show ?case
  proof (cases "c < c1 \<and> x \<noteq> 10")
    case True
    with "1.prems" x have g: "goto_column b1 o1 (c + 1) c1 = (p, b')" by (simp add: goto_column.simps [of b])
    from True have "c < c1" "x \<noteq> 10" by auto
    from cache_moved_trans [OF m "1.IH" [OF this(1) refl x [symmetric] refl refl this(2) g]] show ?thesis .
  next
    case False
    with "1.prems" x m show ?thesis by (auto simp: goto_column.simps [of b] split: if_splits)
  qed
qed

lemma char_boundary_moved: "char_boundary b off = (p, b') \<Longrightarrow> cache_moved b b'"
proof (induction b off rule: char_boundary.induct)
  case (1 b off)
  obtain r b1 where r: "eb_read b off 1 = (r, b1)" by (metis surj_pair)
  note m = read_moved [of b off 1, unfolded r snd_conv]
  show ?case
  proof (cases "0 < off \<and> length r = 1 \<and> utf8_is_trailing_byte (r ! 0)")
    case True
    with "1.prems" r have g: "char_boundary b1 (off - 1) = (p, b')" by (simp add: char_boundary.simps [of b])
    from True have "0 < off" "length r = 1 \<and> utf8_is_trailing_byte (r ! 0)" by auto
    from cache_moved_trans [OF m "1.IH" [OF this(1) refl r [symmetric] this(2) g]] show ?thesis .
  next
    case False
    with "1.prems" r m show ?thesis by (auto simp: char_boundary.simps [of b] split: if_splits)
  qed
qed

lemma counts_moved: "cache_moved b b' \<Longrightarrow> counts_ok b \<Longrightarrow> counts_ok b'"
  by (simp add: counts_ok_def cache_movedD)

lemma write_more: "EditBuffer.more (fst (eb_write b off bs)) = EditBuffer.more b"
proof -
  have "EditBuffer.more (overwrite b o1 p) = EditBuffer.more b" for b :: "'a EditBuffer_scheme" and o1 p
    by (simp add: overwrite_def Let_def split: prod.split)
  then show ?thesis by (simp add: insert_more eb_write_def eb_write_with_def Let_def addlog_more flip: eb_insert_def)
qed

lemma get_pos_kept:
  assumes "counts_ok b"
  shows "counts_ok (snd (eb_get_pos b off)) \<and> map data (page_table (snd (eb_get_pos b off))) = map data (page_table b)"
  using assms get_pos_pages_ok(1) [of "charset_state b" "page_table b" off 0 0]
    get_pos_pages_ok(2) [of "charset b" "charset_state b" "page_table b" off 0 0]
  by (simp add: counts_ok_def eb_get_pos_def case_prod_beta)

lemma goto_pos_kept:
  assumes "counts_ok b"
  shows "counts_ok (snd (eb_goto_pos b l1 c1)) \<and> map data (page_table (snd (eb_goto_pos b l1 c1))) = map data (page_table b)"
proof -
  obtain r ps where r: "goto_pos_pages (charset b) (charset_state b) (page_table b) l1 c1 0 0 0 = (r, ps)" by (metis surj_pair)
  define b1 where "b1 = b\<lparr>page_table := ps\<rparr>"
  have 1: "counts_ok b1" "map data (page_table b1) = map data (page_table b)"
    using assms goto_pos_pages_ok [of "charset b" "charset_state b" "page_table b" l1 c1 0 0 0] r by (simp_all add: b1_def counts_ok_def)
  show ?thesis
  proof (cases r)
    case None
    with r 1 show ?thesis by (simp add: eb_goto_pos_def b1_def)
  next
    case (Some x)
    obtain p b2 where g: "goto_column b1 (fst x) (snd x) c1 = (p, b2)" by (metis surj_pair)
    note m = goto_column_moved [OF g]
    with Some r g have "snd (eb_goto_pos b l1 c1) = b2" by (simp add: eb_goto_pos_def b1_def case_prod_beta)
    with counts_moved [OF m 1(1)] cache_movedD(2) [OF m] 1(2) show ?thesis by simp
  qed
qed

lemma goto_char_kept:
  assumes "counts_ok b"
  shows "counts_ok (snd (eb_goto_char b pos)) \<and> map data (page_table (snd (eb_goto_char b pos))) = map data (page_table b)"
  using assms goto_char_pages_ok [of "charset b" "charset_state b" "page_table b" pos 0]
  by (simp add: counts_ok_def eb_goto_char_def Let_def case_prod_beta)

lemma char_offset_kept:
  assumes "counts_ok b"
  shows "counts_ok (snd (eb_get_char_offset b off)) \<and> map data (page_table (snd (eb_get_char_offset b off))) = map data (page_table b)"
proof -
  define off0 where "off0 = (if off < 0 then 0 else off)"
  obtain o1 b1 where o1: "(if charset b = charset_utf8 then char_boundary b off0 else (off0, b)) = (o1, b1)" by (metis surj_pair)
  have m: "cache_moved b b1" using o1 char_boundary_moved [of b off0 o1 b1] by (auto split: if_splits)
  obtain r ps where r: "char_offset_pages (charset b) (charset_state b) (page_table b) o1 0 = (r, ps)" by (metis surj_pair)
  have "map data ps = map data (page_table b)" "list_all (page_counts_ok (charset b) (charset_state b)) ps"
    using assms char_offset_pages_ok [of "charset b" "charset_state b" "page_table b" o1 0] r by (simp_all add: counts_ok_def)
  moreover have "snd (eb_get_char_offset b off) \<in> {b, b1\<lparr>page_table := ps\<rparr>}"
    unfolding eb_get_char_offset_def Let_def off0_def [symmetric] o1 by (simp add: r cache_movedD [OF m])
  ultimately show ?thesis using assms cache_movedD [OF m] by (auto simp: counts_ok_def)
qed

lemmas position_kept = get_pos_kept goto_pos_kept goto_char_kept char_offset_kept

text \<open>
  C16. The counts cached in the pages stay right: insertions, deletions and overwrites, a change of the
  charset, and the position functions that fill the cache keep every count that is marked
  valid equal to the count of the page's bytes under the charset of the buffer; the position
  functions leave the text of every page alone.
\<close>

theorem cached_counts_kept:
  assumes "ebuf_ok b" "counts_ok b"
  shows "counts_ok (fst (eb_insert b off buf)) \<and> counts_ok (fst (eb_delete b off sz)) \<and> counts_ok (fst (eb_write b off buf)) \<and>
    counts_ok (eb_set_charset b cs eol) \<and>
    (\<forall>b' \<in> {snd (eb_get_pos b off), snd (eb_goto_pos b line1 col1), snd (eb_goto_char b pos), snd (eb_get_char_offset b off)}.
      counts_ok b' \<and> map data (page_table b') = map data (page_table b))"
proof (intro conjI ballI)
  note c = assms(2) [unfolded counts_ok_def]
  have e: "counts_ok b'" if "pages_from (page_table b) (page_table b')" "EditBuffer.more b' = EditBuffer.more b" for b' :: TextBuffer
    using counts_from [OF c that(1)] more_fields [OF that(2)] by (simp add: counts_ok_def)
  show "counts_ok (fst (eb_insert b off buf))" "counts_ok (fst (eb_delete b off sz))" "counts_ok (fst (eb_write b off buf))"
    using eb.insert_correct(4) [OF assms(1)] eb.delete_correct(4) [OF assms(1)] eb.write_correct(4) [OF assms(1)]
    by (auto intro!: e simp: insert_more delete_more write_more simp flip: eb_insert_def eb_delete_def eb_write_def)
  show "counts_ok (eb_set_charset b cs eol)"
    by (auto simp: counts_ok_def eb_set_charset_def list_all_iff page_counts_ok_def clear_counts_def)
  fix b' assume "b' \<in> {snd (eb_get_pos b off), snd (eb_goto_pos b line1 col1), snd (eb_goto_char b pos), snd (eb_get_char_offset b off)}"
  then show "counts_ok b'" "map data (page_table b') = map data (page_table b)"
    using position_kept [OF assms(2)] by auto
qed

lemma sample_counts_ok: "counts_ok (sample_text cs eol ps)"
  by (simp add: counts_ok_def sample_text_fields list_all_iff page_counts_ok_def new_page_def)

theorem cached_counts_kept_witness:
  "counts_ok (fst (eb_insert (sample_text charset_utf8 EOL_UNIX [[97, 10]]) 1 [98])) \<and>
   counts_ok (snd (eb_get_pos (sample_text charset_utf8 EOL_UNIX [[97, 10]]) 1))"
  using cached_counts_kept [OF sample_text_ok(1) [of "[[97, 10]]"] sample_counts_ok, of charset_utf8 EOL_UNIX 1 "[98]" 0 charset_raw EOL_UNIX 0 0 0]
  by (simp add: MAX_PAGE_SIZE_def)

section \<open>Lines and columns in the 8 bit charsets\<close>

text \<open>The number of line feeds and the number of bytes after the last one.\<close>

definition line_col :: "byte list \<Rightarrow> nat \<times> nat" where
  "line_col p = (count_list p LF, length (takeWhile (\<lambda>x. x \<noteq> LF) (rev p)))"

lemma takeWhile_rev_all: "LF \<notin> set q \<Longrightarrow> takeWhile (\<lambda>x. x \<noteq> LF) (rev q) = rev q"
  by (auto simp: takeWhile_eq_all_conv)

lemma takeWhile_rev_append:
  "takeWhile (\<lambda>x. x \<noteq> LF) (rev q @ rev p) =
   (if LF \<in> set q then takeWhile (\<lambda>x. x \<noteq> LF) (rev q) else rev q @ takeWhile (\<lambda>x. x \<noteq> LF) (rev p))"
  using takeWhile_append1 [of LF "rev q" "\<lambda>x. x \<noteq> LF" "rev p"] takeWhile_append2 [of "rev q" "\<lambda>x. x \<noteq> LF" "rev p"] by auto

lemma col_append:
  "snd (line_col (p @ q)) = (if LF \<in> set q then snd (line_col q) else snd (line_col p) + length q)"
  by (simp add: line_col_def takeWhile_rev_append)

lemma col_no_lf: "LF \<notin> set q \<Longrightarrow> snd (line_col q) = length q"
  by (simp add: line_col_def takeWhile_rev_all)

lemma memchr_split:
  "memchr p c = None \<longleftrightarrow> c \<notin> set p"
  "memchr p c = Some q \<Longrightarrow> \<exists>pre. p = pre @ c # tl q \<and> c \<notin> set pre"
proof -
  show "memchr p c = None \<longleftrightarrow> c \<notin> set p"
  proof (cases "dropWhile (\<lambda>x. x \<noteq> c) p")
    case Nil
    have "c \<notin> set p" using Nil [unfolded dropWhile_eq_Nil_conv] by blast
    then show ?thesis unfolding memchr_def Nil by simp
  next
    case (Cons y ys)
    moreover have "c \<in> set p" using Cons dropWhile_eq_Nil_conv [of "\<lambda>x. x \<noteq> c" p] by force
    ultimately show ?thesis by (simp add: memchr_def)
  qed
  assume "memchr p c = Some q"
  then have "dropWhile (\<lambda>x. x \<noteq> c) p = q" "q \<noteq> []" by (auto simp: memchr_def split: list.splits)
  then have "p = takeWhile (\<lambda>x. x \<noteq> c) p @ q" "hd q = c" by (metis takeWhile_dropWhile_id, metis (mono_tags) hd_dropWhile)
  with \<open>q \<noteq> []\<close> show "\<exists>pre. p = pre @ c # tl q \<and> c \<notin> set pre"
    by (intro exI [of _ "takeWhile (\<lambda>x. x \<noteq> c) p"]) (auto dest: set_takeWhileD)
qed

lemma pos_memchr_line_col:
  "pos_memchr False LF p lp k = (k + fst (line_col p), if LF \<in> set p then snd (line_col p) else length lp)"
proof (induction False LF p lp k rule: pos_memchr.induct)
  case (1 p lp k)
  show ?case
  proof (cases "memchr p LF")
    case None
    moreover have "LF \<notin> set p" using None memchr_split(1) [of p] by blast
    ultimately show ?thesis by (simp add: pos_memchr.simps [of _ _ p] line_col_def count_list_0_iff)
  next
    case (Some q)
    then obtain pre where p: "p = pre @ LF # tl q" "LF \<notin> set pre" using memchr_split(2) [OF Some] by blast
    have "snd (line_col p) = snd (line_col (tl q))" if "LF \<in> set (tl q)"
      using that col_append [of "pre @ [LF]" "tl q"] by (subst p(1)) simp
    moreover have "snd (line_col p) = length (tl q)" if "LF \<notin> set (tl q)"
      using that col_append [of "pre @ [LF]" "tl q"] by (subst p(1)) (simp add: line_col_def)
    moreover have "fst (line_col p) = Suc (fst (line_col (tl q)))" "LF \<in> set p"
      using p by (simp_all add: line_col_def count_list_0_iff)
    moreover have "skip_lf False LF (tl q) = tl q" by (simp add: skip_lf_def)
    ultimately show ?thesis
      using 1 [OF Some refl] Some by (cases "LF \<in> set (tl q)") (simp_all add: pos_memchr.simps [of _ _ p] Let_def)
  qed
qed

lemma get_pos_line_col:
  assumes "ds_eol_type s = EOL_UNIX" "ds_eol_char s = LF"
  shows "charset_get_pos_8bit s p = line_col p"
  using pos_memchr_line_col [of p p 0] col_no_lf [of p] assms
  by (simp add: charset_get_pos_8bit_def skip_lf_def Let_def prod_eq_iff)

definition line_col_from :: "int \<times> int \<Rightarrow> byte list \<Rightarrow> int \<times> int" where
  "line_col_from lc q = (fst lc + int (fst (line_col q)), (if fst (line_col q) \<noteq> 0 then 0 else snd lc) + int (snd (line_col q)))"

lemma line_col_from_append: "line_col_from (line_col_from lc p) q = line_col_from lc (p @ q)"
  by (auto simp: line_col_from_def line_col_def takeWhile_rev_append takeWhile_rev_all count_list_0_iff)

lemma get_pos_pages_line_col:
  assumes "\<And>p. get_pos_func s p = line_col p" "0 \<le> off" "list_all (page_counts_ok cs s) ps"
  shows "fst (get_pos_pages s ps off l c) = line_col_from (l, c) (take (nat off) (content ps))"
  using assms(2,3)
proof (induction ps arbitrary: off l c)
  case Nil
  then show ?case by (simp add: line_col_from_def line_col_def)
next
  case (Cons p ps)
  show ?case
  proof (cases "off < int (psize p)")
    case True
    with Cons.prems assms(1) show ?thesis by (simp add: line_col_from_def case_prod_beta nat_less_iff)
  next
    case False
    define p' where "p' = count_lines s p"
    have "(nb_lines p', col p') = map_prod int int (line_col (data p))" "data p' = data p"
      using count_lines_ok(1) [of s p] count_lines_ok(3) [of cs s p] Cons.prems(2) assms(1) by (simp_all add: p'_def)
    then have "(l + nb_lines p', (if nb_lines p' \<noteq> 0 then 0 else c) + col p') = line_col_from (l, c) (data p)"
      by (auto simp: line_col_from_def map_prod_def split: prod.splits)
    moreover have "nat (off - int (psize p)) = nat off - psize p" by (simp add: nat_diff_distrib')
    ultimately show ?thesis
      using False Cons.IH [of "off - int (psize p)"] Cons.prems line_col_from_append \<open>data p' = data p\<close>
      by (simp add: Let_def case_prod_beta flip: p'_def)
  qed
qed

definition byte_charset :: "charset_ref \<Rightarrow> bool" where
  "byte_charset r \<longleftrightarrow> r \<in> {charset_raw, charset_8859_1, charset_vt100, charset_7bit, charset_mac_roman}"

text \<open>A buffer in an 8 bit charset with Unix line ends.\<close>

definition byte_text :: "TextBuffer \<Rightarrow> bool" where
  "byte_text b \<longleftrightarrow> state_ok b \<and> byte_charset (charset b) \<and> eol_type b = EOL_UNIX"

lemma byte_text_moved: "cache_moved b b' \<Longrightarrow> byte_text b \<Longrightarrow> byte_text b'"
  by (auto simp: byte_text_def state_ok_moved cache_movedD)

definition table_char :: "TextBuffer \<Rightarrow> byte \<Rightarrow> char32" where
  "table_char b x = ucast (ds_table (charset_state b) ! unat x)"

lemma mac_table: "ds_table (charset_decode_init charset_mac_roman eol) = map of_nat [0..<128] @ table_mac_roman"
  by (simp add: charset_decode_init_def decode_8bit_init_def charset_structs table_mac_roman_def Let_def)

lemma mac_no_lf: "10 \<notin> set table_mac_roman"
  by (simp add: table_mac_roman_def)

lemma ucast_ten: "(ucast (t :: ushort) :: char32) = 10 \<longleftrightarrow> t = 10"
proof -
  have "unat t < 2 ^ 32" using unsigned_less [of t, where 'a = nat] by simp
  then have "unat (ucast t :: char32) = unat t" by (simp add: unsigned_ucast_eq take_bit_nat_eq_self)
  then show ?thesis by (simp add: word_unat_eq_iff)
qed

lemma ushort_ten: "n < 65536 \<Longrightarrow> (ucast (of_nat n :: ushort) :: char32) = 10 \<longleftrightarrow> n = 10"
  by (simp add: word_unat_eq_iff unsigned_ucast_eq unsigned_of_nat take_bit_nat_eq_self unsigned_take_bit_eq)

lemma table_char_lf:
  assumes "byte_text b"
  shows "table_char b x = 10 \<longleftrightarrow> x = LF"
proof -
  have u: "unat x < 256" using unsigned_less [of x, where 'a = nat] by simp
  have lf: "unat x = 10 \<longleftrightarrow> x = LF" by (simp add: word_unat_eq_iff)
  show ?thesis
  proof (cases "charset b = charset_mac_roman")
    case True
    then have t: "ds_table (charset_state b) = map of_nat [0..<128] @ table_mac_roman"
      using assms mac_table by (simp add: byte_text_def state_ok_def)
    show ?thesis
    proof (cases "unat x < 128")
      case True
      with t ushort_ten [of "unat x"] lf show ?thesis by (simp add: table_char_def nth_append)
    next
      case False
      have "length table_mac_roman = 128" by (simp add: table_mac_roman_def)
      with False u have "table_mac_roman ! (unat x - 128) \<in> set table_mac_roman" by simp
      with mac_no_lf have "table_mac_roman ! (unat x - 128) \<noteq> 10" by metis
      then have "(ucast (table_mac_roman ! (unat x - 128)) :: char32) \<noteq> 10" by (simp add: ucast_ten)
      with t False lf show ?thesis by (auto simp: table_char_def nth_append)
    qed
  next
    case False
    then have "ds_table (charset_state b) = table_idem"
      using assms idem_state [of "charset b"] by (auto simp: byte_text_def state_ok_def byte_charset_def)
    with u ushort_ten [of "unat x"] lf show ?thesis by (simp add: table_char_def table_idem_def)
  qed
qed

lemma decode_byte: "byte_text b \<Longrightarrow> decode_func (charset_state b) p = (table_char b (head0 p), 1)"
  by (auto simp: byte_text_def byte_charset_def state_ok_def decode_func_def charset_decode_init_def charset_structs decode_8bit_def table_char_def)

lemma nextc_byte:
  assumes "byte_text b" "text_at b off (x # p)"
  obtains b' where "eb_nextc b off = ((table_char b x, off + 1), b')" "cache_moved b b'" "buf_wf b'"
proof -
  obtain y b1 where y: "eb_read_one_byte b off = (y, b1)" by (metis surj_pair)
  note m = text_at_byte [OF assms(2) y]
  obtain r b2 where r: "eb_read b1 off MAX_CHAR_BYTES = (r, b2)" by (metis surj_pair)
  note m2 = text_at_read [OF text_at_moved [OF assms(2) m(2,3)] r]
  have f: "charset_state b1 = charset_state b" "charset_state b2 = charset_state b" "eol_type b1 = EOL_UNIX" "eol_type b2 = EOL_UNIX"
    using cache_movedD [OF m(2)] cache_movedD [OF m2(2)] assms(1) by (simp_all add: byte_text_def)
  have "head0 (fill_buf r zero_buf) = x" using m2(1) by (simp add: fill_buf_def MAX_CHAR_BYTES_def)
  then have d: "decode_func (charset_state b2) (fill_buf r zero_buf) = (table_char b x, 1)"
    using decode_byte [OF assms(1)] f by simp
  have n: "nat y = unat x" "0 \<le> y" using m(1) by simp_all
  show thesis
  proof (cases "ds_table (charset_state b) ! unat x = ESCAPE_CHAR")
    case True
    with y r d n f have "eb_nextc b off = ((table_char b x, off + 1), b2)"
      by (simp add: eb_nextc_def next_decode_def next_eol_def)
    with that cache_moved_trans [OF m(2) m2(2)] m2(3) show thesis by blast
  next
    case False
    with y n f have "eb_nextc b off = ((table_char b x, off + 1), b1)"
      by (simp add: eb_nextc_def next_decode_def next_eol_def table_char_def)
    with that m(2,3) show thesis by blast
  qed
qed

lemma nextc_end:
  assumes "text_at b off []"
  shows "eb_nextc b off = ((10, off), b)" "off = total_size b"
proof -
  show "off = total_size b" using assms by (auto simp: text_at_def buf_wf_def)
  then show "eb_nextc b off = ((10, off), b)" using assms by (simp add: eb_nextc_def eb_read_one_byte_def text_at_def)
qed

lemma prev_eol_unix: "eol_type b = EOL_UNIX \<Longrightarrow> prev_eol b cp off sz = ((cp, off), b)"
  by (simp add: prev_eol_def)

lemma prevc_byte:
  assumes "byte_text b" "text_at b off (x # p)"
  obtains b' where "eb_prevc b (off + 1) = ((table_char b x, off), b')" "cache_moved b b'" "buf_wf b'"
proof -
  obtain r b1 where r: "eb_read b off 1 = (r, b1)" by (metis surj_pair)
  note m = text_at_read [OF assms(2) r]
  have f: "charset_state b1 = charset_state b" "eol_type b1 = EOL_UNIX"
    using cache_movedD [OF m(2)] assms(1) by (simp_all add: byte_text_def)
  have "ds_char_size (charset_state b) = 1" "charset b \<noteq> charset_utf8"
    using assms(1) char_size_state [of b] by (auto simp: byte_text_def byte_charset_def charset_structs)
  moreover have "decode_func (charset_state b1) (fill_buf r zero_buf) = (table_char b x, 1)"
    using decode_byte [OF assms(1)] f m(1) by (simp add: fill_buf_def)
  moreover have "0 \<le> off" using assms(2) by (simp add: text_at_def)
  ultimately have "eb_prevc b (off + 1) = ((table_char b x, off), b1)"
    using r f prev_eol_unix [OF f(2)] by (simp add: eb_prevc_def Let_def)
  with that m(2,3) show thesis by blast
qed


lemma goto_eol_byte:
  assumes "byte_text b" "text_at b off p"
  shows "fst (eb_goto_eol b off) = off + int (length (takeWhile (\<lambda>x. x \<noteq> LF) p))"
    "fst (eb_next_line b off) = min (off + int (length (takeWhile (\<lambda>x. x \<noteq> LF) p)) + 1) (total_size b)"
proof -
  have "fst (eb_goto_eol b off) = off + int (length (takeWhile (\<lambda>x. x \<noteq> LF) p)) \<and>
    fst (eb_next_line b off) = min (off + int (length (takeWhile (\<lambda>x. x \<noteq> LF) p)) + 1) (total_size b)"
    using assms
  proof (induction p arbitrary: b off)
    case Nil
    with nextc_end [OF Nil.prems(2)] show ?case
      by (simp add: eb_goto_eol.simps [of b] eb_next_line.simps [of b])
  next
    case (Cons x p)
    obtain b' where n: "eb_nextc b off = ((table_char b x, off + 1), b')" "cache_moved b b'" "buf_wf b'"
      using nextc_byte [OF Cons.prems] .
    have t0: "text_at b (off + 1) p" using text_at_append [of b off "[x]" p] Cons.prems(2) by simp
    have t: "text_at b' (off + 1) p" "off + 1 \<le> total_size b"
      using text_at_moved [OF t0 n(2,3)] t0 [unfolded text_at_def] by blast+
    show ?case
    proof (cases "x = LF")
      case True
      with n t(2) table_char_lf [OF Cons.prems(1)] show ?thesis
        by (simp add: eb_goto_eol.simps [of b] eb_next_line.simps [of b])
    next
      case False
      with n table_char_lf [OF Cons.prems(1)] have "eb_goto_eol b off = eb_goto_eol b' (off + 1)" "eb_next_line b off = eb_next_line b' (off + 1)"
        by (simp_all add: eb_goto_eol.simps [of b] eb_next_line.simps [of b])
      with Cons.IH [OF byte_text_moved [OF n(2) Cons.prems(1)] t(1)] False cache_movedD(1) [OF n(2)] show ?thesis
        by (simp add: algebra_simps)
    qed
  qed
  then show "fst (eb_goto_eol b off) = off + int (length (takeWhile (\<lambda>x. x \<noteq> LF) p))"
    "fst (eb_next_line b off) = min (off + int (length (takeWhile (\<lambda>x. x \<noteq> LF) p)) + 1) (total_size b)" by auto
qed

lemma goto_bol_byte:
  assumes "byte_text b" "buf_wf b" "btext b = p @ q"
  shows "\<exists>b'. goto_bol2_loop b (int (length p)) k =
    Some ((int (length p) - int (snd (line_col p)), k + int (snd (line_col p))), b')"
  using assms
proof (induction p arbitrary: b k q rule: rev_induct)
  case Nil
  then show ?case by (simp add: goto_bol2_loop.simps [of b] prevc_start line_col_def)
next
  case (snoc x p)
  have "text_at b (int (length p)) (x # q)" using snoc.prems(2,3) by (simp add: text_at_def buf_wf_def)
  then obtain b' where v: "eb_prevc b (int (length p) + 1) = ((table_char b x, int (length p)), b')" "cache_moved b b'" "buf_wf b'"
    using prevc_byte [OF snoc.prems(1)] by blast
  show ?case
  proof (cases "x = LF")
    case True
    with v table_char_lf [OF snoc.prems(1)] show ?thesis
      by (simp add: goto_bol2_loop.simps [of b] line_col_def add.commute)
  next
    case False
    with v table_char_lf [OF snoc.prems(1)] have
      "goto_bol2_loop b (int (length (p @ [x]))) k = goto_bol2_loop b' (int (length p)) (k + 1)"
      by (simp add: goto_bol2_loop.simps [of b] add.commute)
    moreover have "btext b' = p @ [x] @ q" using snoc.prems(3) cache_movedD(2) [OF v(2)] by simp
    ultimately show ?thesis
      using snoc.IH [OF byte_text_moved [OF v(2) snoc.prems(1)] v(3), of "[x] @ q" "k + 1"] False
      by (auto simp: line_col_def)
  qed
qed



section \<open>A line and column that is not found\<close>

lemma latin1_line_col: "get_pos_func (charset_decode_init charset_8859_1 EOL_UNIX) p = line_col p"
  by (simp add: get_pos_func_def get_pos_line_col charset_decode_init_def charset_structs)


end
