(* ===== verification/BufferNames.thy ===== *)
theory BufferNames
  imports StringLaws
begin

text \<open>
  The table of buffers (\<^verbatim>\<open>src/buffer.c\<close>): the list of all buffers, the cache of buffers sorted by name
  with its binary search, unique names, creation and release. A buffer is its address, a natural
  number; its name is read from the store \<open>buf_name\<close>. The contents of buffers are modelled in the
  other theories.
\<close>

section \<open>Data\<close>

record BufferTable =
  buf_name :: "nat \<Rightarrow> byte list"
  buf_filename :: "nat \<Rightarrow> byte list"
  buffer_cache :: "nat list"
  buffer_cache_size :: int
  first_buffer :: "nat list"

definition MAX_BUFFERNAME_SIZE :: int where "MAX_BUFFERNAME_SIZE = 256"

text \<open>The C library promises only the sign of the result.\<close>

fun strcmp :: "byte list compare_fn" where
  "strcmp [] [] = 0"
| "strcmp [] (_ # _) = -1"
| "strcmp (_ # _) [] = 1"
| "strcmp (x # xs) (y # ys) = (if x < y then -1 else if x > y then 1 else strcmp xs ys)"

section \<open>The name cache\<close>

function locate_loop :: "(nat \<Rightarrow> byte list) \<Rightarrow> nat list \<Rightarrow> byte list \<Rightarrow> nat \<Rightarrow> nat \<Rightarrow> int" where
  "locate_loop nm cache name aa bb =
     (if aa < bb then
        let m = (aa + bb) div 2; cmp = strcmp name (nm (cache ! m))
        in if cmp < 0 then locate_loop nm cache name aa m
           else if cmp > 0 then locate_loop nm cache name (m + 1) bb
           else int m
      else - int aa - 1)"
  by pat_completeness auto
termination
  by (relation "measure (\<lambda>(nm, cache, name, aa, bb). bb - aa)") auto

declare locate_loop.simps [simp del]

definition eb_cache_locate :: "BufferTable \<Rightarrow> byte list \<Rightarrow> int" where
  "eb_cache_locate qs name = locate_loop (buf_name qs) (buffer_cache qs) name 0 (length (buffer_cache qs))"

definition eb_cache_remove :: "BufferTable \<Rightarrow> nat \<Rightarrow> BufferTable \<times> int" where
  "eb_cache_remove qs b =
     (let pos = eb_cache_locate qs (buf_name qs b)
      in if pos < 0 then (qs, -1)
         else if buffer_cache qs ! nat pos \<noteq> b then (qs, -2)
         else (qs\<lparr>buffer_cache := take (nat pos) (buffer_cache qs) @ drop (nat pos + 1) (buffer_cache qs)\<rparr>, 0))"

definition eb_cache_insert :: "BufferTable \<Rightarrow> nat \<Rightarrow> BufferTable \<times> int" where
  "eb_cache_insert qs b =
     (let cache = buffer_cache qs; len = int (length cache); pos = eb_cache_locate qs (buf_name qs b)
      in if pos \<ge> 0 then (qs, if cache ! nat pos = b then -3 else -2)
         else let qs = (if len \<ge> buffer_cache_size qs
                        then qs\<lparr>buffer_cache_size := max_int 32 (len + len div 2 + len div 8)\<rparr> else qs);
                  pos = nat (- pos - 1)
              in (qs\<lparr>buffer_cache := take pos cache @ b # drop pos cache\<rparr>, 0))"

definition eb_find :: "BufferTable \<Rightarrow> byte list \<Rightarrow> nat option" where
  "eb_find qs name =
     (let pos = eb_cache_locate qs name in if pos < 0 then None else Some (buffer_cache qs ! nat pos))"

section \<open>Names\<close>

fun decimal :: "nat \<Rightarrow> byte list" where
  "decimal n = (if n < 10 then [48 + of_nat n] else decimal (n div 10) @ [48 + of_nat (n mod 10)])"

declare decimal.simps [simp del]

definition name_attempt :: "byte list \<Rightarrow> nat \<Rightarrow> byte list \<Rightarrow> byte list \<Rightarrow> nat \<Rightarrow> byte list" where
  "name_attempt name pos prefix suffix n =
     take pos name @ take (nat (MAX_BUFFERNAME_SIZE - int pos - 1)) (prefix @ decimal n @ suffix)"

text \<open>The loop that looks for a free name; \<^const>\<open>None\<close> inside the result is the early return for a buffer that
  has the name already.\<close>

partial_function (option) name_loop ::
  "BufferTable \<Rightarrow> nat \<Rightarrow> nat \<Rightarrow> byte list \<Rightarrow> byte list \<Rightarrow> byte list \<Rightarrow> nat \<Rightarrow> byte list option option" where
  "name_loop qs b pos prefix suffix name n =
     (let b1 = eb_find qs name
      in if b1 \<noteq> None \<or> name = [] then
           if b1 = Some b then Some None
           else name_loop qs b pos prefix suffix (name_attempt name pos prefix suffix (n + 1)) (n + 1)
         else Some (Some name))"

definition eb_set_buffer_name :: "BufferTable \<Rightarrow> nat \<Rightarrow> byte list \<Rightarrow> (BufferTable \<times> int) option" where
  "eb_set_buffer_name qs b name1 =
     (let name = pstrcpy [] (MAX_BUFFERNAME_SIZE - 10) name1;
          pos = length name;
          star = (pos > 0 \<and> name ! (pos - 1) = 42);
          pos = (if star then pos - 1 else pos);
          prefix = (if star then [45] else [60]);
          suffix = (if star then [42] else [62])
      in case name_loop qs b pos prefix suffix name 0 of
           None \<Rightarrow> None
         | Some None \<Rightarrow> Some (qs, 0)
         | Some (Some name) \<Rightarrow>
             let qs = fst (eb_cache_remove qs b);
                 qs = qs\<lparr>buf_name := (buf_name qs)(b := pstrcpy (buf_name qs b) MAX_BUFFERNAME_SIZE name)\<rparr>
             in Some (eb_cache_insert qs b))"

section \<open>Creation and release\<close>

text \<open>\<open>b\<close> is the address of the new buffer, which starts with an empty name; the result names the buffer
  unless the creation failed.\<close>

definition eb_new_named :: "BufferTable \<Rightarrow> nat \<Rightarrow> byte list \<Rightarrow> (BufferTable \<times> nat option) option" where
  "eb_new_named qs b name =
     (let qs0 = qs\<lparr>buf_name := (buf_name qs)(b := []), buf_filename := (buf_filename qs)(b := [])\<rparr>
      in case eb_set_buffer_name qs0 b name of
           None \<Rightarrow> None
         | Some (qs1, r) \<Rightarrow>
             if r \<noteq> 0 then Some (qs1, None)
             else Some (qs1\<lparr>first_buffer :=
                    (if head0 (buf_name qs1 b) = 42 then first_buffer qs1 @ [b] else b # first_buffer qs1)\<rparr>, Some b))"

definition eb_find_new :: "BufferTable \<Rightarrow> nat \<Rightarrow> byte list \<Rightarrow> (BufferTable \<times> nat option) option" where
  "eb_find_new qs b name =
     (case eb_find qs name of Some b1 \<Rightarrow> Some (qs, Some b1) | None \<Rightarrow> eb_new_named qs b name)"

text \<open>The part of \<^verbatim>\<open>eb_free\<close> that concerns the table.\<close>

definition eb_free_named :: "BufferTable \<Rightarrow> nat \<Rightarrow> BufferTable" where
  "eb_free_named qs b =
     (let qs = fst (eb_cache_remove qs b) in qs\<lparr>first_buffer := filter (\<lambda>b1. b1 \<noteq> b) (first_buffer qs)\<rparr>)"

definition check_buffer :: "BufferTable \<Rightarrow> nat \<Rightarrow> nat option" where
  "check_buffer qs b = find (\<lambda>b1. b1 = b) (first_buffer qs)"

definition eb_find_file :: "BufferTable \<Rightarrow> byte list \<Rightarrow> nat option" where
  "eb_find_file qs filename = find (\<lambda>b. buf_filename qs b = filename) (first_buffer qs)"

end
