(* ===== verification/NameLaws.thy ===== *)
theory NameLaws
  imports BufferNames
begin

text \<open>
  Laws of the table of buffers: binary search finds exactly the buffer with a name, names stay unique
  and non-empty through creation, renaming and release, and renaming returns.
\<close>

section \<open>Comparison of names\<close>

lemma strcmp_zero: "strcmp a b = 0 \<longleftrightarrow> a = b"
  by (induction a b rule: strcmp.induct) auto

lemma strcmp_self [simp]: "strcmp a a = 0"
  by (simp add: strcmp_zero)

lemma strcmp_neg_trans: "strcmp a b < 0 \<Longrightarrow> strcmp b c < 0 \<Longrightarrow> strcmp a c < 0"
proof (induction a b arbitrary: c rule: strcmp.induct)
  case (4 x xs y ys)
  then show ?case by (cases c) (auto split: if_splits)
next
  case (2 y ys)
  then show ?case by (cases c) auto
qed auto

interpretation name: compare_contract strcmp
proof
  show flip: "strcmp a b > 0 \<longleftrightarrow> strcmp b a < 0" for a b
    by (induction a b rule: strcmp.induct) auto
  show "strcmp a b \<le> 0 \<Longrightarrow> strcmp b c \<le> 0 \<Longrightarrow> strcmp a c \<le> 0" for a b c
    using strcmp_neg_trans [of a b c] strcmp_zero [of a b] strcmp_zero [of b c] by (cases "a = b \<or> b = c") auto
qed

section \<open>Binary search\<close>

definition names_sorted :: "(nat \<Rightarrow> byte list) \<Rightarrow> nat list \<Rightarrow> bool" where
  "names_sorted nm cache \<longleftrightarrow> sorted_wrt (\<lambda>x y. strcmp (nm x) (nm y) < 0) cache"

lemma names_sorted_nth:
  "names_sorted nm cache \<Longrightarrow> i < j \<Longrightarrow> j < length cache \<Longrightarrow> strcmp (nm (cache ! i)) (nm (cache ! j)) < 0"
  using sorted_wrt_nth_less [of "\<lambda>x y. strcmp (nm x) (nm y) < 0" cache i j] by (simp add: names_sorted_def)

text \<open>The place of a name in the cache: where it is, or where it would be inserted.\<close>

definition placed :: "(nat \<Rightarrow> byte list) \<Rightarrow> nat list \<Rightarrow> byte list \<Rightarrow> int \<Rightarrow> bool" where
  "placed nm cache name r \<longleftrightarrow>
     (if r \<ge> 0 then nat r < length cache \<and> nm (cache ! nat r) = name
      else nat (- r - 1) \<le> length cache \<and> (\<forall>i < nat (- r - 1). strcmp (nm (cache ! i)) name < 0) \<and>
        (\<forall>i. nat (- r - 1) \<le> i \<longrightarrow> i < length cache \<longrightarrow> strcmp name (nm (cache ! i)) < 0))"

lemma locate_loop_placed:
  assumes "names_sorted nm cache" "aa \<le> bb" "bb \<le> length cache"
    "\<forall>i < aa. strcmp (nm (cache ! i)) name < 0" "\<forall>i. bb \<le> i \<longrightarrow> i < length cache \<longrightarrow> strcmp name (nm (cache ! i)) < 0"
  shows "placed nm cache name (locate_loop nm cache name aa bb)"
  using assms
proof (induction nm cache name aa bb rule: locate_loop.induct)
  case (1 nm cache name aa bb)
  define m where "m = (aa + bb) div 2"
  define c where "c = strcmp name (nm (cache ! m))"
  show ?case
  proof (cases "aa < bb")
    case False
    with "1.prems" show ?thesis by (auto simp: locate_loop.simps [of nm] placed_def)
  next
    case True
    then have m: "aa \<le> m" "m < bb" "m < length cache" using "1.prems"(3) by (auto simp: m_def)
    have e: "locate_loop nm cache name aa bb =
      (if c < 0 then locate_loop nm cache name aa m else if c > 0 then locate_loop nm cache name (m + 1) bb else int m)"
      using True by (simp add: locate_loop.simps [of nm cache name aa bb] Let_def m_def c_def)
    consider "c < 0" | "c > 0" | "c = 0" by linarith
    then show ?thesis
    proof cases
      case 1
      have "strcmp name (nm (cache ! i)) < 0" if "m \<le> i" "i < length cache" for i
        using that 1 names_sorted_nth [OF "1.prems"(1), of m i] strcmp_neg_trans by (cases "i = m") (auto simp: c_def)
      with "1.IH"(1) [OF True m_def c_def 1 "1.prems"(1)] 1 "1.prems" m e show ?thesis by simp
    next
      case 2
      then have c': "strcmp (nm (cache ! m)) name < 0" using name.cmp_flip by (simp add: c_def)
      have "strcmp (nm (cache ! i)) name < 0" if "i < m + 1" for i
        using that c' names_sorted_nth [OF "1.prems"(1) _ m(3), of i] strcmp_neg_trans by (cases "i = m") auto
      moreover have "\<not> c < 0" using 2 by simp
      ultimately show ?thesis
        using "1.IH"(2) [OF True m_def c_def _ 2 "1.prems"(1)] 2 "1.prems" m e by simp
    next
      case 3
      then have "name = nm (cache ! m)" by (simp add: c_def strcmp_zero)
      moreover have "locate_loop nm cache name aa bb = int m" using e 3 by simp
      ultimately show ?thesis using m by (simp add: placed_def)
    qed
  qed
qed

lemma locate_placed:
  "names_sorted (buf_name qs) (buffer_cache qs) \<Longrightarrow> placed (buf_name qs) (buffer_cache qs) name (eb_cache_locate qs name)"
  by (simp add: eb_cache_locate_def locate_loop_placed)

lemma same_name:
  assumes "names_sorted nm cache" "x \<in> set cache" "y \<in> set cache" "nm x = nm y"
  shows "x = y"
proof -
  obtain i j where ij: "i < length cache" "cache ! i = x" "j < length cache" "cache ! j = y"
    using assms(2,3) by (auto simp: in_set_conv_nth)
  with names_sorted_nth [OF assms(1), of i j] names_sorted_nth [OF assms(1), of j i] assms(4) show ?thesis
    by (cases i j rule: linorder_cases) auto
qed

lemma locate_absent:
  assumes "names_sorted (buf_name qs) (buffer_cache qs)"
  shows "eb_cache_locate qs name < 0 \<longleftrightarrow> name \<notin> buf_name qs ` set (buffer_cache qs)"
proof
  define r where "r = eb_cache_locate qs name"
  note p = locate_placed [OF assms, of name, folded r_def]
  show "name \<notin> buf_name qs ` set (buffer_cache qs)" if "r < 0"
  proof
    assume "name \<in> buf_name qs ` set (buffer_cache qs)"
    then obtain i where i: "i < length (buffer_cache qs)" "buf_name qs (buffer_cache qs ! i) = name"
      by (auto simp: in_set_conv_nth)
    have "strcmp name name < 0"
    proof (cases "i < nat (- r - 1)")
      case True
      with p that have "strcmp (buf_name qs (buffer_cache qs ! i)) name < 0" by (simp add: placed_def)
      with i(2) show ?thesis by simp
    next
      case False
      with p that i(1) have "strcmp name (buf_name qs (buffer_cache qs ! i)) < 0" by (simp add: placed_def)
      with i(2) show ?thesis by simp
    qed
    then show False by simp
  qed
  show "r < 0" if "name \<notin> buf_name qs ` set (buffer_cache qs)"
  proof (rule ccontr)
    assume "\<not> r < 0"
    with p have "nat r < length (buffer_cache qs)" "buf_name qs (buffer_cache qs ! nat r) = name" by (auto simp: placed_def)
    with that show False by force
  qed
qed

lemma find_spec:
  assumes "names_sorted (buf_name qs) (buffer_cache qs)"
  shows "eb_find qs name = Some b \<longleftrightarrow> b \<in> set (buffer_cache qs) \<and> buf_name qs b = name"
proof -
  define r where "r = eb_cache_locate qs name"
  note p = locate_placed [OF assms, of name, folded r_def] and a = locate_absent [OF assms, of name, folded r_def]
  show ?thesis
  proof (cases "r < 0")
    case True
    with a show ?thesis by (auto simp: eb_find_def r_def)
  next
    case False
    define x where "x = buffer_cache qs ! nat r"
    have x: "x \<in> set (buffer_cache qs)" "buf_name qs x = name" using p False by (simp_all add: placed_def x_def)
    have "eb_find qs name = Some x" using False by (simp add: eb_find_def r_def [symmetric] x_def)
    moreover have "x = b \<longleftrightarrow> b \<in> set (buffer_cache qs) \<and> buf_name qs b = name"
    proof
      show "b \<in> set (buffer_cache qs) \<and> buf_name qs b = name" if "x = b" using x unfolding that by simp
      show "x = b" if "b \<in> set (buffer_cache qs) \<and> buf_name qs b = name"
        by (rule same_name [OF assms x(1)]) (use that x(2) in auto)
    qed
    ultimately show ?thesis by simp
  qed
qed

section \<open>Insertion and removal\<close>

lemma names_sorted_append:
  "names_sorted nm (xs @ ys) \<longleftrightarrow> names_sorted nm xs \<and> names_sorted nm ys \<and> (\<forall>x \<in> set xs. \<forall>y \<in> set ys. strcmp (nm x) (nm y) < 0)"
  by (simp add: names_sorted_def sorted_wrt_append)

lemma names_sorted_cong: "(\<And>x. x \<in> set xs \<Longrightarrow> nm x = nm' x) \<Longrightarrow> names_sorted nm xs = names_sorted nm' xs"
  unfolding names_sorted_def by (induction xs) auto

lemma names_sorted_distinct: "names_sorted nm xs \<Longrightarrow> distinct xs"
proof (induction xs)
  case (Cons x xs)
  then show ?case using strcmp_zero [of "nm x" "nm x"] by (auto simp: names_sorted_def)
qed simp

lemma take_drop_nth: "i < length xs \<Longrightarrow> xs = take i xs @ xs ! i # drop (i + 1) xs"
  by (simp add: id_take_nth_drop)

lemma cache_remove_spec:
  assumes "names_sorted (buf_name qs) (buffer_cache qs)"
  obtains cache where "fst (eb_cache_remove qs b) = qs\<lparr>buffer_cache := cache\<rparr>" "set cache = set (buffer_cache qs) - {b}"
    "names_sorted (buf_name qs) cache" "length cache \<le> length (buffer_cache qs)"
proof (cases "b \<in> set (buffer_cache qs)")
  case True
  define r where "r = eb_cache_locate qs (buf_name qs b)"
  have f: "eb_find qs (buf_name qs b) = Some b" using find_spec [OF assms] True by simp
  then have r: "0 \<le> r" "buffer_cache qs ! nat r = b" by (auto simp: eb_find_def r_def Let_def split: if_splits)
  then have "nat r < length (buffer_cache qs)" using locate_placed [OF assms, of "buf_name qs b", folded r_def] by (simp add: placed_def)
  define pre post where "pre = take (nat r) (buffer_cache qs)" and "post = drop (nat r + 1) (buffer_cache qs)"
  from take_drop_nth [OF \<open>nat r < length (buffer_cache qs)\<close>] r(2) have s: "buffer_cache qs = pre @ [b] @ post"
    by (simp add: pre_def post_def)
  have "names_sorted (buf_name qs) (pre @ post)" "b \<notin> set (pre @ post)"
    using assms names_sorted_distinct [OF assms] unfolding s names_sorted_append by auto
  moreover have "fst (eb_cache_remove qs b) = qs\<lparr>buffer_cache := pre @ post\<rparr>"
    using r by (simp add: eb_cache_remove_def r_def [symmetric] pre_def post_def)
  ultimately show thesis using that [of "pre @ post"] s by auto
next
  case False
  have "eb_cache_locate qs (buf_name qs b) < 0 \<or> buffer_cache qs ! nat (eb_cache_locate qs (buf_name qs b)) \<noteq> b"
    using locate_placed [OF assms, of "buf_name qs b"] False nth_mem by (fastforce simp: placed_def split: if_splits)
  then have "fst (eb_cache_remove qs b) = qs" by (auto simp: eb_cache_remove_def Let_def)
  with that [of "buffer_cache qs"] False assms show thesis by simp
qed

lemma cache_insert_spec:
  assumes "names_sorted (buf_name qs) (buffer_cache qs)" "buf_name qs b \<notin> buf_name qs ` set (buffer_cache qs)"
    "int (length (buffer_cache qs)) \<le> buffer_cache_size qs"
  obtains cache n where "eb_cache_insert qs b = (qs\<lparr>buffer_cache := cache, buffer_cache_size := n\<rparr>, 0)"
    "set cache = insert b (set (buffer_cache qs))" "names_sorted (buf_name qs) cache" "int (length cache) \<le> n"
proof -
  define len where "len = int (length (buffer_cache qs))"
  define r where "r = eb_cache_locate qs (buf_name qs b)"
  define n where "n = (if len \<ge> buffer_cache_size qs then max_int 32 (len + len div 2 + len div 8) else buffer_cache_size qs)"
  define p where "p = nat (- r - 1)"
  define cache where "cache = take p (buffer_cache qs) @ b # drop p (buffer_cache qs)"
  have r: "r < 0" using locate_absent [OF assms(1)] assms(2) by (simp add: r_def)
  then have pl: "p \<le> length (buffer_cache qs)" "\<forall>i < p. strcmp (buf_name qs (buffer_cache qs ! i)) (buf_name qs b) < 0"
    "\<forall>i. p \<le> i \<longrightarrow> i < length (buffer_cache qs) \<longrightarrow> strcmp (buf_name qs b) (buf_name qs (buffer_cache qs ! i)) < 0"
    using locate_placed [OF assms(1), of "buf_name qs b"] by (simp_all add: placed_def p_def r_def)
  have lo: "strcmp (buf_name qs x) (buf_name qs b) < 0" if "x \<in> set (take p (buffer_cache qs))" for x
    using that pl(1,2) by (auto simp: in_set_conv_nth)
  have hi: "strcmp (buf_name qs b) (buf_name qs x) < 0" if "x \<in> set (drop p (buffer_cache qs))" for x
    using that pl(1,3) by (auto simp: in_set_conv_nth)
  define pre post where "pre = take p (buffer_cache qs)" and "post = drop p (buffer_cache qs)"
  have s: "buffer_cache qs = pre @ post" "cache = pre @ [b] @ post" by (simp_all add: pre_def post_def cache_def)
  note lo = lo [folded pre_def] and hi = hi [folded post_def]
  have "names_sorted (buf_name qs) (pre @ post)" using assms(1) s(1) by simp
  then have "names_sorted (buf_name qs) cache"
    using lo hi unfolding s(2) names_sorted_append by (auto simp: names_sorted_def)
  moreover have "set cache = insert b (set (buffer_cache qs))" unfolding s by auto
  moreover have "eb_cache_insert qs b = (qs\<lparr>buffer_cache := cache, buffer_cache_size := n\<rparr>, 0)"
    using r by (auto simp: eb_cache_insert_def Let_def r_def [symmetric] p_def [symmetric] cache_def n_def len_def)
  moreover have "int (length cache) \<le> n"
    using assms(3) pl(1) by (auto simp: cache_def n_def len_def)
  ultimately show thesis using that by (simp add: cache_def)
qed


section \<open>The invariant of the table\<close>

definition table_ok :: "BufferTable \<Rightarrow> bool" where
  "table_ok qs \<longleftrightarrow> names_sorted (buf_name qs) (buffer_cache qs) \<and> set (buffer_cache qs) = set (first_buffer qs) \<and>
     distinct (first_buffer qs) \<and> int (length (buffer_cache qs)) \<le> buffer_cache_size qs \<and>
     (\<forall>b \<in> set (first_buffer qs). buf_name qs b \<noteq> [])"

lemma table_find:
  "table_ok qs \<Longrightarrow> eb_find qs name = Some b \<longleftrightarrow> b \<in> set (first_buffer qs) \<and> buf_name qs b = name"
  by (simp add: table_ok_def find_spec)

lemma length_cache: "table_ok qs \<Longrightarrow> length (buffer_cache qs) = length (first_buffer qs)"
  by (metis table_ok_def names_sorted_distinct distinct_card)

section \<open>Numbered names\<close>

lemma decimal_digits: "decimal n \<noteq> [] \<and> (k > 0 \<longrightarrow> n < 10 ^ k \<longrightarrow> length (decimal n) \<le> k)"
proof (induction n arbitrary: k rule: decimal.induct)
  case (1 n)
  show ?case
  proof (cases "n < 10")
    case True
    then show ?thesis by (subst (1 2) decimal.simps) simp
  next
    case False
    have "length (decimal n) \<le> k" if k: "k > 0" "n < 10 ^ k"
    proof -
      obtain j where j: "k = Suc j" "j > 0" using k False by (cases k; cases "k - 1") auto
      then have "n div 10 < 10 ^ j" using k(2) by (simp add: less_mult_imp_div_less mult.commute)
      with "1.IH" [OF False, of j] j have "length (decimal (n div 10)) \<le> j" by simp
      with False j show ?thesis by (subst decimal.simps) simp
    qed
    moreover have "decimal n \<noteq> []" using False by (subst decimal.simps) simp
    ultimately show ?thesis by blast
  qed
qed

lemma digit_byte: "i < 10 \<Longrightarrow> j < 10 \<Longrightarrow> (48 + of_nat i :: byte) = 48 + of_nat j \<longleftrightarrow> i = j"
proof -
  assume "i < 10" "j < 10"
  then have "unat (of_nat i :: byte) = i" "unat (of_nat j :: byte) = j" by (simp_all add: unsigned_of_nat take_bit_nat_eq_self)
  then show ?thesis by (metis add_left_cancel)
qed

lemma decimal_inj: "decimal n = decimal m \<Longrightarrow> n = m"
proof (induction n arbitrary: m rule: decimal.induct)
  case (1 n)
  have u: "decimal x = (if x < 10 then [48 + of_nat x] else decimal (x div 10) @ [48 + of_nat (x mod 10)])" for x
    by (rule decimal.simps)
  have ne: "decimal x \<noteq> []" for x using decimal_digits [of x 0] by simp
  show ?case
  proof (cases "n < 10")
    case True
    with "1.prems" ne [of "m div 10"] have "m < 10" by (subst (asm) (1 2) u) (auto split: if_splits)
    with True "1.prems" digit_byte show ?thesis by (subst (asm) (1 2) u) simp
  next
    case False
    with "1.prems" ne [of "n div 10"] have m: "\<not> m < 10" by (subst (asm) (1 2) u) (auto split: if_splits)
    with False "1.prems" have "decimal (n div 10) = decimal (m div 10)" "n mod 10 = m mod 10"
      using digit_byte [of "n mod 10" "m mod 10"] by (subst (asm) (1 2) u; simp)+
    with "1.IH" [OF False, of "m div 10"] show ?thesis by (metis div_mod_decomp)
  qed
qed


section \<open>Renaming\<close>

text \<open>The names that are tried in turn: the name itself, then the name with a number.\<close>

definition attempt :: "byte list \<Rightarrow> nat \<Rightarrow> byte list \<Rightarrow> byte list \<Rightarrow> nat \<Rightarrow> byte list" where
  "attempt base pos prefix suffix n = (if n = 0 then base else take pos base @ prefix @ decimal n @ suffix)"

text \<open>A name is settled when it is not empty and no other buffer has it.\<close>

definition settled :: "BufferTable \<Rightarrow> nat \<Rightarrow> byte list \<Rightarrow> bool" where
  "settled qs b name \<longleftrightarrow> name \<noteq> [] \<and> (\<forall>b1 \<in> set (first_buffer qs). buf_name qs b1 = name \<longrightarrow> b1 = b)"

lemma next_attempt:
  assumes "length base \<le> 245" "pos \<le> length base" "length prefix = 1" "length suffix = 1" "n + 1 < 10 ^ 8"
  shows "name_attempt (attempt base pos prefix suffix n) pos prefix suffix (n + 1) = attempt base pos prefix suffix (n + 1)"
proof -
  have "length (decimal (n + 1)) \<le> 8" using decimal_digits [of "n + 1" 8] assms(5) by simp
  then have "length (prefix @ decimal (n + 1) @ suffix) \<le> nat (256 - int pos - 1)" using assms by simp
  moreover have "take pos (attempt base pos prefix suffix n) = take pos base" using assms(2) by (simp add: attempt_def)
  ultimately show ?thesis by (simp add: name_attempt_def MAX_BUFFERNAME_SIZE_def attempt_def)
qed

lemma name_loop_stops:
  assumes "table_ok qs" "settled qs b name"
  shows "name_loop qs b pos prefix suffix name n =
    Some (if b \<in> set (first_buffer qs) \<and> buf_name qs b = name then None else Some name)"
proof (cases "eb_find qs name")
  case None
  then have "\<not> (b \<in> set (first_buffer qs) \<and> buf_name qs b = name)" using table_find [OF assms(1), of name b] by simp
  moreover have "name \<noteq> []" using assms(2) by (simp add: settled_def)
  ultimately show ?thesis by (subst name_loop.simps) (simp add: None)
next
  case (Some b1)
  then have "b1 \<in> set (first_buffer qs)" "buf_name qs b1 = name" using table_find [OF assms(1)] by auto
  then have "b1 = b" using assms(2) unfolding settled_def by blast
  then have f: "eb_find qs name = Some b" "b \<in> set (first_buffer qs) \<and> buf_name qs b = name"
    using Some table_find [OF assms(1), of name b] by simp_all
  show ?thesis by (subst name_loop.simps) (simp only: f Let_def, simp)
qed

lemma name_loop_goes_on:
  assumes "table_ok qs" "\<not> settled qs b name"
  shows "name_loop qs b pos prefix suffix name n = name_loop qs b pos prefix suffix (name_attempt name pos prefix suffix (n + 1)) (n + 1)"
proof (cases "name = []")
  case True
  then have "eb_find qs name \<noteq> Some b" using table_find [OF assms(1), of name b] assms(1) by (auto simp: table_ok_def)
  with True show ?thesis by (subst name_loop.simps) simp
next
  case False
  with assms(2) obtain b1 where b1: "b1 \<in> set (first_buffer qs)" "buf_name qs b1 = name" "b1 \<noteq> b" by (auto simp: settled_def)
  then have "eb_find qs name = Some b1" using table_find [OF assms(1)] by simp
  with b1(3) show ?thesis by (subst name_loop.simps) simp
qed

lemma settled_exists:
  assumes "table_ok qs" "length prefix = 1" "length suffix = 1"
  shows "\<exists>n \<le> length (first_buffer qs) + 1. settled qs b (attempt base pos prefix suffix n)"
proof (rule ccontr)
  assume no: "\<not> ?thesis"
  define f where "f n = attempt base pos prefix suffix n" for n
  let ?N = "{1..length (first_buffer qs) + 1}"
  have "f n \<in> buf_name qs ` set (first_buffer qs)" if "n \<in> ?N" for n
  proof -
    have "\<not> settled qs b (f n)" using no that by (auto simp: f_def)
    moreover have "f n \<noteq> []" using that assms(2) by (auto simp: f_def attempt_def)
    ultimately show ?thesis by (force simp: settled_def image_iff)
  qed
  then have "f ` ?N \<subseteq> buf_name qs ` set (first_buffer qs)" by auto
  moreover have "inj_on f ?N"
  proof (rule inj_onI)
    fix n m assume "n \<in> ?N" "m \<in> ?N" "f n = f m"
    then have "decimal n @ suffix = decimal m @ suffix" by (auto simp: f_def attempt_def)
    then show "n = m" using decimal_inj by simp
  qed
  ultimately have "card ?N \<le> card (buf_name qs ` set (first_buffer qs))" by (metis card_image card_mono finite_imageI List.finite_set)
  also have "\<dots> \<le> length (first_buffer qs)" by (metis card_image_le card_length le_trans List.finite_set)
  finally show False by simp
qed

lemma name_loop_finds:
  assumes "table_ok qs" "length base \<le> 245" "pos \<le> length base" "length prefix = 1" "length suffix = 1"
    "settled qs b (attempt base pos prefix suffix m)" "\<forall>i < m. \<not> settled qs b (attempt base pos prefix suffix i)" "m < 10 ^ 8" "n \<le> m"
  shows "name_loop qs b pos prefix suffix (attempt base pos prefix suffix n) n =
    name_loop qs b pos prefix suffix (attempt base pos prefix suffix m) m"
  using assms(9)
proof (induction n rule: inc_induct)
  case (step n)
  have "name_loop qs b pos prefix suffix (attempt base pos prefix suffix n) n =
      name_loop qs b pos prefix suffix (attempt base pos prefix suffix (Suc n)) (Suc n)"
    using name_loop_goes_on [OF assms(1)] assms(7) step.hyps next_attempt [OF assms(2-5), of n] assms(8) by simp
  with step.IH show ?case by simp
qed simp


definition numbered_name :: "byte list \<Rightarrow> nat \<Rightarrow> byte list" where
  "numbered_name base n =
     (if base \<noteq> [] \<and> last base = 42 then attempt base (length base - 1) [45] [42] n else attempt base (length base) [60] [62] n)"

lemma numbered_name_ok:
  assumes "length base \<le> 245" "0 \<notin> set base" "n < 10 ^ 8"
  shows "length (numbered_name base n) < 256" "0 \<notin> set (numbered_name base n)"
proof -
  have l: "length (decimal n) \<le> 8" using decimal_digits [of n 8] assms(3) by simp
  then show "length (numbered_name base n) < 256" using assms(1) by (auto simp: numbered_name_def attempt_def)
  have "0 \<notin> set (decimal k)" for k
  proof (induction k rule: decimal.induct)
    case (1 k)
    have "(48 + of_nat i :: byte) \<noteq> 0" if "i < 10" for i
    proof -
      have "unat (48 + of_nat i :: byte) = 48 + i" using that by (simp add: unat_word_ariths unsigned_of_nat take_bit_nat_eq_self)
      then show ?thesis by (metis add_is_0 unsigned_0 zero_neq_numeral)
    qed
    with 1 show ?case by (subst decimal.simps) auto
  qed
  then show "0 \<notin> set (numbered_name base n)"
    using assms(2) by (auto simp: numbered_name_def attempt_def dest: in_set_takeD)
qed

lemma rename_core:
  assumes "table_ok qs" "0 \<notin> set name1" "length (first_buffer qs) + 1 < 10 ^ 8"
  defines "base \<equiv> take 245 name1"
  obtains qs' m where "eb_set_buffer_name qs b name1 = Some (qs', 0)" "first_buffer qs' = first_buffer qs"
    "set (buffer_cache qs') = insert b (set (first_buffer qs))" "names_sorted (buf_name qs') (buffer_cache qs')"
    "int (length (buffer_cache qs')) \<le> buffer_cache_size qs'" "buf_name qs' = (buf_name qs)(b := numbered_name base m)"
    "settled qs b (numbered_name base m)" "\<forall>i < m. \<not> settled qs b (numbered_name base i)"
proof -
  define pos where "pos = (if base \<noteq> [] \<and> last base = 42 then length base - 1 else length base)"
  define prefix suffix :: "byte list" where "prefix = (if base \<noteq> [] \<and> last base = 42 then [45] else [60])"
    and "suffix = (if base \<noteq> [] \<and> last base = 42 then [42] else [62])"
  have one: "length prefix = 1" "length suffix = 1" by (simp_all add: prefix_def suffix_def)
  have num: "numbered_name base n = attempt base pos prefix suffix n" for n
    by (simp add: numbered_name_def pos_def prefix_def suffix_def)
  have base: "pstrcpy [] (MAX_BUFFERNAME_SIZE - 10) name1 = base" "length base \<le> 245" "0 \<notin> set base"
    using pstrcpy_take [of 246 name1 "[]"] assms(2) by (auto simp: base_def MAX_BUFFERNAME_SIZE_def dest: in_set_takeD)
  have star: "(0 < length base \<and> base ! (length base - 1) = 42) \<longleftrightarrow> base \<noteq> [] \<and> last base = 42"
    by (cases "base = []") (simp_all add: last_conv_nth)
  define m where "m = (LEAST n. settled qs b (numbered_name base n))"
  obtain k where k: "k \<le> length (first_buffer qs) + 1" "settled qs b (numbered_name base k)"
    using settled_exists [OF assms(1) one, of b base pos] by (auto simp: num)
  have m: "settled qs b (numbered_name base m)" "\<forall>i < m. \<not> settled qs b (numbered_name base i)" "m < 10 ^ 8"
    using LeastI [of _ k] not_less_Least Least_le [of "\<lambda>n. settled qs b (numbered_name base n)" k] k assms(3) by (auto simp: m_def)
  have "name_loop qs b pos prefix suffix base 0 = name_loop qs b pos prefix suffix (numbered_name base m) m"
    using name_loop_finds [OF assms(1) base(2) _ one, of pos b m 0] m by (simp add: num pos_def attempt_def [of _ _ _ _ 0])
  then have loop: "name_loop qs b pos prefix suffix base 0 =
      Some (if b \<in> set (first_buffer qs) \<and> buf_name qs b = numbered_name base m then None else Some (numbered_name base m))"
    using name_loop_stops [OF assms(1) m(1)] by simp
  have def: "eb_set_buffer_name qs b name1 = (case name_loop qs b pos prefix suffix base 0 of None \<Rightarrow> None | Some None \<Rightarrow> Some (qs, 0)
      | Some (Some name) \<Rightarrow> let qs1 = fst (eb_cache_remove qs b);
          qs2 = qs1\<lparr>buf_name := (buf_name qs1)(b := pstrcpy (buf_name qs1 b) MAX_BUFFERNAME_SIZE name)\<rparr> in Some (eb_cache_insert qs2 b))"
    unfolding eb_set_buffer_name_def base(1) Let_def star pos_def prefix_def suffix_def by (simp split: option.split)
  show thesis
  proof (cases "b \<in> set (first_buffer qs) \<and> buf_name qs b = numbered_name base m")
    case True
    then have "buf_name qs = (buf_name qs)(b := numbered_name base m)" by auto
    with True that [of qs m] def loop m(1,2) assms(1) show thesis by (auto simp: table_ok_def)
  next
    case False
    have s: "names_sorted (buf_name qs) (buffer_cache qs)" using assms(1) by (simp add: table_ok_def)
    obtain cache where r: "fst (eb_cache_remove qs b) = qs\<lparr>buffer_cache := cache\<rparr>" "set cache = set (buffer_cache qs) - {b}"
      "names_sorted (buf_name qs) cache" "length cache \<le> length (buffer_cache qs)"
      using cache_remove_spec [OF s] .
    define nm where "nm = (buf_name qs)(b := numbered_name base m)"
    define qs2 where "qs2 = qs\<lparr>buffer_cache := cache, buf_name := nm\<rparr>"
    have cp: "pstrcpy (buf_name qs b) MAX_BUFFERNAME_SIZE (numbered_name base m) = numbered_name base m"
      using numbered_name_ok [OF base(2,3) m(3)] pstrcpy_take [of 256 "numbered_name base m"] by (simp add: MAX_BUFFERNAME_SIZE_def)
    have i1: "names_sorted (buf_name qs2) (buffer_cache qs2)"
      using r(2,3) names_sorted_cong [of cache "buf_name qs" nm] by (simp add: qs2_def nm_def)
    have "nm b1 \<noteq> nm b" if "b1 \<in> set cache" for b1
      using that r(2) m(1) assms(1) by (auto simp: nm_def settled_def table_ok_def)
    then have i2: "buf_name qs2 b \<notin> buf_name qs2 ` set (buffer_cache qs2)" by (force simp: qs2_def image_iff)
    have i3: "int (length (buffer_cache qs2)) \<le> buffer_cache_size qs2" using r(4) assms(1) by (simp add: qs2_def table_ok_def)
    obtain cache' n where i: "eb_cache_insert qs2 b = (qs2\<lparr>buffer_cache := cache', buffer_cache_size := n\<rparr>, 0)"
      "set cache' = insert b (set (buffer_cache qs2))" "names_sorted (buf_name qs2) cache'" "int (length cache') \<le> n"
      using cache_insert_spec [OF i1 i2 i3] .
    have "eb_set_buffer_name qs b name1 = Some (qs2\<lparr>buffer_cache := cache', buffer_cache_size := n\<rparr>, 0)"
      using def loop [unfolded if_not_P [OF False]] r(1) i(1) cp by (simp add: qs2_def nm_def)
    with that [of "qs2\<lparr>buffer_cache := cache', buffer_cache_size := n\<rparr>" m] i m(1,2) r(2) assms(1) show thesis
      by (auto simp: qs2_def nm_def table_ok_def)
  qed
qed


text \<open>
  C19. Renaming a buffer returns, succeeds and gives the first free name: the name asked for, cut to
  245 bytes, or that name with the least number that makes it unique; a buffer
  whose name already is that name keeps it. No other name changes, all names stay unique and not empty, and the cache
  stays sorted, so that the buffer is found under its new name. The number of buffers is assumed to be
  below one hundred million, beyond which a number no longer fits in the name.
\<close>

theorem buffer_rename:
  assumes "table_ok qs" "b \<in> set (first_buffer qs)" "0 \<notin> set name1" "length (first_buffer qs) + 1 < 10 ^ 8"
  shows "\<exists>qs' m. eb_set_buffer_name qs b name1 = Some (qs', 0) \<and> table_ok qs' \<and> first_buffer qs' = first_buffer qs \<and>
    buf_name qs' = (buf_name qs)(b := numbered_name (take 245 name1) m) \<and> settled qs b (numbered_name (take 245 name1) m) \<and>
    (\<forall>i < m. \<not> settled qs b (numbered_name (take 245 name1) i)) \<and> eb_find qs' (numbered_name (take 245 name1) m) = Some b"
proof -
  obtain qs' m where r: "eb_set_buffer_name qs b name1 = Some (qs', 0)" "first_buffer qs' = first_buffer qs"
    "set (buffer_cache qs') = insert b (set (first_buffer qs))" "names_sorted (buf_name qs') (buffer_cache qs')"
    "int (length (buffer_cache qs')) \<le> buffer_cache_size qs'" "buf_name qs' = (buf_name qs)(b := numbered_name (take 245 name1) m)"
    "settled qs b (numbered_name (take 245 name1) m)" "\<forall>i < m. \<not> settled qs b (numbered_name (take 245 name1) i)"
    using rename_core [OF assms(1,3,4), of b] .
  then have "table_ok qs'" using assms(1,2) by (auto simp: table_ok_def settled_def insert_absorb)
  moreover from this have "eb_find qs' (numbered_name (take 245 name1) m) = Some b"
    using table_find [of qs'] r(2,6) assms(2) by simp
  ultimately show ?thesis using r by blast
qed

definition sample_table :: BufferTable where
  "sample_table = \<lparr>buf_name = (\<lambda>b. if b = 1 then [97] else if b = 2 then [98] else []), buf_filename = (\<lambda>_. []),
     buffer_cache = [1, 2], buffer_cache_size = 32, first_buffer = [2, 1]\<rparr>"

lemma sample_table_fields: "first_buffer sample_table = [2, 1]" "buf_name sample_table 2 = [98]"
  by (simp_all add: sample_table_def)

lemma sample_table_ok: "table_ok sample_table"
  by (simp add: sample_table_def table_ok_def names_sorted_def insert_commute)

theorem buffer_rename_witness:
  "\<exists>qs' m. eb_set_buffer_name sample_table 2 [97] = Some (qs', 0) \<and> table_ok qs' \<and> buf_name qs' 2 = numbered_name [97] m \<and> m \<noteq> 0"
proof -
  have "\<not> settled sample_table 2 (numbered_name [97] 0)"
    by (simp add: settled_def sample_table_def numbered_name_def attempt_def)
  moreover obtain qs' m where "eb_set_buffer_name sample_table 2 [97] = Some (qs', 0)" "table_ok qs'"
    "buf_name qs' = (buf_name sample_table)(2 := numbered_name [97] m)" "settled sample_table 2 (numbered_name [97] m)"
    using buffer_rename [OF sample_table_ok, of 2 "[97]"] by (auto simp: sample_table_fields)
  ultimately show ?thesis by (intro exI [of _ qs'] exI [of _ m]) (cases m; simp)
qed



end
