(* ===== verification/Spec2Isabelle.thy ===== *)
theory Spec2Isabelle
  imports BufferLaws Paths OutBuf CharsetDetect Bufed KeyLaws TextMotion NameLaws
begin

text \<open>
  \<^bold>\<open>A model of the QEmacs core.\<close>

  QEmacs is a text editor written in C. Its core is the edit buffer (\<^verbatim>\<open>src/buffer.c\<close>): a text
  kept in pages of at most 4096 bytes, with marks and properties that follow the text, a
  parallel buffer of styles, and a log from which changes are undone and redone. The
  buffer stores bytes; the charsets (\<^verbatim>\<open>src/charset.c\<close>) turn them into code points and find
  lines and columns in them. Under both lie the string, path, UTF-8 and output functions
  of \<^verbatim>\<open>src/util.c\<close>, \<^verbatim>\<open>src/util.h\<close> and \<^verbatim>\<open>src/cutils.c\<close>. Commands, windows, modes and the
  display are built on top (\<^verbatim>\<open>src/qe.c\<close> and the directories \<^verbatim>\<open>modes\<close> and \<^verbatim>\<open>lang\<close>).

  \<^bold>\<open>Theories.\<close>

  \<^item> \<^verbatim>\<open>Prelude\<close>: bytes and code points as words, the integer helpers of \<^verbatim>\<open>cutils.h\<close>, splicing of lists.
  \<^item> \<^verbatim>\<open>PageTable\<close>: \<^verbatim>\<open>struct Page\<close>, \<^verbatim>\<open>find_page\<close> with its cache, and the page-level bodies of
    \<^verbatim>\<open>eb_read\<close>, \<^verbatim>\<open>eb_write\<close>, \<^verbatim>\<open>eb_insert1\<close>, \<^verbatim>\<open>eb_insert_lowlevel\<close>, \<^verbatim>\<open>eb_delete\<close>. The text of a page
    table is the concatenation of its pages; every operation is shown to splice it.
  \<^item> \<^verbatim>\<open>Buffer\<close>: \<^verbatim>\<open>struct EditBuffer\<close> without logging, the callbacks (\<^verbatim>\<open>eb_offset_callback\<close>,
    \<^verbatim>\<open>eb_plist_callback\<close>), and insertion, deletion, overwriting, replacement and copying, each
    with the function \<^verbatim>\<open>eb_addlog\<close> as a parameter. The locale \<^verbatim>\<open>change_log\<close> states what such a
    function may do; the primitives are proved correct once inside it.
  \<^item> \<^verbatim>\<open>Styles\<close>: the style buffer, \<^verbatim>\<open>eb_set_style\<close> and \<^verbatim>\<open>eb_style_callback\<close>.
  \<^item> \<^verbatim>\<open>UndoLog\<close>: the log records as bytes of the log buffer, \<^verbatim>\<open>eb_addlog\<close>, \<^verbatim>\<open>do_undo\<close>, \<^verbatim>\<open>do_redo\<close>, and
    the public primitives, which are those of \<^verbatim>\<open>Buffer\<close> with \<^verbatim>\<open>eb_addlog\<close>; it interprets
    \<^verbatim>\<open>change_log\<close>.
  \<^item> \<^verbatim>\<open>UndoHistory\<close>: the log as a list of abstract records, \<^verbatim>\<open>eb_addlog\<close> and \<^verbatim>\<open>do_undo\<close> as steps on it,
    and the theorems on whole editing sessions.
  \<^item> \<^verbatim>\<open>BufferLaws\<close>: the text every primitive produces, marks, styles, pages and the page cache.
  \<^item> \<^verbatim>\<open>Utf8\<close>: the UTF-8 tables, both decoders and the encoder of \<^verbatim>\<open>util.c\<close>.
  \<^item> \<^verbatim>\<open>Strings\<close>, \<^verbatim>\<open>StringLaws\<close>: character classes, bounded copies, comparisons, word lists, patterns,
    searches, collation and identifiers, and their laws.
  \<^item> \<^verbatim>\<open>Paths\<close>: file names, normalisation of paths, extensions, interpreters of scripts.
  \<^item> \<^verbatim>\<open>OutBuf\<close>: \<^verbatim>\<open>buf_t\<close>, with the array it writes to, and what is built on it.
  \<^item> \<^verbatim>\<open>Charset\<close>: the charset structures, codecs, positions inside a block, registry and detection.
    \<^verbatim>\<open>CharsetLaws\<close> has the locales \<^verbatim>\<open>codec_pair\<close> and \<^verbatim>\<open>line_scanner\<close>, interpreted on all charsets, and
    the laws of positions; \<^verbatim>\<open>CharsetDetect\<close> what detection finds and the registry.
  \<^item> \<^verbatim>\<open>BufferText\<close>: the characters of a buffer, from \<^verbatim>\<open>eb_set_charset\<close> to \<^verbatim>\<open>eb_next_line\<close> in \<^verbatim>\<open>buffer.c\<close>: next
    and previous character, glyphs, lines, columns and character numbers, insertion of
    characters, conversion between charsets, regions, properties. \<^verbatim>\<open>TextReading\<close> shows that an inserted
    character is read back, \<^verbatim>\<open>TextMotion\<close> that motions end, that cached counts stay right and
    that lines and columns are those of the text.
  \<^item> \<^verbatim>\<open>BufferNames\<close>, \<^verbatim>\<open>NameLaws\<close>: the table of buffers of \<^verbatim>\<open>buffer.c\<close>, with the cache sorted by name, its
    binary search, unique names, creation and release, and the invariant that ties them together.
  \<^item> \<^verbatim>\<open>Sorting\<close>: \<^verbatim>\<open>qe_qsort_r\<close> with its stack of segments. The locale \<^verbatim>\<open>compare_contract\<close> of \<^verbatim>\<open>Prelude\<close> states
    what a comparison function must promise; \<^verbatim>\<open>qe_strcollate\<close>, \<^verbatim>\<open>strcmp\<close> and, in \<^verbatim>\<open>Bufed\<close>, the order of the
    buffer list (\<^verbatim>\<open>modes/bufed.c\<close>) are interpreted as such.
  \<^item> \<^verbatim>\<open>Keys\<close>, \<^verbatim>\<open>KeyLaws\<close>: names of keys, parsing and printing of key sequences.

  \<^bold>\<open>Correspondence.\<close> A C string is the list of its bytes, its end the terminating zero. A
  destination array is the string it holds, except in \<^verbatim>\<open>OutBuf\<close>, where the array itself is
  modelled. Pointers into a buffer are the remaining list or an offset; pointers to static
  structures (charsets) are constructors of a datatype; function pointers of a charset are
  values of small datatypes. C \<^verbatim>\<open>int\<close> is \<^typ>\<open>int\<close> or, after a guard, \<^typ>\<open>nat\<close>: overflow of
  signed integers is undefined in C and no result depends on it; bytes, code points and
  the fields of log records are words of their width. Undefined outcomes (a log record of an
  unknown kind, a write through a null array, a loop that does not end) are the value
  \<^const>\<open>None\<close>. Allocation is assumed to succeed. A little-endian host with signed \<^verbatim>\<open>char\<close>
  is modelled, without \<^verbatim>\<open>CONFIG_WIN32\<close> and \<^verbatim>\<open>CONFIG_TINY\<close>.

  \<^bold>\<open>What is shown.\<close> A session of insertions, deletions and overwrites is undone completely by
  a bounded number of undo commands, which also restore the modified flag, and for insertions
  and deletions redone; the bytes of the log encode the abstract history. Each primitive
  yields exactly the spliced text and keeps the invariants of pages, cache, marks and styles.
  All charsets decode what they encode, and line and character positions agree; a character
  inserted in a buffer is read back in both directions, the counts cached in pages are kept
  right by every edit, positions agree with the text, and the motions backwards return. UTF-8
  files and uniform line ends are detected. Sorting returns a sorted permutation and stays in
  its arrays whatever the comparison does; printed key sequences are parsed back. Buffers keep unique names, under which
  they are found, and renaming returns. The string functions agree with reference
  definitions, and the bounded ones stay in bounds. Defects that the proofs brought out are
  stated as theorems: redo after an overwrite, the column carried over pages by \<^verbatim>\<open>eb_goto_pos\<close>, key
  names that end in a prefix, drive letters in \<^verbatim>\<open>canonicalize_path\<close>,
  columns of UTF-8 DOS files, a one-byte array in \<^verbatim>\<open>get_dirname\<close> and in
  \<^verbatim>\<open>ustr_get_identifier_lc\<close>, output after a truncated character.

  \<^bold>\<open>Fuel and bounds.\<close> Loops are structural or have a termination measure, except the motions
  backwards and the search for a free buffer name, which are partial functions proved to return. The only fuel is that of \<^verbatim>\<open>decode_text\<close>, the reading of a whole text, for which the
  number of bytes is proved enough.

  \<^bold>\<open>Not modelled.\<close> Files, processes, terminals and the display (\<^verbatim>\<open>unix.c\<close>, \<^verbatim>\<open>tty.c\<close>, \<^verbatim>\<open>x11.c\<close>,
  \<^verbatim>\<open>display.c\<close>), memory allocation, the functions that rest on generated Unicode tables
  (\<^verbatim>\<open>wcwidth.c\<close>, \<^verbatim>\<open>libunicode.c\<close>, \<^verbatim>\<open>charsetjis.c\<close>), third-party code (\<^verbatim>\<open>libquickjs\<close>,
  \<^verbatim>\<open>libregexp.c\<close>, \<^verbatim>\<open>stb_image.h\<close>, \<^verbatim>\<open>lips\<close>), the HTML library and the language modes. Callbacks of other
  modules on buffer changes are not modelled. Of \<^verbatim>\<open>buffer.c\<close>, loading, saving and mapping of files are
  left out; searching (\<^verbatim>\<open>search.c\<close>), the script language (\<^verbatim>\<open>qescript.c\<close>), variables, colors and the commands of
  \<^verbatim>\<open>qe.c\<close> are not modelled yet.
\<close>

end
